(* ===== verification/Prelude.thy ===== *)
theory Prelude
  imports Main "HOL-Library.Word"
begin

text \<open>
  Shared vocabulary of the development: the machine integers the sources use, their layout in
  memory on the little-endian cores the platform runs on, the byte-order conversions of the
  C library, and the facts about them every component relies on. The collection
  \<open>byte_simps\<close> turns a load of a store into the stored value, and \<open>unat_simps\<close> moves
  composed words to arithmetic on \<^typ>\<open>nat\<close>.
\<close>

unbundle bit_operations_syntax

named_theorems byte_simps \<open>loads and stores of multi-byte integers\<close>
named_theorems unat_simps \<open>composed words as natural numbers\<close>

section \<open>Machine integers\<close>

type_synonym u8 = "8 word"
type_synonym u16 = "16 word"
type_synonym u32 = "32 word"
type_synonym u64 = "64 word"

text \<open>Memory is a list of bytes; a load reads the bytes at an offset, least significant first.\<close>

type_synonym bytes = "u8 list"

definition le16 :: "u8 \<Rightarrow> u8 \<Rightarrow> u16" where
  "le16 b0 b1 = ucast b0 OR push_bit 8 (ucast b1)"

definition le32 :: "u8 \<Rightarrow> u8 \<Rightarrow> u8 \<Rightarrow> u8 \<Rightarrow> u32" where
  "le32 b0 b1 b2 b3 =
     ucast b0 OR push_bit 8 (ucast b1) OR push_bit 16 (ucast b2) OR push_bit 24 (ucast b3)"

definition bytes16 :: "u16 \<Rightarrow> bytes" where
  "bytes16 w = [ucast w, ucast (drop_bit 8 w)]"

definition bytes32 :: "u32 \<Rightarrow> bytes" where
  "bytes32 w = [ucast w, ucast (drop_bit 8 w), ucast (drop_bit 16 w), ucast (drop_bit 24 w)]"

text \<open>The byte-order conversions of the C library: byte swaps on a little-endian core.\<close>

definition htons :: "u16 \<Rightarrow> u16" where
  "htons w = le16 (ucast (drop_bit 8 w)) (ucast w)"

definition htonl :: "u32 \<Rightarrow> u32" where
  "htonl w = le32 (ucast (drop_bit 24 w)) (ucast (drop_bit 16 w)) (ucast (drop_bit 8 w)) (ucast w)"

abbreviation ntohs :: "u16 \<Rightarrow> u16" where "ntohs \<equiv> htons"
abbreviation ntohl :: "u32 \<Rightarrow> u32" where "ntohl \<equiv> htonl"

definition load16 :: "bytes \<Rightarrow> nat \<Rightarrow> u16" where
  "load16 m i = le16 (m ! i) (m ! (i + 1))"

definition load32 :: "bytes \<Rightarrow> nat \<Rightarrow> u32" where
  "load32 m i = le32 (m ! i) (m ! (i + 1)) (m ! (i + 2)) (m ! (i + 3))"

text \<open>\<open>memcpy(p + off, src, length src)\<close> inside a buffer that is large enough.\<close>

definition splice :: "'a list \<Rightarrow> nat \<Rightarrow> 'a list \<Rightarrow> 'a list" where
  "splice m off src = take off m @ src @ drop (off + length src) m"

section \<open>Words and bytes\<close>

lemma length_bytes16 [simp]: "length (bytes16 w) = 2"
  by (simp add: bytes16_def)

lemma length_bytes32 [simp]: "length (bytes32 w) = 4"
  by (simp add: bytes32_def)

lemma byte_bit_bound: "bit (b :: u8) n \<Longrightarrow> n < 8"
  using bit_imp_le_length by fastforce

lemma bytes16_le16 [byte_simps]:
  "ucast (le16 b0 b1) = b0" "ucast (drop_bit 8 (le16 b0 b1)) = b1"
  unfolding le16_def by (rule bit_word_eqI; auto simp: bit_simps dest: byte_bit_bound)+

lemma bytes32_le32 [byte_simps]:
  "ucast (le32 b0 b1 b2 b3) = b0" "ucast (drop_bit 8 (le32 b0 b1 b2 b3)) = b1"
  "ucast (drop_bit 16 (le32 b0 b1 b2 b3)) = b2" "ucast (drop_bit 24 (le32 b0 b1 b2 b3)) = b3"
  unfolding le32_def by (rule bit_word_eqI; auto simp: bit_simps dest: byte_bit_bound)+

lemma le16_of_word [byte_simps]: "le16 (ucast w) (ucast (drop_bit 8 w)) = w"
  unfolding le16_def by (rule bit_word_eqI) (auto simp: bit_simps)

lemma le32_of_word [byte_simps]:
  "le32 (ucast w) (ucast (drop_bit 8 w)) (ucast (drop_bit 16 w)) (ucast (drop_bit 24 w)) = w"
proof (rule bit_word_eqI)
  fix n :: nat
  assume "n < LENGTH(32)"
  then show "bit (le32 (ucast w) (ucast (drop_bit 8 w)) (ucast (drop_bit 16 w)) (ucast (drop_bit 24 w))) n
      = bit w n"
    by (cases "n < 8"; cases "n < 16"; cases "n < 24"; auto simp: le32_def bit_simps not_less less_diff_conv2)
qed

lemma htons_htons [simp]: "htons (htons w) = w"
  by (simp add: htons_def byte_simps)

lemma htonl_htonl [simp]: "htonl (htonl w) = w"
  by (simp add: htonl_def byte_simps)

lemma htons_le16: "htons (le16 b0 b1) = le16 b1 b0"
  by (simp add: htons_def byte_simps)

lemma htonl_le32: "htonl (le32 b0 b1 b2 b3) = le32 b3 b2 b1 b0"
  by (simp add: htonl_def byte_simps)

lemma unat_u8_less [simp]: "unat (b :: u8) < 256"
  using unsigned_less [of b] by simp

lemma unat_ucast_16_32 [simp]: "unat (ucast (w :: u16) :: u32) = unat w"
proof -
  have "unat w < 2 ^ 32"
    by (rule less_le_trans [OF unsigned_less]) simp
  then show ?thesis by (simp only: unsigned_ucast_eq) (simp add: take_bit_nat_eq_self)
qed

lemma unat_ucast_8_32 [simp]: "unat (ucast (w :: u8) :: u32) = unat w"
proof -
  have "unat w < 2 ^ 32"
    by (rule less_le_trans [OF unsigned_less]) simp
  then show ?thesis by (simp only: unsigned_ucast_eq) (simp add: take_bit_nat_eq_self)
qed

lemma unat_ucast_32_16: "unat (w :: u32) < 65536 \<Longrightarrow> unat (ucast w :: u16) = unat w"
  by (simp only: unsigned_ucast_eq) (simp add: take_bit_nat_eq_self)

lemma unat_le16 [unat_simps]: "unat (le16 b0 b1) = unat b0 + 256 * unat b1"
proof -
  have "le16 b0 b1 = ucast b0 + push_bit 8 (ucast b1)"
    unfolding le16_def
    by (rule disjunctive_add [symmetric]) (auto simp: bit_simps dest: byte_bit_bound)
  moreover have "unat b0 < 65536" "unat b1 < 65536" "unat b1 * 256 < 65536"
      "unat b0 + unat b1 * 256 < 65536"
    using unat_u8_less [of b0] unat_u8_less [of b1] by linarith+
  ultimately show ?thesis
    by (simp add: unat_word_ariths push_bit_eq_mult unsigned_ucast_eq take_bit_eq_mod)
qed

lemma unat_htons_le16 [unat_simps]: "unat (htons (le16 b0 b1)) = 256 * unat b0 + unat b1"
  by (simp add: htons_le16 unat_le16)

lemma bytes16_htons: "bytes16 (htons w) = rev (bytes16 w)"
  by (simp add: bytes16_def htons_def byte_simps)

lemma top_bit_u32: "(m :: u32) AND 0x80000000 \<noteq> 0 \<longleftrightarrow> bit m 31"
proof -
  have "(0x80000000 :: u32) = 2 ^ 31" by simp
  then show ?thesis by (metis and_exp_eq_0_iff_not_bit)
qed

lemma bit_shift_1: "bit (push_bit 1 (m :: u32)) n \<longleftrightarrow> 1 \<le> n \<and> n < 32 \<and> bit m (n - 1)"
  unfolding bit_push_bit_iff using bit_imp_le_length [of "push_bit 1 m" n] by (auto simp: bit_simps)

end
