(* ===== verification/Packet.thy ===== *)
theory Packet
  imports Prelude
begin

text \<open>
  The raw IP/UDP layer of the DHCP client, \<open>system/core/libnetutils/packet.c\<close>: the one's
  complement checksum, the datagram \<open>send_packet\<close> hands to the kernel, and the filter and
  checksum validation of \<open>receive_packet\<close>. Memory is little-endian, as on every core of the
  platform. The lemmas relate the word-by-word accumulator to the sum of the 16-bit words modulo
  65535, from which the round trip and the detection of corrupted bytes follow.
\<close>

section \<open>Checksum\<close>

text \<open>The accumulation loop of \<open>checksum\<close>: 16-bit loads, then the odd byte.\<close>

fun checksum_sum :: "bytes \<Rightarrow> u32 \<Rightarrow> u32" where
  "checksum_sum (b0 # b1 # up) s = checksum_sum up (s + ucast (le16 b0 b1))"
| "checksum_sum [b] s = s + ucast b"
| "checksum_sum [] s = s"

text \<open>The folding loop of \<open>checksum\<close>: add the carries back until none is left.\<close>

lemma unat_drop_bit_16: "unat (drop_bit 16 (s :: u32)) = unat s div 65536"
  by (simp add: drop_bit_eq_div unat_div_distrib)

lemma unat_fold_step:
  "unat ((s AND 0xFFFF) + drop_bit 16 s :: u32) = unat s mod 65536 + unat s div 65536"
proof -
  have "s AND 0xFFFF = take_bit 16 s"
    by (simp add: take_bit_eq_mask mask_eq_exp_minus_1)
  then have "unat (s AND 0xFFFF) = unat s mod 65536"
    by (simp only: unsigned_take_bit_eq) (simp add: take_bit_eq_mod)
  moreover have "unat s < 2 ^ 32" using unsigned_less [of s] by simp
  ultimately show ?thesis
    by (simp add: unat_word_ariths unat_drop_bit_16)
qed

function checksum_fold :: "u32 \<Rightarrow> u32" where
  "checksum_fold s =
     (let upper16 = drop_bit 16 s
      in if upper16 \<noteq> 0 then checksum_fold ((s AND 0xFFFF) + upper16) else s)"
  by pat_completeness auto
termination
proof (relation "measure unat")
  fix s upper16 :: u32
  assume "upper16 = drop_bit 16 s" and "upper16 \<noteq> 0"
  then have "unat s div 65536 \<noteq> 0"
    using unat_drop_bit_16 [of s] unat_eq_zero [of upper16] by metis
  then have "unat s mod 65536 + unat s div 65536 < unat s"
    using div_mult_mod_eq [of "unat s" 65536] by linarith
  then show "((s AND 0xFFFF) + upper16, s) \<in> measure unat"
    unfolding in_measure \<open>upper16 = drop_bit 16 s\<close> unat_fold_step .
qed simp

declare checksum_fold.simps [simp del]

definition checksum :: "bytes \<Rightarrow> u32 \<Rightarrow> u32" where
  "checksum buffer startsum = checksum_fold (checksum_sum buffer startsum)"

definition finish_sum :: "u32 \<Rightarrow> u32" where
  "finish_sum s = NOT s AND 0xFFFF"

section \<open>Headers in memory\<close>

text \<open>
  \<open>struct iphdr\<close> and \<open>struct udphdr\<close>, as the C library lays them out: fields wider than a
  byte keep the value the code stores in them, which is already in network order.
\<close>

record iphdr =
  ip_version :: u8
  ip_ihl :: u8
  ip_tos :: u8
  ip_tot_len :: u16
  ip_id :: u16
  ip_frag_off :: u16
  ip_ttl :: u8
  ip_protocol :: u8
  ip_check :: u16
  ip_saddr :: u32
  ip_daddr :: u32

record udphdr =
  udp_source :: u16
  udp_dest :: u16
  udp_len :: u16
  udp_check :: u16

definition iphdr_bytes :: "iphdr \<Rightarrow> bytes" where
  "iphdr_bytes ip =
     [push_bit 4 (ip_version ip) OR ip_ihl ip, ip_tos ip] @ bytes16 (ip_tot_len ip) @
     bytes16 (ip_id ip) @ bytes16 (ip_frag_off ip) @ [ip_ttl ip, ip_protocol ip] @
     bytes16 (ip_check ip) @ bytes32 (ip_saddr ip) @ bytes32 (ip_daddr ip)"

definition iphdr_load :: "bytes \<Rightarrow> iphdr" where
  "iphdr_load m = \<lparr>
     ip_version = drop_bit 4 (m ! 0), ip_ihl = m ! 0 AND 0xF, ip_tos = m ! 1,
     ip_tot_len = load16 m 2, ip_id = load16 m 4, ip_frag_off = load16 m 6,
     ip_ttl = m ! 8, ip_protocol = m ! 9, ip_check = load16 m 10,
     ip_saddr = load32 m 12, ip_daddr = load32 m 16\<rparr>"

definition udphdr_bytes :: "udphdr \<Rightarrow> bytes" where
  "udphdr_bytes udp =
     bytes16 (udp_source udp) @ bytes16 (udp_dest udp) @ bytes16 (udp_len udp) @
     bytes16 (udp_check udp)"

definition udphdr_load :: "bytes \<Rightarrow> nat \<Rightarrow> udphdr" where
  "udphdr_load m i = \<lparr>
     udp_source = load16 m i, udp_dest = load16 m (i + 2), udp_len = load16 m (i + 4),
     udp_check = load16 m (i + 6)\<rparr>"

definition zero_iphdr :: iphdr where
  "zero_iphdr = \<lparr>ip_version = 0, ip_ihl = 0, ip_tos = 0, ip_tot_len = 0, ip_id = 0,
     ip_frag_off = 0, ip_ttl = 0, ip_protocol = 0, ip_check = 0, ip_saddr = 0, ip_daddr = 0\<rparr>"

text \<open>\<open>sizeof(struct dhcp_msg)\<close> and \<open>sizeof(struct dhcp_packet)\<close>.\<close>

definition dhcp_msg_size :: nat where "dhcp_msg_size = 1260"
definition dhcp_packet_size :: nat where "dhcp_packet_size = 20 + 8 + dhcp_msg_size"

abbreviation IPVERSION :: u8 where "IPVERSION \<equiv> 4"
abbreviation IPDEFTTL :: u8 where "IPDEFTTL \<equiv> 64"
abbreviation IPPROTO_UDP :: u8 where "IPPROTO_UDP \<equiv> 17"
abbreviation PORT_BOOTP_SERVER :: u16 where "PORT_BOOTP_SERVER \<equiv> 67"
abbreviation PORT_BOOTP_CLIENT :: u16 where "PORT_BOOTP_CLIENT \<equiv> 68"

section \<open>send\_packet and receive\_packet\<close>

text \<open>What \<open>send_packet\<close> passes to \<open>sendmsg\<close>: the link-layer destination and the three
  gathered buffers.\<close>

record frame =
  sll_ifindex :: int
  sll_addr :: bytes
  iov :: bytes

definition send_udpsum :: "iphdr \<Rightarrow> udphdr \<Rightarrow> bytes \<Rightarrow> u32" where
  "send_udpsum ip udp msg =
     (let udpsum = checksum (bytes32 (ip_saddr ip)) 0;
          udpsum = checksum (bytes32 (ip_daddr ip)) udpsum;
          udpsum = checksum (bytes16 (htons (ucast IPPROTO_UDP))) udpsum;
          udpsum = checksum (bytes16 (udp_len udp)) udpsum;
          udpsum = checksum (udphdr_bytes udp) udpsum
      in checksum msg udpsum)"

definition send_packet ::
    "int \<Rightarrow> bytes \<Rightarrow> nat \<Rightarrow> u32 \<Rightarrow> u32 \<Rightarrow> u32 \<Rightarrow> u32 \<Rightarrow> frame" where
  "send_packet if_index msg sz saddr daddr sport dport =
     (let ip = \<lparr>ip_version = IPVERSION, ip_ihl = 20 div 4, ip_tos = 0,
                ip_tot_len = htons (of_nat (20 + 8 + sz)), ip_id = 0, ip_frag_off = 0,
                ip_ttl = IPDEFTTL, ip_protocol = IPPROTO_UDP, ip_check = 0,
                ip_saddr = saddr, ip_daddr = daddr\<rparr>;
          ip = ip\<lparr>ip_check := ucast (finish_sum (checksum (iphdr_bytes ip) 0))\<rparr>;
          udp = \<lparr>udp_source = htons (ucast sport), udp_dest = htons (ucast dport),
                 udp_len = htons (of_nat (8 + sz)), udp_check = 0\<rparr>;
          udpsum = send_udpsum ip udp (take sz msg);
          udp = udp\<lparr>udp_check := ucast (finish_sum udpsum)\<rparr>
      in \<lparr>sll_ifindex = if_index, sll_addr = replicate 6 0xFF,
          iov = iphdr_bytes ip @ udphdr_bytes udp @ take sz msg\<rparr>)"

text \<open>
  The outcomes of \<open>receive_packet\<close>: the value \<open>-1\<close>; the returned size with the bytes
  copied over the start of the caller's message; or a \<open>memcpy\<close> whose size does not fit
  \<open>struct dhcp_msg\<close> (the size is an \<open>int\<close> and may be negative), which is undefined behaviour.
\<close>

datatype recv_result = RecvErr | RecvMsg nat bytes | RecvOverrun int

text \<open>The filter in front of the checksums: is the buffer a UDP datagram for the client port?\<close>

definition recv_is_valid :: "bytes \<Rightarrow> nat \<Rightarrow> bool" where
  "recv_is_valid packet nread =
     (if nread < 20 + 8 then False
      else if ip_version (iphdr_load packet) \<noteq> IPVERSION \<or> ip_ihl (iphdr_load packet) \<noteq> 20 div 4 then False
      else if nread < unat (ntohs (ip_tot_len (iphdr_load packet))) then False
      else if ip_protocol (iphdr_load packet) \<noteq> IPPROTO_UDP then False
      else if udp_dest (udphdr_load packet 20) \<noteq> htons PORT_BOOTP_CLIENT then False
      else True)"

text \<open>The UDP checksum over the borrowed IP header: the caller's \<open>packet\<close> with the pseudo
  header in place of the IP header and a zero \<open>udp.check\<close>.\<close>

definition recv_pseudo :: "bytes \<Rightarrow> bytes" where
  "recv_pseudo packet =
     (let ip = iphdr_load packet; udp = udphdr_load packet 20
      in iphdr_bytes (zero_iphdr\<lparr>ip_saddr := ip_saddr ip, ip_daddr := ip_daddr ip,
                        ip_protocol := IPPROTO_UDP, ip_tot_len := udp_len udp\<rparr>) @
         udphdr_bytes (udp\<lparr>udp_check := 0\<rparr>) @ drop 28 packet)"

definition recv_udp_sum :: "bytes \<Rightarrow> u32" where
  "recv_udp_sum packet =
     (let nread = unat (ntohs (ip_tot_len (iphdr_load packet)));
          sm = finish_sum (checksum (take nread (recv_pseudo packet)) 0)
      in if sm = 0 then finish_sum sm else sm)"

text \<open>
  \<open>receive_packet\<close> on the result of \<open>read\<close>: \<open>None\<close> for an error, otherwise the datagram,
  of which the kernel stores at most \<open>sizeof(packet)\<close> bytes. \<open>stack\<close> is what the local
  \<open>packet\<close> holds before the read.
\<close>

definition receive_packet :: "bytes \<Rightarrow> bytes option \<Rightarrow> recv_result" where
  "receive_packet stack rd =
     (case rd of
        None \<Rightarrow> RecvErr
      | Some datagram \<Rightarrow>
          let dat = take dhcp_packet_size datagram;
              nread = length dat;
              packet = splice stack 0 dat
          in if \<not> recv_is_valid packet nread then RecvErr
             else if finish_sum (checksum (take 20 packet) 0) \<noteq> 0 then RecvErr
             else
               let udp = udphdr_load packet 20;
                   dhcp_size = uint (ntohs (udp_len udp)) - 8
               in if ucast (udp_check udp) \<noteq> recv_udp_sum packet then RecvErr
                  else if dhcp_size < 0 \<or> int dhcp_msg_size < dhcp_size then RecvOverrun dhcp_size
                  else RecvMsg (nat dhcp_size) (take (nat dhcp_size) (drop 28 packet)))"

section \<open>The checksum as arithmetic modulo 65535\<close>

text \<open>The 16-bit words of a buffer, summed in \<^typ>\<open>nat\<close>, and the representative the folding loop
  picks: 0 only for a sum of 0, otherwise between 1 and 65535.\<close>

fun wsum :: "bytes \<Rightarrow> nat" where
  "wsum (b0 # b1 # up) = unat b0 + 256 * unat b1 + wsum up"
| "wsum [b] = unat b"
| "wsum [] = 0"

definition oc :: "nat \<Rightarrow> nat" where
  "oc n = (if n = 0 then 0 else (n - 1) mod 65535 + 1)"

lemma oc_0 [simp]: "oc 0 = 0"
  by (simp add: oc_def)

lemma oc_eq_0 [simp]: "oc n = 0 \<longleftrightarrow> n = 0"
  by (simp add: oc_def)

lemma oc_le [simp]: "oc n \<le> 65535"
proof -
  have "(n - 1) mod 65535 < 65535" by simp
  then show ?thesis unfolding oc_def by (simp only: split: if_split) linarith
qed

lemma oc_cong: "oc n mod 65535 = n mod 65535"
proof (cases n)
  case (Suc m)
  then have "oc n mod 65535 = (m mod 65535 + 1) mod 65535" by (simp add: oc_def)
  also have "\<dots> = (m + 1) mod 65535" by (rule mod_add_left_eq)
  finally show ?thesis using Suc by simp
qed simp

lemma oc_unique:
  assumes "a mod 65535 = b mod 65535" and "a \<noteq> 0" and "b \<noteq> 0"
  shows "oc a = oc b"
proof -
  obtain m where m: "a = Suc m" using assms(2) by (cases a) auto
  obtain n where n: "b = Suc n" using assms(3) by (cases b) auto
  have "(1 + m) mod 65535 = (1 + n) mod 65535" using assms(1) by (simp add: m n)
  then have "m mod 65535 = n mod 65535" by (simp only: nat_mod_eq_iff) auto
  then show ?thesis by (simp add: oc_def m n)
qed

lemma oc_oc_add [simp]: "oc (oc a + b) = oc (a + b)"
proof (cases "a + b = 0")
  case False
  have "(oc a + b) mod 65535 = (a + b) mod 65535"
    using mod_add_cong [OF oc_cong refl] .
  then show ?thesis using False by (intro oc_unique) auto
qed simp

lemma oc_idem: "n \<le> 65535 \<Longrightarrow> oc n = n"
  by (auto simp: oc_def)

lemma wsum_append: "even (length xs) \<Longrightarrow> wsum (xs @ ys) = wsum xs + wsum ys"
  by (induction xs rule: wsum.induct) auto

lemma wsum_bound: "wsum xs \<le> 65535 * ((length xs + 1) div 2)"
proof (induction xs rule: wsum.induct)
  case (1 b0 b1 up)
  have "unat b0 \<le> 255" "unat b1 \<le> 255"
    using unat_u8_less [of b0] unat_u8_less [of b1] by linarith+
  then show ?case using 1 by simp
next
  case (2 b)
  have "unat b \<le> 65535" using unat_u8_less [of b] by linarith
  then show ?case by simp
qed simp

lemma unat_checksum_sum:
  "unat s + wsum xs < 2 ^ 32 \<Longrightarrow> unat (checksum_sum xs s) = unat s + wsum xs"
proof (induction xs s rule: checksum_sum.induct)
  case (1 b0 b1 up s)
  have u: "unat (ucast (le16 b0 b1) :: u32) = unat b0 + 256 * unat b1"
    by (simp add: unat_le16 del: unat_u8_less)
  have "unat (s + ucast (le16 b0 b1)) = unat s + (unat b0 + 256 * unat b1)"
    using 1(2) by (subst unat_add_lem [THEN iffD1]) (simp_all add: unat_le16)
  then show ?case using 1 by simp
next
  case (2 b s)
  then show ?case by (simp add: unat_word_ariths)
qed simp

lemma unat_checksum_fold: "unat (checksum_fold s) = oc (unat s)"
proof (induction s rule: checksum_fold.induct)
  case (1 s)
  show ?case
  proof (cases "drop_bit 16 s = 0")
    case True
    then have "unat s div 65536 = 0" using unat_drop_bit_16 [of s] by simp
    then have "unat s \<le> 65535" by simp
    then show ?thesis using True by (simp add: checksum_fold.simps [of s] oc_idem)
  next
    case False
    have eq: "unat s = unat s mod 65536 + unat s div 65536 + unat s div 65536 * 65535"
      using div_mult_mod_eq [of "unat s" 65536] by linarith
    have "unat s mod 65535 = (unat s mod 65536 + unat s div 65536) mod 65535"
      by (subst eq) (rule mod_mult_self1)
    moreover
    have "unat s div 65536 \<noteq> 0" using False unat_drop_bit_16 [of s] by (metis unat_eq_zero)
    ultimately have "oc (unat s mod 65536 + unat s div 65536) = oc (unat s)"
      by (intro oc_unique) auto
    then show ?thesis using False 1 by (simp add: checksum_fold.simps [of s] unat_fold_step)
  qed
qed

lemma unat_checksum:
  "unat s + wsum xs < 2 ^ 32 \<Longrightarrow> unat (checksum xs s) = oc (unat s + wsum xs)"
  by (simp add: checksum_def unat_checksum_fold unat_checksum_sum)

lemma unat_checksum_small:
  assumes "length xs \<le> 65536" and "unat s \<le> 65535"
  shows "unat (checksum xs s) = oc (unat s + wsum xs)"
proof (rule unat_checksum)
  have "(length xs + 1) div 2 \<le> 32768" using assms(1) by simp
  then have "65535 * ((length xs + 1) div 2) \<le> 65535 * 32768" by (rule mult_le_mono2)
  then have "wsum xs \<le> 65535 * 32768" using wsum_bound [of xs] by linarith
  then show "unat s + wsum xs < 2 ^ 32" using assms(2) by simp
qed

lemma unat_finish_sum:
  assumes "unat s \<le> 65535"
  shows "unat (finish_sum s) = 65535 - unat s"
proof -
  have "NOT s = - 1 - s" by (simp add: not_eq_complement)
  then have "unat (NOT s) = unat (- 1 :: u32) - unat s" by (simp add: unat_sub)
  also have "unat (- 1 :: u32) = 4294967295" by (simp add: unsigned_minus_1_eq_mask mask_eq_exp_minus_1)
  finally have n: "unat (NOT s) = 65535 - unat s + 65535 * 65536" using assms by simp
  have "finish_sum s = take_bit 16 (NOT s)"
    by (simp add: finish_sum_def take_bit_eq_mask mask_eq_exp_minus_1)
  then have "unat (finish_sum s) = unat (NOT s) mod 65536"
    by (simp only: unsigned_take_bit_eq) (simp add: take_bit_eq_mod)
  also have "\<dots> = (65535 - unat s) mod 65536" unfolding n by (rule mod_mult_self1)
  finally show ?thesis by simp
qed

lemma oc_decomp: "\<exists>k. n = oc n + 65535 * k"
proof (cases n)
  case (Suc m)
  have "m = m mod 65535 + 65535 * (m div 65535)" by simp
  then show ?thesis using Suc by (intro exI [of _ "m div 65535"]) (simp add: oc_def)
qed simp

lemma oc_complement: "n \<noteq> 0 \<Longrightarrow> oc (n + (65535 - oc n)) = 65535"
proof -
  assume n: "n \<noteq> 0"
  have *: "n = r + 65535 * k \<Longrightarrow> r \<le> 65535 \<Longrightarrow> n + (65535 - r) = 65535 * (k + 1)" for r k
    by simp
  obtain k where "n = oc n + 65535 * k" using oc_decomp by blast
  then have "n + (65535 - oc n) = 65535 * (k + 1)" using * oc_le by blast
  then have "(n + (65535 - oc n)) mod 65535 = 65535 mod 65535" by simp
  moreover have "n + (65535 - oc n) \<noteq> 0" using n by (simp only: add_is_0 simp_thms)
  ultimately have "oc (n + (65535 - oc n)) = oc 65535" by (intro oc_unique) simp_all
  then show ?thesis by (simp add: oc_def)
qed

lemma finish_sum_eq_0: "unat s \<le> 65535 \<Longrightarrow> finish_sum s = 0 \<longleftrightarrow> unat s = 65535"
  using unat_finish_sum [of s] unat_eq_zero [of "finish_sum s"] by auto

section \<open>Loads of the headers\<close>

lemma length_iphdr_bytes [simp]: "length (iphdr_bytes ip) = 20"
  by (simp add: iphdr_bytes_def)

lemma length_udphdr_bytes [simp]: "length (udphdr_bytes udp) = 8"
  by (simp add: udphdr_bytes_def)

lemma nibble_bit_bound: "unat (v :: u8) < 16 \<Longrightarrow> bit v n \<Longrightarrow> n < 4"
proof -
  assume v: "unat v < 16" and b: "bit v n"
  have "take_bit 4 v = v"
    using v by (intro word_unat_eq_iff [THEN iffD2]) (simp add: unsigned_take_bit_eq take_bit_nat_eq_self)
  then show "n < 4" using b bit_take_bit_iff [of 4 v n] by simp
qed

lemma nibbles_load:
  fixes v l :: u8
  assumes "unat v < 16" and "unat l < 16"
  shows "drop_bit 4 (push_bit 4 v) OR drop_bit 4 l = v" and "(push_bit 4 v OR l) AND 0xF = l"
proof -
  note bd = nibble_bit_bound [OF assms(1)] nibble_bit_bound [OF assms(2)]
  show "drop_bit 4 (push_bit 4 v) OR drop_bit 4 l = v"
    by (rule bit_word_eqI) (auto simp: bit_simps dest: bd)
  have "(push_bit 4 v OR l) AND mask 4 = l"
    by (rule bit_word_eqI) (auto simp: bit_simps dest: bd)
  then show "(push_bit 4 v OR l) AND 0xF = l"
    by (simp add: mask_eq_exp_minus_1)
qed

lemma iphdr_load_bytes:
  "unat (ip_version ip) < 16 \<Longrightarrow> unat (ip_ihl ip) < 16 \<Longrightarrow> iphdr_load (iphdr_bytes ip @ m) = ip"
  by (simp add: iphdr_load_def iphdr_bytes_def load16_def load32_def bytes16_def bytes32_def
      byte_simps nibbles_load)

lemma udphdr_load_bytes: "length h = i \<Longrightarrow> udphdr_load (h @ udphdr_bytes udp @ m) i = udp"
  by (simp add: udphdr_load_def udphdr_bytes_def load16_def bytes16_def byte_simps nth_append)

lemma wsum_bytes16: "wsum (bytes16 w) = unat w"
proof -
  have "unat (le16 (ucast w) (ucast (drop_bit 8 w))) = unat w" by (simp only: le16_of_word)
  then show ?thesis by (simp add: bytes16_def unat_le16)
qed

lemma wsum_iphdr_check:
  "wsum (iphdr_bytes (ip\<lparr>ip_check := c\<rparr>)) = wsum (iphdr_bytes (ip\<lparr>ip_check := 0\<rparr>)) + unat c"
  by (simp add: iphdr_bytes_def wsum_bytes16 wsum_append)

lemma wsum_udphdr_check:
  "wsum (udphdr_bytes (udp\<lparr>udp_check := c\<rparr>)) = wsum (udphdr_bytes (udp\<lparr>udp_check := 0\<rparr>)) + unat c"
  by (simp add: udphdr_bytes_def wsum_bytes16 wsum_append)

section \<open>What the sender computes and the receiver checks\<close>

lemma unat_checksum_0: "length xs \<le> 65536 \<Longrightarrow> unat (checksum xs 0) = oc (wsum xs)"
  using unat_checksum_small [of xs 0] by simp

text \<open>A header whose check field holds the complement of its own sum verifies.\<close>

lemma ip_check_verifies:
  assumes "wsum (iphdr_bytes (ip\<lparr>ip_check := 0\<rparr>)) \<noteq> 0"
  shows "finish_sum (checksum (iphdr_bytes
           (ip\<lparr>ip_check := ucast (finish_sum (checksum (iphdr_bytes (ip\<lparr>ip_check := 0\<rparr>)) 0))\<rparr>)) 0) = 0"
proof -
  let ?n = "wsum (iphdr_bytes (ip\<lparr>ip_check := 0\<rparr>))"
  let ?c = "finish_sum (checksum (iphdr_bytes (ip\<lparr>ip_check := 0\<rparr>)) 0)"
  have "unat (checksum (iphdr_bytes (ip\<lparr>ip_check := 0\<rparr>)) 0) = oc ?n"
    by (rule unat_checksum_0) simp
  then have c: "unat ?c = 65535 - oc ?n" by (simp add: unat_finish_sum)
  then have "unat (ucast ?c :: u16) = 65535 - oc ?n" by (subst unat_ucast_32_16) simp_all
  then have "unat (checksum (iphdr_bytes (ip\<lparr>ip_check := ucast ?c\<rparr>)) 0) = oc (?n + (65535 - oc ?n))"
    by (subst unat_checksum_0) (simp_all add: wsum_iphdr_check [where ip = ip and c = "ucast ?c"])
  then show ?thesis using oc_complement [OF assms] by (simp add: finish_sum_eq_0)
qed

definition udp_words :: "u32 \<Rightarrow> u32 \<Rightarrow> udphdr \<Rightarrow> bytes \<Rightarrow> nat" where
  "udp_words saddr daddr udp msg =
     wsum (bytes32 saddr) + wsum (bytes32 daddr) + unat (htons (17 :: u16)) + unat (udp_len udp) +
     wsum (udphdr_bytes (udp\<lparr>udp_check := 0\<rparr>)) + wsum msg"

lemma unat_send_udpsum:
  assumes "udp_check udp = 0" and "length msg \<le> 65536"
  shows "unat (send_udpsum ip udp msg) = oc (udp_words (ip_saddr ip) (ip_daddr ip) udp msg)"
proof -
  have "udp\<lparr>udp_check := 0\<rparr> = udp" using assms(1) by simp
  then show ?thesis
    using assms(2)
    by (simp add: send_udpsum_def Let_def unat_checksum_small udp_words_def wsum_bytes16 add.assoc)
qed

definition pseudo_iphdr :: "bytes \<Rightarrow> iphdr" where
  "pseudo_iphdr packet = zero_iphdr\<lparr>ip_saddr := load32 packet 12, ip_daddr := load32 packet 16,
     ip_protocol := IPPROTO_UDP, ip_tot_len := load16 packet 24\<rparr>"

lemma take_pseudo:
  assumes "28 \<le> n"
  shows "take n (recv_pseudo packet) = iphdr_bytes (pseudo_iphdr packet) @
    udphdr_bytes (udphdr_load packet 20\<lparr>udp_check := 0\<rparr>) @ take (n - 28) (drop 28 packet)"
  using assms
  by (simp add: recv_pseudo_def Let_def pseudo_iphdr_def iphdr_load_def udphdr_load_def)

lemma unat_htons_17: "unat (htons (17 :: u16)) = 4352"
  by (simp add: htons_def le16_def)

lemma wsum_pseudo_iphdr:
  "wsum (iphdr_bytes (pseudo_iphdr packet)) =
     wsum (bytes32 (load32 packet 12)) + wsum (bytes32 (load32 packet 16)) +
     unat (htons (17 :: u16)) + unat (load16 packet 24)"
  by (simp add: pseudo_iphdr_def iphdr_bytes_def zero_iphdr_def wsum_append wsum_bytes16 unat_htons_17)

lemma wsum_pseudo:
  assumes "28 \<le> n"
  shows "wsum (take n (recv_pseudo packet)) =
    udp_words (load32 packet 12) (load32 packet 16) (udphdr_load packet 20) (take (n - 28) (drop 28 packet))"
  unfolding take_pseudo [OF assms] udp_words_def
  by (simp add: wsum_append wsum_pseudo_iphdr) (simp add: udphdr_load_def)

section \<open>Round trip\<close>

text \<open>The two headers \<open>send_packet\<close> builds, with the checks filled in.\<close>

definition sent_ip0 :: "nat \<Rightarrow> u32 \<Rightarrow> u32 \<Rightarrow> iphdr" where
  "sent_ip0 sz saddr daddr = \<lparr>ip_version = IPVERSION, ip_ihl = 20 div 4, ip_tos = 0,
     ip_tot_len = htons (of_nat (20 + 8 + sz)), ip_id = 0, ip_frag_off = 0,
     ip_ttl = IPDEFTTL, ip_protocol = IPPROTO_UDP, ip_check = 0,
     ip_saddr = saddr, ip_daddr = daddr\<rparr>"

definition sent_ip :: "nat \<Rightarrow> u32 \<Rightarrow> u32 \<Rightarrow> iphdr" where
  "sent_ip sz saddr daddr = (sent_ip0 sz saddr daddr)
     \<lparr>ip_check := ucast (finish_sum (checksum (iphdr_bytes (sent_ip0 sz saddr daddr)) 0))\<rparr>"

definition sent_udp0 :: "nat \<Rightarrow> u32 \<Rightarrow> u32 \<Rightarrow> udphdr" where
  "sent_udp0 sz sport dport = \<lparr>udp_source = htons (ucast sport), udp_dest = htons (ucast dport),
     udp_len = htons (of_nat (8 + sz)), udp_check = 0\<rparr>"

definition sent_udp :: "bytes \<Rightarrow> nat \<Rightarrow> u32 \<Rightarrow> u32 \<Rightarrow> u32 \<Rightarrow> u32 \<Rightarrow> udphdr" where
  "sent_udp msg sz saddr daddr sport dport = (sent_udp0 sz sport dport)
     \<lparr>udp_check := ucast (finish_sum (send_udpsum (sent_ip sz saddr daddr)
        (sent_udp0 sz sport dport) (take sz msg)))\<rparr>"

lemma send_packet_iov:
  "iov (send_packet if_index msg sz saddr daddr sport dport) =
     iphdr_bytes (sent_ip sz saddr daddr) @
     udphdr_bytes (sent_udp msg sz saddr daddr sport dport) @ take sz msg"
  by (simp add: send_packet_def sent_ip_def sent_ip0_def sent_udp_def sent_udp0_def Let_def)

lemma sent_ip_verifies: "finish_sum (checksum (iphdr_bytes (sent_ip sz saddr daddr)) 0) = 0"
proof -
  have z: "(sent_ip0 sz saddr daddr)\<lparr>ip_check := 0\<rparr> = sent_ip0 sz saddr daddr"
    by (simp add: sent_ip0_def)
  have "wsum (iphdr_bytes (sent_ip0 sz saddr daddr)) \<noteq> 0"
    by (simp add: sent_ip0_def iphdr_bytes_def wsum_append)
  then show ?thesis
    using ip_check_verifies [of "sent_ip0 sz saddr daddr"] unfolding z sent_ip_def by simp
qed

lemma unat_sent_udp_check:
  assumes "sz \<le> 65536"
  shows "unat (udp_check (sent_udp msg sz saddr daddr sport dport)) =
    65535 - oc (udp_words saddr daddr (sent_udp0 sz sport dport) (take sz msg))"
proof -
  have "unat (send_udpsum (sent_ip sz saddr daddr) (sent_udp0 sz sport dport) (take sz msg)) =
      oc (udp_words saddr daddr (sent_udp0 sz sport dport) (take sz msg))"
    using assms by (subst unat_send_udpsum) (auto simp: sent_udp0_def sent_ip_def sent_ip0_def)
  then show ?thesis
    by (simp add: sent_udp_def) (subst unat_ucast_32_16; simp add: unat_finish_sum)
qed

lemma udp_words_check: "udp_words sa da (udp\<lparr>udp_check := c\<rparr>) msg = udp_words sa da udp msg"
  by (simp add: udp_words_def)

lemma udp_words_nonzero: "udp_words sa da udp msg \<noteq> 0"
  by (simp add: udp_words_def unat_htons_17)

lemma unat_recv_udp_sum:
  assumes "28 \<le> unat (ntohs (load16 packet 2))"
  shows "unat (recv_udp_sum packet) =
    (let w = oc (udp_words (load32 packet 12) (load32 packet 16) (udphdr_load packet 20)
                   (take (unat (ntohs (load16 packet 2)) - 28) (drop 28 packet)))
     in if w = 65535 then 65535 else 65535 - w)"
proof -
  let ?n = "unat (ntohs (load16 packet 2))"
  let ?w = "oc (udp_words (load32 packet 12) (load32 packet 16) (udphdr_load packet 20)
                   (take (?n - 28) (drop 28 packet)))"
  let ?s = "checksum (take ?n (recv_pseudo packet)) 0"
  have "length (take ?n (recv_pseudo packet)) \<le> 65536"
    using unsigned_less [of "ntohs (load16 packet 2)", where 'a = nat] by simp
  then have "unat ?s = ?w" using assms by (simp add: unat_checksum_0 wsum_pseudo)
  moreover have "recv_udp_sum packet = (if finish_sum ?s = 0 then finish_sum 0 else finish_sum ?s)"
    by (simp add: recv_udp_sum_def Let_def iphdr_load_def)
  ultimately show ?thesis
    by (simp add: Let_def finish_sum_eq_0 unat_finish_sum)
qed

lemma unat_htons_of_nat: "n < 65536 \<Longrightarrow> unat (ntohs (htons (of_nat n))) = n"
  by (simp add: unat_of_nat)

text \<open>The buffer of \<open>receive_packet\<close> after reading a datagram of \<open>send_packet\<close>.\<close>

definition sent_buffer :: "bytes \<Rightarrow> nat \<Rightarrow> u32 \<Rightarrow> u32 \<Rightarrow> u32 \<Rightarrow> u32 \<Rightarrow> bytes \<Rightarrow> bytes" where
  "sent_buffer msg sz saddr daddr sport dport rest =
     iphdr_bytes (sent_ip sz saddr daddr) @ udphdr_bytes (sent_udp msg sz saddr daddr sport dport) @
     take sz msg @ rest"

lemma sent_ip_load: "iphdr_load (sent_buffer msg sz saddr daddr sport dport rest) = sent_ip sz saddr daddr"
  unfolding sent_buffer_def by (rule iphdr_load_bytes) (simp_all add: sent_ip_def sent_ip0_def)

lemma sent_udp_load:
  "udphdr_load (sent_buffer msg sz saddr daddr sport dport rest) 20 = sent_udp msg sz saddr daddr sport dport"
  unfolding sent_buffer_def by (rule udphdr_load_bytes) simp

lemma sent_tot_len: "sz \<le> 1260 \<Longrightarrow> unat (ntohs (ip_tot_len (sent_ip sz saddr daddr))) = 28 + sz"
  using unat_htons_of_nat [of "28 + sz"] by (simp add: sent_ip_def sent_ip0_def)

lemma sent_udp_len:
  "sz \<le> 1260 \<Longrightarrow> uint (ntohs (udp_len (sent_udp msg sz saddr daddr sport dport))) = 8 + int sz"
  using unat_htons_of_nat [of "8 + sz"] by (simp add: sent_udp_def sent_udp0_def uint_nat)

lemma sent_valid:
  assumes "sz \<le> 1260" and "ucast dport = PORT_BOOTP_CLIENT"
  shows "recv_is_valid (sent_buffer msg sz saddr daddr sport dport rest) (28 + sz)"
proof -
  have "ip_version (sent_ip sz saddr daddr) = IPVERSION" "ip_ihl (sent_ip sz saddr daddr) = 5"
    "ip_protocol (sent_ip sz saddr daddr) = IPPROTO_UDP"
    "udp_dest (sent_udp msg sz saddr daddr sport dport) = htons PORT_BOOTP_CLIENT"
    using assms(2) by (simp_all add: sent_ip_def sent_ip0_def sent_udp_def sent_udp0_def)
  then show ?thesis
    by (simp add: recv_is_valid_def sent_ip_load sent_udp_load sent_tot_len [OF assms(1)])
qed

text \<open>The receiver accepts the checksum the sender computed exactly when it is not zero.\<close>

lemma sent_udp_sum:
  fixes saddr daddr sport dport :: u32 and rest :: bytes
  assumes "sz \<le> 1260" and "sz \<le> length msg"
  defines "P \<equiv> sent_buffer msg sz saddr daddr sport dport rest"
    and "udp \<equiv> sent_udp msg sz saddr daddr sport dport"
  shows "ucast (udp_check udp) = recv_udp_sum P \<longleftrightarrow> udp_check udp \<noteq> 0"
proof -
  define w where "w = oc (udp_words saddr daddr (sent_udp0 sz sport dport) (take sz msg))"
  have ip: "load32 P 12 = saddr" "load32 P 16 = daddr" "unat (ntohs (load16 P 2)) = 28 + sz"
    using arg_cong [OF sent_ip_load, of ip_saddr] arg_cong [OF sent_ip_load, of ip_daddr]
      arg_cong [OF sent_ip_load, of ip_tot_len] sent_tot_len [OF assms(1), of saddr daddr]
    by (simp_all add: P_def iphdr_load_def) (simp_all add: sent_ip_def sent_ip0_def)
  have "take sz (drop 28 P) = take sz msg" using assms(2) by (simp add: P_def sent_buffer_def)
  moreover have "udphdr_load P 20 = udp" by (simp add: P_def udp_def sent_udp_load)
  ultimately have "unat (recv_udp_sum P) = (if w = 65535 then 65535 else 65535 - w)"
    using ip by (subst unat_recv_udp_sum)
      (simp_all add: Let_def w_def udp_def sent_udp_def udp_words_check)
  moreover have "unat (udp_check udp) = 65535 - w"
    using assms(1) unat_sent_udp_check [of sz] by (simp add: udp_def w_def)
  moreover have "w \<noteq> 0" "w \<le> 65535" by (simp_all add: w_def udp_words_nonzero)
  moreover have "ucast (udp_check udp) = recv_udp_sum P \<longleftrightarrow> unat (udp_check udp) = unat (recv_udp_sum P)"
    by (metis unat_ucast_16_32 word_unat_eq_iff)
  ultimately show ?thesis using unat_eq_zero [of "udp_check udp"] by auto
qed

text \<open>
  C19. Round trip through the raw socket. A datagram that \<open>send_packet\<close> builds for the client
  port is accepted by \<open>receive_packet\<close>, which returns exactly the message that was sent,
  unless the UDP checksum came out as zero: \<open>send_packet\<close> then transmits the zero, which
  \<open>receive_packet\<close> (expecting \<open>0xFFFF\<close>) rejects.
\<close>

theorem receive_send_packet:
  assumes "length stack = dhcp_packet_size" and "sz \<le> dhcp_msg_size" and "sz \<le> length msg"
    and "ucast dport = PORT_BOOTP_CLIENT"
  shows "receive_packet stack (Some (iov (send_packet if_index msg sz saddr daddr sport dport))) =
    (if udp_check (udphdr_load (iov (send_packet if_index msg sz saddr daddr sport dport)) 20) = 0
     then RecvErr else RecvMsg sz (take sz msg))"
proof -
  let ?dat = "iov (send_packet if_index msg sz saddr daddr sport dport)"
  let ?udp = "sent_udp msg sz saddr daddr sport dport"
  define P where "P = sent_buffer msg sz saddr daddr sport dport (drop (28 + sz) stack)"
  have sz: "sz \<le> 1260" using assms(2) by (simp add: dhcp_msg_size_def)
  have len: "length ?dat = 28 + sz" using assms(3) by (simp add: send_packet_iov)
  have dat: "take dhcp_packet_size ?dat = ?dat"
    using sz by (simp add: len dhcp_packet_size_def dhcp_msg_size_def)
  have P: "splice stack 0 ?dat = P"
    using assms(3) by (simp add: splice_def P_def sent_buffer_def send_packet_iov)
  have udp: "udphdr_load ?dat 20 = ?udp"
    using sent_udp_load [of _ _ _ _ _ _ "[]"] by (simp add: send_packet_iov sent_buffer_def)
  have parts: "take 20 P = iphdr_bytes (sent_ip sz saddr daddr)" "take sz (drop 28 P) = take sz msg"
    using assms(3) by (simp_all add: P_def sent_buffer_def)
  have load: "udphdr_load P 20 = ?udp" by (simp add: P_def sent_udp_load)
  have valid: "recv_is_valid P (28 + sz)"
    unfolding P_def by (rule sent_valid [OF sz assms(4)])
  have sm: "ucast (udp_check ?udp) = recv_udp_sum P \<longleftrightarrow> udp_check ?udp \<noteq> 0"
    unfolding P_def by (rule sent_udp_sum [OF sz assms(3)])
  show ?thesis
    using sz by (simp add: receive_packet_def dat P udp len parts sent_ip_verifies sent_udp_len [OF sz]
        Let_def dhcp_msg_size_def load valid sm)
qed

section \<open>Corrupted bytes\<close>

text \<open>Changing one byte moves the sum by a non-zero amount smaller than 65535.\<close>

definition byte_delta :: "nat \<Rightarrow> u8 \<Rightarrow> u8 \<Rightarrow> int" where
  "byte_delta i old new = (uint new - uint old) * (if even i then 1 else 256)"

lemma wsum_update:
  "i < length xs \<Longrightarrow> int (wsum (xs[i := v])) = int (wsum xs) + byte_delta i (xs ! i) v"
proof (induction xs arbitrary: i rule: wsum.induct)
  case (1 b0 b1 up)
  consider "i = 0" | "i = 1" | j where "i = Suc (Suc j)" by (metis One_nat_def not0_implies_Suc)
  then show ?case
  proof cases
    case 3
    then show ?thesis using 1 by (simp add: byte_delta_def)
  qed (simp_all add: byte_delta_def algebra_simps)
next
  case (2 b)
  then show ?case by (simp add: byte_delta_def)
qed simp

lemma byte_delta_not_multiple:
  assumes "new \<noteq> old" and "c = 1 \<or> c = 2"
  shows "\<not> 65535 dvd c * byte_delta i old new"
proof
  let ?x = "byte_delta i old new"
  assume c: "65535 dvd c * ?x"
  have dvd: "65535 dvd ?x"
  proof (cases "c = 1")
    case False
    then have "65535 dvd 2 * ?x" using c assms(2) by simp
    then have "65535 dvd 32768 * (2 * ?x) - 65535 * ?x"
      by (rule dvd_diff [OF dvd_mult dvd_triv_left])
    then show ?thesis by simp
  qed (use c in simp)
  have b: "uint new < 256" "uint old < 256" "0 \<le> uint new" "0 \<le> uint old"
    using unsigned_less [of new, where 'a = int] unsigned_less [of old, where 'a = int] by simp_all
  have "\<bar>uint new - uint old\<bar> \<le> 255" using b by linarith
  then have small: "\<bar>?x\<bar> < 65535" by (simp add: byte_delta_def abs_mult)
  have "?x \<noteq> 0" using assms(1) by (auto simp: byte_delta_def dest: unsigned_word_eqI)
  from dvd_imp_le_int [OF this dvd] show False using small by simp
qed

lemma oc_neq:
  assumes "int b = int a + x" and "\<not> 65535 dvd x"
  shows "oc b \<noteq> oc a"
proof
  assume "oc b = oc a"
  then have "b mod 65535 = a mod 65535" by (metis oc_cong)
  then have "int b mod 65535 = int a mod 65535" by (metis of_nat_mod of_nat_numeral)
  then have "65535 dvd int b - int a" by (simp add: mod_eq_dvd_iff)
  then show False using assms by simp
qed

text \<open>The buffer and the acceptance test of \<open>receive_packet\<close>.\<close>

definition recv_buffer :: "bytes \<Rightarrow> bytes \<Rightarrow> bytes" where
  "recv_buffer stack datagram = splice stack 0 (take dhcp_packet_size datagram)"

definition recv_accepts :: "bytes \<Rightarrow> nat \<Rightarrow> bool" where
  "recv_accepts P n \<longleftrightarrow> recv_is_valid P n \<and> finish_sum (checksum (take 20 P) 0) = 0 \<and>
     ucast (udp_check (udphdr_load P 20)) = recv_udp_sum P"

lemma receive_packet_err:
  "receive_packet stack (Some d) = RecvErr \<longleftrightarrow>
     \<not> recv_accepts (recv_buffer stack d) (min dhcp_packet_size (length d))"
  by (auto simp: receive_packet_def recv_accepts_def recv_buffer_def Let_def min.commute)

lemma recv_ip_sum: "finish_sum (checksum (take 20 P) 0) = 0 \<longleftrightarrow> oc (wsum (take 20 P)) = 65535"
  by (simp add: finish_sum_eq_0 unat_checksum_0)

lemma recv_sum_inj:
  assumes "(if a = 65535 then 65535 else 65535 - a) = (if b = 65535 then 65535 else 65535 - b)"
    and "a \<noteq> 0" "b \<noteq> 0" "a \<le> 65535" "b \<le> (65535 :: nat)"
  shows "a = b"
  using assms by (auto split: if_splits)

lemma udp_words_load:
  "udp_words sa da (udphdr_load P 20) m =
     wsum (bytes32 sa) + wsum (bytes32 da) + 4352 + 2 * unat (load16 P 24) + unat (load16 P 20) +
     unat (load16 P 22) + wsum m"
  by (simp add: udp_words_def unat_htons_17 udphdr_load_def udphdr_bytes_def wsum_append wsum_bytes16)

text \<open>If two buffers carry the same total length and UDP check but different word sums, at most one
  of them passes the UDP validation.\<close>

definition recv_words :: "bytes \<Rightarrow> nat" where
  "recv_words P = udp_words (load32 P 12) (load32 P 16) (udphdr_load P 20)
     (take (unat (ntohs (load16 P 2)) - 28) (drop 28 P))"

lemma unat_recv_words:
  assumes "28 \<le> unat (ntohs (load16 P 2))"
  shows "unat (recv_udp_sum P) =
    (if oc (recv_words P) = 65535 then 65535 else 65535 - oc (recv_words P))"
  using unat_recv_udp_sum [OF assms] by (simp only: recv_words_def Let_def)

lemma recv_udp_sum_differs:
  assumes "28 \<le> unat (ntohs (load16 P 2))" and "load16 Q 2 = load16 P 2"
    and "int (recv_words Q) = int (recv_words P) + x" and "\<not> 65535 dvd x"
  shows "recv_udp_sum Q \<noteq> recv_udp_sum P"
proof
  assume "recv_udp_sum Q = recv_udp_sum P"
  then have eq: "(if oc (recv_words Q) = 65535 then 65535 else 65535 - oc (recv_words Q)) =
      (if oc (recv_words P) = 65535 then 65535 else 65535 - oc (recv_words P))"
    using assms(1,2) by (simp only: unat_recv_words [of P, symmetric] unat_recv_words [of Q, symmetric])
  have nz: "oc (recv_words R) \<noteq> 0" for R by (simp add: recv_words_def udp_words_nonzero)
  from recv_sum_inj [OF eq nz nz oc_le oc_le] show False using oc_neq [OF assms(3,4)] by simp
qed

lemma recv_udp_sum_cong:
  assumes "28 \<le> unat (ntohs (load16 P 2))" and "load16 Q 2 = load16 P 2"
    and "recv_words Q = recv_words P"
  shows "recv_udp_sum Q = recv_udp_sum P"
proof (rule word_unat_eq_iff [THEN iffD2])
  show "unat (recv_udp_sum Q) = unat (recv_udp_sum P)"
    using assms by (simp add: unat_recv_words)
qed

lemma le16_eq_iff: "le16 a b = le16 c d \<longleftrightarrow> a = c \<and> b = d"
  by (metis bytes16_le16)

lemma load_update_other:
  "i < j \<or> j + 1 < i \<Longrightarrow> load16 (P[i := v]) j = load16 P j"
  "i < j \<or> j + 3 < i \<Longrightarrow> load32 (P[i := v]) j = load32 P j"
  by (auto simp: load16_def load32_def)

lemma unat_load16_update:
  assumes "i = j \<or> i = j + 1" and "even j" and "i < length P"
  shows "int (unat (load16 (P[i := v]) j)) = int (unat (load16 P j)) + byte_delta i (P ! i) v"
  using assms by (auto simp: load16_def unat_le16 byte_delta_def)

lemma recv_words_update:
  assumes "20 \<le> i" and "i < unat (ntohs (load16 P 2))" and "i < length P" and "i \<noteq> 22" "i \<noteq> 23"
    and "28 \<le> unat (ntohs (load16 P 2))"
  shows "int (recv_words (P[i := v])) = int (recv_words P) +
    (if i = 26 \<or> i = 27 then 0 else if i = 24 \<or> i = 25 then 2 else 1) * byte_delta i (P ! i) v"
proof -
  let ?n = "unat (ntohs (load16 P 2))"
  have fixed: "load16 (P[i := v]) 2 = load16 P 2" "load32 (P[i := v]) 12 = load32 P 12"
    "load32 (P[i := v]) 16 = load32 P 16" "load16 (P[i := v]) 22 = load16 P 22"
    using assms by (auto intro!: load_update_other)
  have data: "int (wsum (take (?n - 28) (drop 28 (P[i := v])))) =
      int (wsum (take (?n - 28) (drop 28 P))) + (if i < 28 then 0 else byte_delta i (P ! i) v)"
  proof (cases "i < 28")
    case False
    then have "take (?n - 28) (drop 28 (P[i := v])) = (take (?n - 28) (drop 28 P))[i - 28 := v]"
      by (simp add: drop_update_swap take_update_swap)
    moreover have "byte_delta (i - 28) (P ! i) v = byte_delta i (P ! i) v"
      using False by (simp add: byte_delta_def)
    moreover have "i - 28 < length (take (?n - 28) (drop 28 P))" using False assms by auto
    ultimately show ?thesis
      using False assms wsum_update [of "i - 28" "take (?n - 28) (drop 28 P)" v] by simp
  qed (simp add: drop_update_cancel)
  have s: "int (unat (load16 (P[i := v]) j)) =
      int (unat (load16 P j)) + (if i = j \<or> i = j + 1 then byte_delta i (P ! i) v else 0)"
    if "even j" for j
  proof (cases "i = j \<or> i = j + 1")
    case True
    then show ?thesis using that assms(3) unat_load16_update [of i j P v] by simp
  next
    case False
    then have "i < j \<or> j + 1 < i" by linarith
    then show ?thesis using False load_update_other(1) [of i j P v] by simp
  qed
  have s20: "int (unat (load16 (P[i := v]) 20)) =
      int (unat (load16 P 20)) + (if i = 20 \<or> i = 21 then byte_delta i (P ! i) v else 0)"
    using s [of 20] by simp
  have s24: "int (unat (load16 (P[i := v]) 24)) =
      int (unat (load16 P 24)) + (if i = 24 \<or> i = 25 then byte_delta i (P ! i) v else 0)"
    using s [of 24] by simp
  show ?thesis
    unfolding recv_words_def udp_words_load fixed of_nat_add of_nat_mult of_nat_numeral data s20 s24
    using assms by (auto simp: algebra_simps)
qed

text \<open>No accepted buffer stays accepted when one byte of its IP datagram changes.\<close>

lemma corrupt_not_accepted:
  assumes acc: "recv_accepts P n" and i: "i < unat (ntohs (load16 P 2))" "i < length P"
    and n: "28 \<le> unat (ntohs (load16 P 2))" and v: "v \<noteq> P ! i"
  shows "\<not> recv_accepts (P[i := v]) n"
proof -
  let ?Q = "P[i := v]"
  have d: "\<not> 65535 dvd byte_delta i (P ! i) v" "\<not> 65535 dvd 2 * byte_delta i (P ! i) v"
    using byte_delta_not_multiple [OF v, of 1 i] byte_delta_not_multiple [OF v, of 2 i] by simp_all
  consider "i < 20" | "i = 22 \<or> i = 23" | "i = 26 \<or> i = 27"
    | "20 \<le> i" "i \<noteq> 22" "i \<noteq> 23" "i \<noteq> 26" "i \<noteq> 27" by linarith
  then show ?thesis
  proof cases
    case 1
    then have "int (wsum (take 20 ?Q)) = int (wsum (take 20 P)) + byte_delta i (P ! i) v"
      using i(2) by (simp add: take_update_swap wsum_update)
    from oc_neq [OF this d(1)] acc show ?thesis by (simp add: recv_accepts_def recv_ip_sum)
  next
    case 2
    then have "load16 ?Q 22 \<noteq> load16 P 22"
      using v i(2) by (auto simp: load16_def le16_eq_iff)
    then show ?thesis
      using acc by (auto simp: recv_accepts_def recv_is_valid_def udphdr_load_def split: if_splits)
  next
    case 3
    then have "load16 ?Q 26 \<noteq> load16 P 26" "load16 ?Q 2 = load16 P 2"
      using v i(2) by (auto simp: load16_def le16_eq_iff)
    moreover have "recv_words ?Q = recv_words P"
      using recv_words_update [of i P v] 3 i n by auto
    ultimately show ?thesis
      using acc recv_udp_sum_cong [OF n, of ?Q]
      by (auto simp: recv_accepts_def udphdr_load_def) (metis unat_ucast_16_32 word_unat_eq_iff)
  next
    case 4
    have same: "load16 ?Q 2 = load16 P 2" "load16 ?Q 26 = load16 P 26"
      using 4 by (auto intro!: load_update_other)
    have "recv_udp_sum ?Q \<noteq> recv_udp_sum P"
      using recv_udp_sum_differs [OF n same(1) recv_words_update] 4 i n d by (auto split: if_splits)
    then show ?thesis
      using acc same by (auto simp: recv_accepts_def udphdr_load_def)
  qed
qed

lemma recv_buffer_update:
  assumes "i < min dhcp_packet_size (length d)"
  shows "recv_buffer stack (d[i := v]) = (recv_buffer stack d)[i := v]"
  using assms by (simp add: recv_buffer_def splice_def take_update_swap list_update_append)

lemma recv_buffer_nth: "i < min dhcp_packet_size (length d) \<Longrightarrow> recv_buffer stack d ! i = d ! i"
  by (simp add: recv_buffer_def splice_def nth_append)

lemma recv_is_valid_lengths:
  "recv_is_valid P n \<Longrightarrow> 28 \<le> n \<and> unat (ntohs (load16 P 2)) \<le> n"
  by (auto simp: recv_is_valid_def iphdr_load_def split: if_splits)

text \<open>
  C20. Every single-byte corruption is noticed. If \<open>receive_packet\<close> accepts a datagram whose
  total length covers the UDP header, then changing any one byte within that total length makes
  it reject the datagram.
\<close>

theorem receive_packet_detects_corruption:
  assumes "receive_packet stack (Some d) \<noteq> RecvErr" and "28 \<le> unat (ntohs (load16 d 2))"
    and "i < unat (ntohs (load16 d 2))" and "v \<noteq> d ! i" and "length stack = dhcp_packet_size"
  shows "receive_packet stack (Some (d[i := v])) = RecvErr"
proof -
  let ?P = "recv_buffer stack d" and ?n = "min dhcp_packet_size (length d)"
  have acc: "recv_accepts ?P ?n" using assms(1) receive_packet_err by blast
  then have n: "28 \<le> ?n" "unat (ntohs (load16 ?P 2)) \<le> ?n"
    using recv_is_valid_lengths [of ?P ?n] by (simp_all only: recv_accepts_def)
  then have l: "load16 ?P 2 = load16 d 2" by (simp add: load16_def recv_buffer_nth)
  have i: "i < ?n" using n(2) assms(3) by (simp add: l)
  moreover have "length ?P = dhcp_packet_size"
    using assms(5) by (simp add: recv_buffer_def splice_def)
  ultimately have "\<not> recv_accepts (?P[i := v]) ?n"
    using assms acc by (intro corrupt_not_accepted) (simp_all add: l recv_buffer_nth)
  then show ?thesis
    using i by (simp add: receive_packet_err recv_buffer_update)
qed

text \<open>What the stack held beyond the datagram does not matter for acceptance.\<close>

lemma load_append:
  "j + 1 < length D \<Longrightarrow> load16 (D @ rest) j = load16 D j"
  "j + 3 < length D \<Longrightarrow> load32 (D @ rest) j = load32 D j"
  by (simp_all add: load16_def load32_def nth_append)

lemma headers_append:
  assumes "28 \<le> length D"
  shows "iphdr_load (D @ rest) = iphdr_load D" and "udphdr_load (D @ rest) 20 = udphdr_load D 20"
  using assms by (auto simp: iphdr_load_def udphdr_load_def load_append nth_append)

lemma recv_udp_sum_append:
  assumes "28 \<le> length D" and "unat (ntohs (load16 D 2)) \<le> length D"
  shows "recv_udp_sum (D @ rest) = recv_udp_sum D"
  using assms
  by (simp add: recv_udp_sum_def Let_def headers_append) (simp add: recv_pseudo_def Let_def headers_append load_append iphdr_load_def)

lemma recv_accepts_append:
  assumes "28 \<le> length D" and "unat (ntohs (load16 D 2)) \<le> length D"
  shows "recv_accepts (D @ rest) n = recv_accepts D n"
  using assms by (simp add: recv_accepts_def recv_udp_sum_append headers_append recv_is_valid_def)

lemma recv_buffer_append: "recv_buffer stack d = take dhcp_packet_size d @ drop (min (length d) dhcp_packet_size) stack"
  by (simp add: recv_buffer_def splice_def)

lemma recv_buffer_payload:
  assumes "28 + k \<le> min dhcp_packet_size (length d)"
  shows "take k (drop 28 (recv_buffer stack d)) = take k (drop 28 d)"
proof -
  have "k \<le> dhcp_packet_size - 28" "k \<le> length d - 28" "28 \<le> dhcp_packet_size" "28 \<le> length d"
    using assms by auto
  then show ?thesis by (simp add: recv_buffer_append drop_take min_absorb1)
qed

text \<open>A datagram that passes every check with a UDP length of 65535.\<close>

definition oversized_datagram :: bytes where
  "oversized_datagram =
     [69, 0, 0, 28, 0, 0, 0, 0, 64, 17, 112, 209, 10, 0, 0, 1, 255, 255, 255, 255,
      0, 67, 0, 68, 255, 255, 245, 102]"

text \<open>
  Consistent lengths are safe. When the UDP length of the datagram agrees with its IP total
  length, \<open>receive_packet\<close> either rejects the datagram or returns exactly its payload: the
  copy stays inside \<open>struct dhcp_msg\<close> and nothing of the stack buffer's earlier contents is
  returned.
\<close>

theorem receive_packet_consistent:
  assumes "unat (ntohs (load16 d 24)) + 20 = unat (ntohs (load16 d 2))"
    and "length stack = dhcp_packet_size" and "8 \<le> unat (ntohs (load16 d 24))"
  shows "receive_packet stack (Some d) \<in>
    {RecvErr, RecvMsg (unat (ntohs (load16 d 24)) - 8) (take (unat (ntohs (load16 d 24)) - 8) (drop 28 d))}"
proof (cases "receive_packet stack (Some d) = RecvErr")
  case False
  let ?P = "recv_buffer stack d" and ?n = "min dhcp_packet_size (length d)"
  have acc: "recv_accepts ?P ?n" using False receive_packet_err by blast
  then have n: "28 \<le> ?n" "unat (ntohs (load16 ?P 2)) \<le> ?n"
    using recv_is_valid_lengths [of ?P ?n] by (simp_all only: recv_accepts_def)
  then have l: "load16 ?P 2 = load16 d 2" "load16 ?P 24 = load16 d 24"
    by (simp_all add: load16_def recv_buffer_nth)
  define k where "k = unat (ntohs (load16 d 24)) - 8"
  have "28 + k \<le> ?n" using n(2) assms(1,3) by (simp only: l k_def)
  then have "take k (drop 28 ?P) = take k (drop 28 d)" by (rule recv_buffer_payload)
  moreover have "uint (ntohs (load16 d 24)) = int k + 8"
    using assms(3) by (simp add: k_def)
  moreover have "k \<le> dhcp_msg_size"
    using \<open>28 + k \<le> ?n\<close> by (simp add: dhcp_packet_size_def)
  ultimately have "receive_packet stack (Some d) = RecvMsg k (take k (drop 28 d))"
    using acc l by (simp add: receive_packet_def recv_accepts_def recv_buffer_def Let_def min.commute
        udphdr_load_def)
  then show ?thesis by (simp add: k_def)
qed simp

lemma oversized_accepted: "recv_accepts oversized_datagram 28"
  by code_simp

lemma oversized_overruns: "receive_packet stack (Some oversized_datagram) = RecvOverrun 65527"
proof -
  let ?P = "splice stack 0 oversized_datagram"
  have len: "length oversized_datagram = 28" "take dhcp_packet_size oversized_datagram = oversized_datagram"
    by (simp_all add: oversized_datagram_def dhcp_packet_size_def)
  have P: "?P = oversized_datagram @ drop 28 stack" by (simp add: splice_def len)
  have "unat (ntohs (load16 oversized_datagram 2)) = 28" "ntohs (load16 oversized_datagram 24) = 65535"
    by code_simp+
  then have "recv_accepts ?P 28" "ntohs (udp_len (udphdr_load ?P 20)) = 65535"
    using oversized_accepted
    by (simp_all add: P recv_accepts_append len headers_append) (simp add: udphdr_load_def)
  then show ?thesis
    by (simp add: receive_packet_def recv_accepts_def len Let_def dhcp_msg_size_def)
qed


section \<open>Concrete datagrams\<close>

theorem receive_send_packet_witness:
  "receive_packet (replicate dhcp_packet_size 0) (Some (iov (send_packet 3 [1, 2, 3, 4] 3 1 2 67 68))) =
     RecvMsg 3 [1, 2, 3]"
proof -
  have "udp_check (udphdr_load (iov (send_packet 3 [1, 2, 3, 4] 3 1 2 67 68)) 20) \<noteq> 0" by code_simp
  then show ?thesis
    using receive_send_packet [of "replicate dhcp_packet_size 0" 3 "[1, 2, 3, 4]" 68 3 1 2 67]
    by (simp add: dhcp_msg_size_def)
qed

theorem receive_packet_detects_corruption_witness:
  "receive_packet (replicate dhcp_packet_size 0) (Some (oversized_datagram[5 := 1])) = RecvErr"
proof (rule receive_packet_detects_corruption)
  show "receive_packet (replicate dhcp_packet_size 0) (Some oversized_datagram) \<noteq> RecvErr"
    by (simp add: oversized_overruns)
  show "28 \<le> unat (ntohs (load16 oversized_datagram 2))" "5 < unat (ntohs (load16 oversized_datagram 2))"
      "1 \<noteq> oversized_datagram ! 5"
    by code_simp+
qed simp

theorem receive_packet_consistent_witness:
  "receive_packet (replicate dhcp_packet_size 0) (Some (iov (send_packet 3 [1, 2, 3] 3 1 2 67 68))) \<in>
     {RecvErr, RecvMsg 3 [1, 2, 3]}"
proof -
  let ?d = "iov (send_packet 3 [1, 2, 3] 3 1 2 67 68)"
  have "unat (ntohs (load16 ?d 24)) = 11" "unat (ntohs (load16 ?d 2)) = 31" "drop 28 ?d = [1, 2, 3]"
    by code_simp+
  then show ?thesis using receive_packet_consistent [of ?d "replicate dhcp_packet_size 0"] by simp
qed

end
