(* ===== verification/Dhcp_Msg.thy ===== *)
theory Dhcp_Msg
  imports Packet
begin

text \<open>
  DHCP messages, \<open>system/core/libnetutils/dhcpmsg.h\<close>, \<open>dhcpmsg.c\<close> and the decoder of
  \<open>dhcpclient.c\<close>: the message structure and its layout, the DISCOVER and REQUEST builders, the
  option parser that fills \<open>dhcp_info\<close>, the reply filter, and the netmask conversion of
  \<open>ifc_utils.c\<close> the parser calls. The lemmas show that the parser never leaves the received
  bytes and that it reads back every well-formed option list.
\<close>

section \<open>Message structure\<close>

record dhcp_msg =
  op :: u8
  htype :: u8
  hlen :: u8
  hops :: u8
  xid :: u32
  secs :: u16
  flags :: u16
  ciaddr :: u32
  yiaddr :: u32
  siaddr :: u32
  giaddr :: u32
  chaddr :: bytes
  sname :: bytes
  bootfile :: bytes
  options :: bytes

definition dhcp_msg_bytes :: "dhcp_msg \<Rightarrow> bytes" where
  "dhcp_msg_bytes m =
     [op m, htype m, hlen m, hops m] @ bytes32 (xid m) @ bytes16 (secs m) @ bytes16 (flags m) @
     bytes32 (ciaddr m) @ bytes32 (yiaddr m) @ bytes32 (siaddr m) @ bytes32 (giaddr m) @
     chaddr m @ sname m @ bootfile m @ options m"

definition dhcp_msg_load :: "bytes \<Rightarrow> dhcp_msg" where
  "dhcp_msg_load b = \<lparr>
     op = b ! 0, htype = b ! 1, hlen = b ! 2, hops = b ! 3, xid = load32 b 4,
     secs = load16 b 8, flags = load16 b 10, ciaddr = load32 b 12, yiaddr = load32 b 16,
     siaddr = load32 b 20, giaddr = load32 b 24, chaddr = take 16 (drop 28 b),
     sname = take 64 (drop 44 b), bootfile = take 128 (drop 108 b), options = take 1024 (drop 236 b)\<rparr>"

definition dhcp_msg_wf :: "dhcp_msg \<Rightarrow> bool" where
  "dhcp_msg_wf m \<longleftrightarrow> length (chaddr m) = 16 \<and> length (sname m) = 64 \<and> length (bootfile m) = 128 \<and>
     length (options m) = 1024"

abbreviation DHCP_MSG_FIXED_SIZE :: nat where "DHCP_MSG_FIXED_SIZE \<equiv> 236"
abbreviation OP_BOOTREQUEST :: u8 where "OP_BOOTREQUEST \<equiv> 1"
abbreviation OP_BOOTREPLY :: u8 where "OP_BOOTREPLY \<equiv> 2"
abbreviation FLAGS_BROADCAST :: u16 where "FLAGS_BROADCAST \<equiv> 0x8000"
abbreviation HTYPE_ETHER :: u8 where "HTYPE_ETHER \<equiv> 1"
abbreviation OPT_COOKIE :: bytes where "OPT_COOKIE \<equiv> [0x63, 0x82, 0x53, 0x63]"
abbreviation OPT_PAD :: u8 where "OPT_PAD \<equiv> 0"
abbreviation OPT_SUBNET_MASK :: u8 where "OPT_SUBNET_MASK \<equiv> 1"
abbreviation OPT_GATEWAY :: u8 where "OPT_GATEWAY \<equiv> 3"
abbreviation OPT_DNS :: u8 where "OPT_DNS \<equiv> 6"
abbreviation OPT_BROADCAST_ADDR :: u8 where "OPT_BROADCAST_ADDR \<equiv> 28"
abbreviation OPT_REQUESTED_IP :: u8 where "OPT_REQUESTED_IP \<equiv> 50"
abbreviation OPT_LEASE_TIME :: u8 where "OPT_LEASE_TIME \<equiv> 51"
abbreviation OPT_MESSAGE_TYPE :: u8 where "OPT_MESSAGE_TYPE \<equiv> 53"
abbreviation OPT_SERVER_ID :: u8 where "OPT_SERVER_ID \<equiv> 54"
abbreviation OPT_PARAMETER_LIST :: u8 where "OPT_PARAMETER_LIST \<equiv> 55"
abbreviation OPT_END :: u8 where "OPT_END \<equiv> 255"
abbreviation DHCPDISCOVER :: u8 where "DHCPDISCOVER \<equiv> 1"
abbreviation DHCPOFFER :: u8 where "DHCPOFFER \<equiv> 2"
abbreviation DHCPREQUEST :: u8 where "DHCPREQUEST \<equiv> 3"
abbreviation DHCPACK :: u8 where "DHCPACK \<equiv> 5"
abbreviation DHCPNAK :: u8 where "DHCPNAK \<equiv> 6"

section \<open>Building requests\<close>

text \<open>\<open>*x++ = b\<close> for the bytes of a list, with \<open>x\<close> a cursor into \<open>msg->options\<close>.\<close>

definition put :: "bytes \<Rightarrow> dhcp_msg \<times> nat \<Rightarrow> dhcp_msg \<times> nat" where
  "put bs mx = (case mx of (m, x) \<Rightarrow> (m\<lparr>options := splice (options m) x bs\<rparr>, x + length bs))"

definition init_dhcp_msg :: "u8 \<Rightarrow> bytes \<Rightarrow> u32 \<Rightarrow> dhcp_msg \<times> nat" where
  "init_dhcp_msg type hwaddr xid0 =
     (let msg = \<lparr>op = 0, htype = 0, hlen = 0, hops = 0, xid = 0, secs = 0, flags = 0, ciaddr = 0,
                 yiaddr = 0, siaddr = 0, giaddr = 0, chaddr = replicate 16 0, sname = replicate 64 0,
                 bootfile = replicate 128 0, options = replicate 1024 0\<rparr>;
          msg = msg\<lparr>op := OP_BOOTREQUEST, htype := HTYPE_ETHER, hlen := 6, hops := 0,
                    flags := htons FLAGS_BROADCAST, xid := xid0,
                    chaddr := splice (chaddr msg) 0 (take 6 hwaddr)\<rparr>
      in put [OPT_MESSAGE_TYPE, 1, type] (put OPT_COOKIE (msg, 0)))"

definition init_dhcp_discover_msg :: "bytes \<Rightarrow> u32 \<Rightarrow> dhcp_msg \<times> nat" where
  "init_dhcp_discover_msg hwaddr xid0 =
     (let (msg, x) = put [OPT_END]
            (put [OPT_PARAMETER_LIST, 4, OPT_SUBNET_MASK, OPT_GATEWAY, OPT_DNS, OPT_BROADCAST_ADDR]
              (init_dhcp_msg DHCPDISCOVER hwaddr xid0))
      in (msg, DHCP_MSG_FIXED_SIZE + x))"

definition init_dhcp_request_msg :: "bytes \<Rightarrow> u32 \<Rightarrow> u32 \<Rightarrow> u32 \<Rightarrow> dhcp_msg \<times> nat" where
  "init_dhcp_request_msg hwaddr xid0 ipaddr serveraddr =
     (let mx = init_dhcp_msg DHCPREQUEST hwaddr xid0;
          mx = put [OPT_PARAMETER_LIST, 4, OPT_SUBNET_MASK, OPT_GATEWAY, OPT_DNS, OPT_BROADCAST_ADDR] mx;
          mx = put (bytes32 ipaddr) (put [OPT_REQUESTED_IP, 4] mx);
          mx = put (bytes32 serveraddr) (put [OPT_SERVER_ID, 4] mx);
          (msg, x) = put [OPT_END] mx
      in (msg, DHCP_MSG_FIXED_SIZE + x))"

section \<open>Netmasks\<close>

definition prefixLengthToIpv4Netmask :: "int \<Rightarrow> u32" where
  "prefixLengthToIpv4Netmask prefix_length =
     (if prefix_length \<le> 0 \<or> 32 < prefix_length then 0
      else htonl (push_bit (nat (32 - prefix_length)) (NOT 0)))"

text \<open>The loop of \<open>ipv4NetmaskToPrefixLength\<close> stops because the mask is shifted out.\<close>

lemma netmask_shift_card:
  fixes m :: u32
  assumes "m \<noteq> 0"
  shows "card {n. n < 32 \<and> push_bit (Suc n) m \<noteq> 0} < card {n. n < 32 \<and> push_bit n m \<noteq> 0}"
proof -
  let ?A = "{n. n < 32 \<and> push_bit (Suc n) m \<noteq> 0}" and ?B = "{n. n < 32 \<and> push_bit n m \<noteq> 0}"
  have out: "push_bit 32 m = 0" by (rule bit_word_eqI) (simp add: bit_simps)
  have "Suc n \<in> ?B - {0}" if "n \<in> ?A" for n
  proof -
    have "Suc n \<noteq> 32" using that out by (metis (mono_tags, lifting) mem_Collect_eq)
    then show ?thesis using that by simp
  qed
  then have "Suc ` ?A \<subseteq> ?B - {0}" by blast
  then have "card (Suc ` ?A) \<le> card (?B - {0})" by (intro card_mono) auto
  also have "\<dots> < card ?B" using assms by (intro card_Diff1_less) auto
  finally show ?thesis by (simp add: card_image del: push_bit_Suc)
qed

function netmask_loop :: "u32 \<Rightarrow> int \<Rightarrow> int" where
  "netmask_loop m prefixLength =
     (if m AND 0x80000000 \<noteq> 0 then netmask_loop (push_bit 1 m) (prefixLength + 1) else prefixLength)"
  by pat_completeness auto
termination
proof (relation "measure (\<lambda>(m, p). card {n. n < 32 \<and> push_bit n m \<noteq> 0})")
  fix m :: u32 and p :: int
  assume "m AND 0x80000000 \<noteq> 0"
  then have "m \<noteq> 0" by auto
  moreover have "push_bit n (push_bit 1 m) = push_bit (Suc n) m" for n
    by (simp only: push_bit_push_bit add_Suc_right add_0_right One_nat_def)
  ultimately show "((push_bit 1 m, p + 1), (m, p)) \<in> measure (\<lambda>(m, p). card {n. n < 32 \<and> push_bit n m \<noteq> 0})"
    unfolding in_measure split using netmask_shift_card [of m] by presburger
qed simp

declare netmask_loop.simps [simp del]

definition ipv4NetmaskToPrefixLength :: "u32 \<Rightarrow> int" where
  "ipv4NetmaskToPrefixLength netmask = netmask_loop (ntohl netmask) 0"

section \<open>Decoding replies\<close>

record dhcp_info =
  di_type :: u32
  di_ipaddr :: u32
  di_gateway :: u32
  di_prefixLength :: u32
  di_dns1 :: u32
  di_dns2 :: u32
  di_serveraddr :: u32
  di_lease :: u32

definition zero_info :: dhcp_info where
  "zero_info = \<lparr>di_type = 0, di_ipaddr = 0, di_gateway = 0, di_prefixLength = 0, di_dns1 = 0,
     di_dns2 = 0, di_serveraddr = 0, di_lease = 0\<rparr>"

text \<open>Reads of the option area. A read outside the array is \<open>None\<close>.\<close>

definition rd8 :: "bytes \<Rightarrow> nat \<Rightarrow> u8 option" where
  "rd8 b x = (if x < length b then Some (b ! x) else None)"

definition rd32 :: "bytes \<Rightarrow> nat \<Rightarrow> u32 option" where
  "rd32 b x = (if x + 4 \<le> length b then Some (load32 b x) else None)"

text \<open>The \<open>switch\<close> of \<open>decode_dhcp_msg\<close>: one option with its data at \<open>x\<close>.\<close>

definition decode_opt :: "bytes \<Rightarrow> nat \<Rightarrow> nat \<Rightarrow> u8 \<Rightarrow> dhcp_info \<Rightarrow> dhcp_info option" where
  "decode_opt b x optlen opt info =
     (if opt = OPT_SUBNET_MASK then
        if 4 \<le> optlen
        then map_option (\<lambda>w. info\<lparr>di_prefixLength := of_int (ipv4NetmaskToPrefixLength w)\<rparr>) (rd32 b x)
        else Some info
      else if opt = OPT_GATEWAY then
        if 4 \<le> optlen then map_option (\<lambda>w. info\<lparr>di_gateway := w\<rparr>) (rd32 b x) else Some info
      else if opt = OPT_DNS then
        Option.bind (if 4 \<le> optlen then map_option (\<lambda>w. info\<lparr>di_dns1 := w\<rparr>) (rd32 b x) else Some info)
          (\<lambda>info. if 8 \<le> optlen then map_option (\<lambda>w. info\<lparr>di_dns2 := w\<rparr>) (rd32 b (x + 4)) else Some info)
      else if opt = OPT_LEASE_TIME then
        if 4 \<le> optlen then map_option (\<lambda>w. info\<lparr>di_lease := ntohl w\<rparr>) (rd32 b x) else Some info
      else if opt = OPT_SERVER_ID then
        if 4 \<le> optlen then map_option (\<lambda>w. info\<lparr>di_serveraddr := w\<rparr>) (rd32 b x) else Some info
      else if opt = OPT_MESSAGE_TYPE then
        map_option (\<lambda>c. info\<lparr>di_type := ucast c\<rparr>) (rd8 b x)
      else Some info)"

text \<open>The \<open>while (len > 2)\<close> loop; \<open>x\<close> is the offset of the cursor in \<open>msg->options\<close>.\<close>

function decode_loop :: "bytes \<Rightarrow> nat \<Rightarrow> int \<Rightarrow> dhcp_info \<Rightarrow> dhcp_info option" where
  "decode_loop b x len info =
     (if 2 < len then
        (case rd8 b x of
           None \<Rightarrow> None
         | Some opt \<Rightarrow>
             if opt = OPT_PAD then decode_loop b (x + 1) (len - 1) info
             else if opt = OPT_END then Some info
             else
               (case rd8 b (x + 1) of
                  None \<Rightarrow> None
                | Some optlen \<Rightarrow>
                    if len - 2 < uint optlen then Some info
                    else
                      (case decode_opt b (x + 2) (unat optlen) opt info of
                         None \<Rightarrow> None
                       | Some info' \<Rightarrow>
                           decode_loop b (x + 2 + unat optlen) (len - 2 - uint optlen) info')))
      else Some info)"
  by pat_completeness auto
termination
proof (relation "measure (\<lambda>(b, x, len, info). nat len)")
  fix len :: int and optlen :: u8
  assume "2 < len"
  then have "nat (len - 2 - uint optlen) < nat len" using uint_ge_0 [of optlen] by linarith
  then show "((b, x', len - 2 - uint optlen, i'), (b, x, len, i)) \<in> measure (\<lambda>(b, x, len, info). nat len)"
    for b x x' i i' by simp
qed auto

declare decode_loop.simps [simp del]

text \<open>
  \<open>decode_dhcp_msg\<close>: the returned code and the contents of \<open>*info\<close>, or \<open>None\<close> for a read
  outside \<open>msg->options\<close>.
\<close>

definition decode_dhcp_msg :: "dhcp_msg \<Rightarrow> int \<Rightarrow> (int \<times> dhcp_info) option" where
  "decode_dhcp_msg msg len0 =
     (if len0 < int (DHCP_MSG_FIXED_SIZE + 4) then Some (- 1, zero_info)
      else
        let len = len0 - int (DHCP_MSG_FIXED_SIZE + 4)
        in if options msg ! 0 \<noteq> 0x63 then Some (- 1, zero_info)
           else if options msg ! 1 \<noteq> 0x82 then Some (- 1, zero_info)
           else if options msg ! 2 \<noteq> 0x53 then Some (- 1, zero_info)
           else if options msg ! 3 \<noteq> 0x63 then Some (- 1, zero_info)
           else map_option (\<lambda>info. (0, info\<lparr>di_ipaddr := yiaddr msg\<rparr>))
                  (decode_loop (options msg) 4 len zero_info))"

definition is_valid_reply :: "dhcp_msg \<Rightarrow> dhcp_msg \<Rightarrow> int \<Rightarrow> bool" where
  "is_valid_reply msg reply sz =
     (if sz < int DHCP_MSG_FIXED_SIZE then False
      else if op reply \<noteq> OP_BOOTREPLY then False
      else if xid reply \<noteq> xid msg then False
      else if htype reply \<noteq> htype msg then False
      else if hlen reply \<noteq> hlen msg then False
      else if take (unat (hlen msg)) (chaddr msg) \<noteq> take (unat (hlen msg)) (chaddr reply) then False
      else True)"

section \<open>Layout\<close>

lemma dhcp_msg_load_bytes:
  assumes "dhcp_msg_wf m"
  shows "dhcp_msg_load (dhcp_msg_bytes m @ rest) = m"
  using assms
  by (cases m) (simp add: dhcp_msg_load_def dhcp_msg_bytes_def dhcp_msg_wf_def load32_def load16_def
      bytes32_def bytes16_def le16_of_word le32_of_word)

section \<open>Netmask conversions\<close>

lemma netmask_loop_ge:
  "p + int k \<le> netmask_loop m p \<longleftrightarrow> k \<le> 32 \<and> (\<forall>i<k. bit m (31 - i))"
proof (induction m p arbitrary: k rule: netmask_loop.induct)
  case (1 m p)
  show ?case
  proof (cases "bit m 31")
    case top: True
    define m' where "m' = push_bit 1 m"
    have bit': "bit m' n \<longleftrightarrow> 1 \<le> n \<and> n < 32 \<and> bit m (n - 1)" for n
      unfolding m'_def bit_push_bit_iff using bit_imp_le_length [of m' n] by (auto simp: m'_def bit_simps)
    have step: "netmask_loop m p = netmask_loop m' (p + 1)"
      unfolding m'_def using top by (subst netmask_loop.simps) (simp only: top_bit_u32 if_True)
    have IH: "p + 1 + int k \<le> netmask_loop m' (p + 1) \<longleftrightarrow> k \<le> 32 \<and> (\<forall>i<k. bit m' (31 - i))" for k
      unfolding m'_def using 1 top by (simp only: top_bit_u32)
    show ?thesis
    proof (cases k)
      case 0
      then show ?thesis using IH [of 0] by (simp add: step)
    next
      case (Suc j)
      have "(\<forall>i<j. bit m' (31 - i)) \<longleftrightarrow> (\<forall>i<j. bit m (30 - i))" if "j \<le> 31"
        using that by (auto simp: bit')
      moreover have "\<exists>i<32. \<not> bit m' (31 - i)"
        by (rule exI [of _ 31]) (simp add: bit')
      ultimately have "j \<le> 32 \<and> (\<forall>i<j. bit m' (31 - i)) \<longleftrightarrow> Suc j \<le> 32 \<and> (\<forall>i<j. bit m (31 - Suc i))"
        by (cases "j = 32") auto
      with IH [of j] show ?thesis using top Suc by (simp add: step All_less_Suc2 add.assoc)
    qed
  next
    case False
    then have "netmask_loop m p = p" by (subst netmask_loop.simps) (simp add: top_bit_u32)
    then show ?thesis using False by auto
  qed
qed

text \<open>
  \<open>ipv4NetmaskToPrefixLength\<close> counts the leading ones of the netmask in host order: the result
  is at least \<open>k\<close> exactly when the top \<open>k\<close> bits are set.
\<close>

theorem ipv4NetmaskToPrefixLength_leading_ones:
  "int k \<le> ipv4NetmaskToPrefixLength netmask \<longleftrightarrow> k \<le> 32 \<and> (\<forall>i<k. bit (ntohl netmask) (31 - i))"
  using netmask_loop_ge [of 0 k "ntohl netmask"] by (simp add: ipv4NetmaskToPrefixLength_def)

theorem ipv4NetmaskToPrefixLength_leading_ones_witness:
  "int 20 \<le> ipv4NetmaskToPrefixLength 0x00F0FFFF"
  by (subst ipv4NetmaskToPrefixLength_leading_ones) code_simp

lemma netmask_loop_prefix:
  assumes "n \<le> 32"
  shows "netmask_loop (push_bit (32 - n) (NOT 0)) 0 = int n"
proof -
  let ?r = "netmask_loop (push_bit (32 - n) (NOT 0)) 0"
  have "(int k \<le> ?r) = (k \<le> n)" for k
  proof -
    have "(int k \<le> ?r) = (k \<le> 32 \<and> (\<forall>i<k. 32 - n \<le> 31 - i \<and> 31 - i < 32))"
      using netmask_loop_ge [of 0 k] by (auto simp: bit_simps)
    also have "\<dots> = (k \<le> n)"
    proof
      assume *: "k \<le> 32 \<and> (\<forall>i<k. 32 - n \<le> 31 - i \<and> 31 - i < 32)"
      show "k \<le> n" using assms * [THEN conjunct2, rule_format, of "k - 1"] * by (cases k) auto
    qed (use assms in auto)
    finally show ?thesis .
  qed
  from this [of n] this [of "Suc n"] show ?thesis by simp
qed

text \<open>
  The two conversions of \<open>ifc_utils.c\<close> are inverse to each other: a prefix length between 0 and
  32 survives the way through its netmask.
\<close>

theorem prefixLength_roundtrip:
  assumes "0 \<le> p" "p \<le> 32"
  shows "ipv4NetmaskToPrefixLength (prefixLengthToIpv4Netmask p) = p"
proof (cases "p = 0")
  case True
  moreover have "htonl 0 = 0" by code_simp
  ultimately show ?thesis
    by (simp add: ipv4NetmaskToPrefixLength_def prefixLengthToIpv4Netmask_def netmask_loop.simps)
next
  case False
  then have "nat (32 - p) = 32 - nat p" using assms by simp
  then show ?thesis
    using False assms netmask_loop_prefix [of "nat p"]
    by (simp add: ipv4NetmaskToPrefixLength_def prefixLengthToIpv4Netmask_def htonl_htonl)
qed

theorem prefixLength_roundtrip_witness:
  "ipv4NetmaskToPrefixLength (prefixLengthToIpv4Netmask 24) = 24"
  by (rule prefixLength_roundtrip) simp_all

section \<open>The option parser\<close>

lemma rd8_take: "x < n \<Longrightarrow> n \<le> length b \<Longrightarrow> rd8 (take n b) x = rd8 b x"
  by (simp add: rd8_def)

lemma rd32_take: "x + 4 \<le> n \<Longrightarrow> n \<le> length b \<Longrightarrow> rd32 (take n b) x = rd32 b x"
  by (simp add: rd32_def load32_def)

lemma decode_opt_take:
  assumes "x + optlen \<le> n" "x < n" "n \<le> length b"
  shows "decode_opt (take n b) x optlen opt info = decode_opt b x optlen opt info"
  using assms by (auto simp: decode_opt_def rd8_take rd32_take split: Option.bind_split)

lemma decode_opt_Some:
  assumes "x + optlen \<le> length b" "x < length b"
  shows "\<exists>info'. decode_opt b x optlen opt info = Some info'"
  using assms by (auto simp: decode_opt_def rd8_def rd32_def)

text \<open>
  With the cursor and the remaining length inside the received bytes, the loop reads none but
  these, and it never leaves the array.
\<close>

lemma decode_loop_take:
  "int x + len \<le> int n \<Longrightarrow> n \<le> length b \<Longrightarrow> decode_loop (take n b) x len info = decode_loop b x len info"
proof (induction b x len info rule: decode_loop.induct)
  case (1 b x len info)
  show ?case
  proof (cases "2 < len")
    case True
    then have n: "x + 2 < n" using 1 by linarith
    have opt: "decode_opt (take n b) (x + 2) (unat l) opt info = decode_opt b (x + 2) (unat l) opt info"
      if "uint l \<le> len - 2" for l :: u8 and opt
    proof (rule decode_opt_take)
      have "unat l \<le> nat (len - 2)" using that True by (simp add: le_nat_iff)
      then show "x + 2 + unat l \<le> n" using 1(3) True by linarith
    qed (use n 1(4) in simp_all)
    show ?thesis
      using 1 True n by (subst (1 2) decode_loop.simps)
        (auto simp: rd8_take opt simp del: add_2_eq_Suc' split: option.split)
  next
    case False
    then show ?thesis by (subst (1 2) decode_loop.simps) simp
  qed
qed

lemma decode_loop_Some:
  "int x + len \<le> int (length b) \<Longrightarrow> \<exists>info'. decode_loop b x len info = Some info'"
proof (induction b x len info rule: decode_loop.induct)
  case (1 b x len info)
  show ?case
  proof (cases "2 < len")
    case True
    then have n: "x + 2 < length b" using 1 by linarith
    have opt: "\<exists>info'. decode_opt b (x + 2) (unat l) opt info = Some info'"
      if "uint l \<le> len - 2" for l :: u8 and opt
    proof (rule decode_opt_Some)
      have "unat l \<le> nat (len - 2)" using that True by (simp add: le_nat_iff)
      then show "x + 2 + unat l \<le> length b" using 1(3) True by linarith
    qed (use n in simp)
    obtain o' l where rd: "rd8 b x = Some o'" "rd8 b (x + 1) = Some l" using n by (simp add: rd8_def)
    show ?thesis
      using 1 True rd opt [of l o'] by (subst decode_loop.simps) (auto simp del: add_2_eq_Suc')
  next
    case False
    then show ?thesis by (subst decode_loop.simps) simp
  qed
qed

lemma dhcp_msg_parts:
  assumes "dhcp_msg_wf m" "236 \<le> k"
  shows "take (k - 236) (options m) = drop 236 (take k (dhcp_msg_bytes m))"
    and "yiaddr m = load32 (take k (dhcp_msg_bytes m)) 16"
proof -
  have "drop 236 (dhcp_msg_bytes m) = options m"
    using assms by (simp add: dhcp_msg_bytes_def dhcp_msg_wf_def bytes32_def bytes16_def)
  then show "take (k - 236) (options m) = drop 236 (take k (dhcp_msg_bytes m))"
    using assms by (simp add: drop_take)
  have "load32 (take k (dhcp_msg_bytes m)) 16 = load32 (dhcp_msg_bytes m) 16"
    using assms by (simp add: load32_def)
  also have "\<dots> = yiaddr m"
    by (simp add: dhcp_msg_bytes_def load32_def bytes32_def bytes16_def le32_of_word)
  finally show "yiaddr m = load32 (take k (dhcp_msg_bytes m)) 16" by simp
qed

lemma decode_dhcp_msg_take:
  assumes "dhcp_msg_wf m" "240 \<le> k" "k \<le> dhcp_msg_size"
  shows "decode_dhcp_msg m (int k) =
    (let b = take (k - 236) (options m)
     in if b ! 0 = 0x63 \<and> b ! 1 = 0x82 \<and> b ! 2 = 0x53 \<and> b ! 3 = 0x63
        then map_option (\<lambda>info. (0, info\<lparr>di_ipaddr := yiaddr m\<rparr>)) (decode_loop b 4 (int k - 240) zero_info)
        else Some (- 1, zero_info))"
proof -
  have "k - 236 \<le> length (options m)" using assms by (simp add: dhcp_msg_wf_def dhcp_msg_size_def)
  moreover have "int 4 + (int k - 240) \<le> int (k - 236)" using assms by linarith
  ultimately have "decode_loop (take (k - 236) (options m)) 4 (int k - 240) zero_info =
      decode_loop (options m) 4 (int k - 240) zero_info"
    by (intro decode_loop_take)
  then show ?thesis using assms by (simp add: decode_dhcp_msg_def Let_def)
qed

lemma decode_dhcp_msg_total:
  assumes "dhcp_msg_wf msg" "len \<le> int dhcp_msg_size"
  shows "decode_dhcp_msg msg len \<noteq> None"
proof (cases "240 \<le> len")
  case True
  define k where "k = nat len"
  have k: "len = int k" "240 \<le> k" "k \<le> dhcp_msg_size" using True assms by (auto simp: k_def)
  obtain info where "decode_loop (take (k - 236) (options msg)) 4 (int k - 240) zero_info = Some info"
    using decode_loop_Some [of 4 "int k - 240" "take (k - 236) (options msg)" zero_info] k assms
    by (auto simp: dhcp_msg_wf_def dhcp_msg_size_def)
  then show ?thesis using decode_dhcp_msg_take [OF assms(1) k(2,3)] k(1) by (simp add: Let_def)
qed (simp add: decode_dhcp_msg_def)

lemma decode_dhcp_msg_received:
  assumes wf: "dhcp_msg_wf msg" "dhcp_msg_wf msg'" and len: "len \<le> int dhcp_msg_size"
    and same: "take (nat len) (dhcp_msg_bytes msg) = take (nat len) (dhcp_msg_bytes msg')"
  shows "decode_dhcp_msg msg len = decode_dhcp_msg msg' len"
proof (cases "240 \<le> len")
  case True
  define k where "k = nat len"
  have k: "len = int k" "240 \<le> k" "k \<le> dhcp_msg_size" using True len by (auto simp: k_def)
  have "take (k - 236) (options msg) = take (k - 236) (options msg')" "yiaddr msg = yiaddr msg'"
    using same dhcp_msg_parts [OF wf(1), of k] dhcp_msg_parts [OF wf(2), of k] k by simp_all
  then show ?thesis
    using decode_dhcp_msg_take [OF wf(1) k(2,3)] decode_dhcp_msg_take [OF wf(2) k(2,3)] k(1)
    by (simp add: Let_def)
qed (simp add: decode_dhcp_msg_def)

text \<open>
  C18. The option parser stays inside the message for every received length up to
  \<open>sizeof(dhcp_msg)\<close>, whatever the bytes: it returns, and its result depends only on the bytes that
  were received.
\<close>

theorem decode_dhcp_msg_in_bounds:
  assumes wf: "dhcp_msg_wf msg" "dhcp_msg_wf msg'" and len: "len \<le> int dhcp_msg_size"
    and same: "take (nat len) (dhcp_msg_bytes msg) = take (nat len) (dhcp_msg_bytes msg')"
  shows "decode_dhcp_msg msg len = decode_dhcp_msg msg' len \<and> decode_dhcp_msg msg len \<noteq> None"
  using decode_dhcp_msg_received [OF assms] decode_dhcp_msg_total [OF wf(1) len] by blast

theorem decode_dhcp_msg_in_bounds_witness:
  "decode_dhcp_msg (dhcp_msg_load (replicate 1260 0x63)) 1260 \<noteq> None"
proof -
  let ?m = "dhcp_msg_load (replicate 1260 0x63)"
  have "dhcp_msg_wf ?m" by (simp add: dhcp_msg_wf_def dhcp_msg_load_def)
  then show ?thesis using decode_dhcp_msg_in_bounds [of ?m ?m 1260] by (simp add: dhcp_msg_size_def)
qed

section \<open>Reading back what a server wrote\<close>

text \<open>
  The option format of RFC 2132 seen from the writer: an option is a code and its data, and a
  reader is to apply each option by its data alone.
\<close>

type_synonym dhcp_opt = "u8 \<times> bytes"

definition opt_bytes :: "dhcp_opt \<Rightarrow> bytes" where
  "opt_bytes ob = fst ob # of_nat (length (snd ob)) # snd ob"

definition opt_wf :: "dhcp_opt \<Rightarrow> bool" where
  "opt_wf ob \<longleftrightarrow> fst ob \<noteq> OPT_PAD \<and> fst ob \<noteq> OPT_END \<and> length (snd ob) < 256 \<and>
     (fst ob = OPT_MESSAGE_TYPE \<longrightarrow> snd ob \<noteq> [])"

definition apply_opt :: "dhcp_opt \<Rightarrow> dhcp_info \<Rightarrow> dhcp_info" where
  "apply_opt ob info =
     (let d = snd ob; full = 4 \<le> length d
      in if fst ob = OPT_MESSAGE_TYPE then info\<lparr>di_type := ucast (d ! 0)\<rparr>
         else if \<not> full then info
         else if fst ob = OPT_SUBNET_MASK
           then info\<lparr>di_prefixLength := of_int (ipv4NetmaskToPrefixLength (load32 d 0))\<rparr>
         else if fst ob = OPT_GATEWAY then info\<lparr>di_gateway := load32 d 0\<rparr>
         else if fst ob = OPT_LEASE_TIME then info\<lparr>di_lease := ntohl (load32 d 0)\<rparr>
         else if fst ob = OPT_SERVER_ID then info\<lparr>di_serveraddr := load32 d 0\<rparr>
         else if fst ob = OPT_DNS then
           (if 8 \<le> length d then info\<lparr>di_dns1 := load32 d 0, di_dns2 := load32 d 4\<rparr>
            else info\<lparr>di_dns1 := load32 d 0\<rparr>)
         else info)"

lemma load32_in_append:
  "i + 4 \<le> length d \<Longrightarrow> load32 (pre @ d @ rest) (length pre + i) = load32 d i"
  by (simp add: load32_def nth_append)

lemma decode_opt_apply:
  assumes "opt_wf (c, d)"
  shows "decode_opt (pre @ d @ rest) (length pre) (length d) c info = Some (apply_opt (c, d) info)"
proof -
  have "rd32 (pre @ d @ rest) (length pre) = Some (load32 d 0)" if "4 \<le> length d"
    using that load32_in_append [of 0 d pre rest] by (simp add: rd32_def)
  moreover have "rd32 (pre @ d @ rest) (length pre + 4) = Some (load32 d 4)" if "8 \<le> length d"
    using that load32_in_append [of 4 d pre rest] by (simp add: rd32_def)
  moreover have "rd8 (pre @ d @ rest) (length pre) = Some (d ! 0)" if "d \<noteq> []"
    using that by (simp add: rd8_def nth_append)
  ultimately show ?thesis
    using assms by (auto simp: decode_opt_def apply_opt_def opt_wf_def Let_def)
qed

lemma decode_loop_opts:
  assumes "\<forall>ob \<in> set obs. opt_wf ob" and "int (length (concat (map opt_bytes obs))) + 1 \<le> len"
  shows "decode_loop (pre @ concat (map opt_bytes obs) @ OPT_END # rest) (length pre) len info =
    Some (fold apply_opt obs info)"
  using assms
proof (induction obs arbitrary: pre len info)
  case Nil
  then show ?case by (subst decode_loop.simps) (simp add: rd8_def)
next
  case (Cons ob obs)
  obtain c d where ob: "ob = (c, d)" by (cases ob)
  have wf: "opt_wf (c, d)" using Cons.prems ob by simp
  have ld: "unat (of_nat (length d) :: u8) = length d" "uint (of_nat (length d) :: u8) = int (length d)"
    using wf by (simp_all add: opt_wf_def unat_of_nat uint_nat)
  have obb: "opt_bytes (c, d) = c # of_nat (length d) # d" by (simp add: opt_bytes_def)
  let ?tl = "concat (map opt_bytes obs) @ OPT_END # rest"
  let ?b = "(pre @ [c, of_nat (length d)]) @ d @ ?tl"
  have b: "pre @ concat (map opt_bytes (ob # obs)) @ OPT_END # rest = ?b" by (simp add: ob obb)
  have rd: "rd8 ?b (length pre) = Some c" "rd8 ?b (length pre + 1) = Some (of_nat (length d))"
    by (simp_all add: rd8_def nth_append)
  have opt: "decode_opt ?b (length pre + 2) (length d) c info = Some (apply_opt (c, d) info)"
    using decode_opt_apply [OF wf, of "pre @ [c, of_nat (length d)]" ?tl info] by simp
  have len: "int (length d) + 2 + int (length (concat (map opt_bytes obs))) + 1 \<le> len"
    using Cons.prems(2) by (simp add: ob obb)
  have "decode_loop ?b (length pre) len info =
      decode_loop ?b (length pre + 2 + length d) (len - 2 - int (length d)) (apply_opt (c, d) info)"
    using wf len rd opt
    by (subst decode_loop.simps) (simp add: opt_wf_def ld del: append_assoc add_2_eq_Suc')
  also have "\<dots> = Some (fold apply_opt obs (apply_opt (c, d) info))"
    using Cons.IH [of "len - 2 - int (length d)" "pre @ [c, of_nat (length d)] @ d"] Cons.prems(1) len by simp
  finally show ?case by (simp add: ob obb)
qed

lemma decode_dhcp_msg_options:
  assumes "\<forall>ob \<in> set obs. opt_wf ob"
    and "options msg = OPT_COOKIE @ concat (map opt_bytes obs) @ OPT_END # rest"
    and "241 + int (length (concat (map opt_bytes obs))) \<le> len"
  shows "decode_dhcp_msg msg len = Some (0, (fold apply_opt obs zero_info)\<lparr>di_ipaddr := yiaddr msg\<rparr>)"
proof -
  have "decode_loop (options msg) 4 (len - 240) zero_info = Some (fold apply_opt obs zero_info)"
    using decode_loop_opts [OF assms(1), of "len - 240" OPT_COOKIE rest zero_info] assms(2,3)
    by (simp add: numeral_eq_Suc)
  then show ?thesis using assms(2,3) by (simp add: decode_dhcp_msg_def)
qed

text \<open>
  C17. The parser reads back every option list a server writes after the magic cookie: with
  well-formed options, in any order and with unknown codes among them, the result is each option
  applied in turn, and the offered address. The bytes after \<open>OPT_END\<close> do not matter.
\<close>

theorem decode_dhcp_msg_reads_options:
  assumes "\<forall>ob \<in> set obs. opt_wf ob"
    and "options msg = OPT_COOKIE @ concat (map opt_bytes obs) @ OPT_END # rest"
    and "241 + int (length (concat (map opt_bytes obs))) \<le> len"
  shows "decode_dhcp_msg msg len = Some (0, (fold apply_opt obs zero_info)\<lparr>di_ipaddr := yiaddr msg\<rparr>)"
  using assms by (rule decode_dhcp_msg_options)

definition sample_options :: "dhcp_opt list" where
  "sample_options =
     [(OPT_MESSAGE_TYPE, [DHCPOFFER]), (OPT_SUBNET_MASK, [255, 255, 255, 0]), (12, [104, 105]),
      (OPT_DNS, [8, 8, 8, 8, 8, 8, 4, 4])]"

theorem decode_dhcp_msg_reads_options_witness:
  "decode_dhcp_msg ((dhcp_msg_load (replicate 236 0))\<lparr>yiaddr := 7, options := OPT_COOKIE @
       concat (map opt_bytes sample_options) @ OPT_END # replicate 900 0\<rparr>) 400 =
     Some (0, zero_info\<lparr>di_type := 2, di_ipaddr := 7, di_prefixLength := 24, di_dns1 := 0x08080808,
       di_dns2 := 0x04040808\<rparr>)"
proof -
  have "\<forall>ob \<in> set sample_options. opt_wf ob" by code_simp
  moreover have "length (concat (map opt_bytes sample_options)) = 23" by code_simp
  moreover have "fold apply_opt sample_options zero_info =
      zero_info\<lparr>di_type := 2, di_prefixLength := 24, di_dns1 := 0x08080808, di_dns2 := 0x04040808\<rparr>"
    by code_simp
  ultimately show ?thesis
    by (subst decode_dhcp_msg_reads_options [where obs = sample_options and rest = "replicate 900 0"]) simp_all
qed

section \<open>The requests\<close>

definition request_options :: "u32 \<Rightarrow> u32 \<Rightarrow> dhcp_opt list" where
  "request_options ipaddr serveraddr =
     [(OPT_MESSAGE_TYPE, [DHCPREQUEST]),
      (OPT_PARAMETER_LIST, [OPT_SUBNET_MASK, OPT_GATEWAY, OPT_DNS, OPT_BROADCAST_ADDR]),
      (OPT_REQUESTED_IP, bytes32 ipaddr), (OPT_SERVER_ID, bytes32 serveraddr)]"

lemma splice_replicate:
  "length m = k \<Longrightarrow> splice (m @ replicate n v) k bs = m @ bs @ replicate (n - length bs) v"
  by (simp add: splice_def)

lemma request_layout:
  "options (fst (init_dhcp_request_msg hw x ip srv)) =
     OPT_COOKIE @ concat (map opt_bytes (request_options ip srv)) @ OPT_END # replicate 998 0"
  "snd (init_dhcp_request_msg hw x ip srv) = 262"
  by (simp_all add: init_dhcp_request_msg_def init_dhcp_msg_def put_def splice_def Let_def
      request_options_def opt_bytes_def bytes32_def)

text \<open>
  The REQUEST a client sends is a well-formed message of 262 bytes whose option area is exactly
  the requested options, so that the decoder finds in it the message type and the chosen server.
\<close>

theorem init_dhcp_request_msg_decodes:
  assumes "6 \<le> length hwaddr"
  shows "(let (msg, n) = init_dhcp_request_msg hwaddr xid0 ipaddr serveraddr
    in dhcp_msg_wf msg \<and> n = 262 \<and> op msg = OP_BOOTREQUEST \<and> xid msg = xid0 \<and>
       take 6 (chaddr msg) = take 6 hwaddr \<and>
       options msg = OPT_COOKIE @ concat (map opt_bytes (request_options ipaddr serveraddr)) @
         OPT_END # replicate 998 0 \<and>
       decode_dhcp_msg msg (int n) =
         Some (0, zero_info\<lparr>di_type := ucast DHCPREQUEST, di_serveraddr := serveraddr\<rparr>))"
proof -
  let ?msg = "fst (init_dhcp_request_msg hwaddr xid0 ipaddr serveraddr)"
  have opts: "options ?msg = OPT_COOKIE @ concat (map opt_bytes (request_options ipaddr serveraddr)) @
      OPT_END # replicate 998 0" and n: "snd (init_dhcp_request_msg hwaddr xid0 ipaddr serveraddr) = 262"
    by (rule request_layout)+
  have hdr: "op ?msg = OP_BOOTREQUEST" "xid ?msg = xid0" "yiaddr ?msg = 0"
      "chaddr ?msg = take 6 hwaddr @ replicate 10 0" "length (sname ?msg) = 64" "length (bootfile ?msg) = 128"
    using assms by (simp_all add: init_dhcp_request_msg_def init_dhcp_msg_def put_def Let_def splice_def min_def)
  have obs: "\<forall>ob \<in> set (request_options ipaddr serveraddr). opt_wf ob"
      "length (concat (map opt_bytes (request_options ipaddr serveraddr))) = 21"
    by (simp_all add: request_options_def opt_wf_def opt_bytes_def)
  have "fold apply_opt (request_options ipaddr serveraddr) zero_info =
      zero_info\<lparr>di_type := ucast DHCPREQUEST, di_serveraddr := serveraddr\<rparr>"
    by (simp add: request_options_def apply_opt_def load32_def bytes32_def le32_of_word Let_def)
  then have dec: "decode_dhcp_msg ?msg 262 =
      Some (0, zero_info\<lparr>di_type := ucast DHCPREQUEST, di_serveraddr := serveraddr\<rparr>)"
    using decode_dhcp_msg_options [OF obs(1) opts, of 262] obs(2) hdr by (simp add: zero_info_def)
  have wf: "dhcp_msg_wf ?msg" using assms opts obs hdr by (simp add: dhcp_msg_wf_def)
  show ?thesis using opts n hdr dec wf assms by (simp add: split_beta Let_def)
qed

theorem init_dhcp_request_msg_decodes_witness:
  "(let (msg, n) = init_dhcp_request_msg [1, 2, 3, 4, 5, 6] 9 7 8
    in dhcp_msg_wf msg \<and> n = 262 \<and> take 6 (chaddr msg) = [1, 2, 3, 4, 5, 6])"
  using init_dhcp_request_msg_decodes [of "[1, 2, 3, 4, 5, 6]" 9 7 8] by (simp add: Let_def split_beta)

section \<open>Messages in the receive buffer\<close>

lemma take_drop_chain: "k = i + n \<Longrightarrow> take n (drop i b) @ drop k b = drop i b"
  by (metis append_take_drop_id drop_drop add.commute)

lemma drop_cells:
  "i + 4 \<le> length b \<Longrightarrow> drop i b = b ! i # b ! (i + 1) # b ! (i + 2) # b ! (i + 3) # drop (i + 4) b"
  "i + 2 \<le> length b \<Longrightarrow> drop i b = b ! i # b ! (i + 1) # drop (i + 2) b"
  by (simp_all add: Cons_nth_drop_Suc numeral_eq_Suc)

lemma bytes_load:
  "i + 4 \<le> length b \<Longrightarrow> bytes32 (load32 b i) = take 4 (drop i b)"
  "i + 2 \<le> length b \<Longrightarrow> bytes16 (load16 b i) = take 2 (drop i b)"
  by (simp_all add: drop_cells bytes32_def load32_def bytes16_def load16_def byte_simps)

lemma dhcp_msg_bytes_load:
  assumes "length b = dhcp_msg_size"
  shows "dhcp_msg_bytes (dhcp_msg_load b) = b"
proof -
  have "[b ! 0, b ! 1, b ! 2, b ! 3] = take 4 (drop 0 b)"
    using assms by (simp add: dhcp_msg_size_def list_eq_iff_nth_eq less_Suc_eq numeral_eq_Suc nth_Cons')
  moreover have "take 1024 (drop 236 b) = drop 236 b" using assms by (simp add: dhcp_msg_size_def)
  ultimately have "dhcp_msg_bytes (dhcp_msg_load b) = take 4 (drop 0 b) @ take 4 (drop 4 b) @ take 2 (drop 8 b) @
      take 2 (drop 10 b) @ take 4 (drop 12 b) @ take 4 (drop 16 b) @ take 4 (drop 20 b) @ take 4 (drop 24 b) @
      take 16 (drop 28 b) @ take 64 (drop 44 b) @ take 128 (drop 108 b) @ drop 236 b"
    using assms unfolding dhcp_msg_bytes_def dhcp_msg_load_def
    by (simp add: bytes_load dhcp_msg_size_def)
  also have "\<dots> = drop 0 b" by (simp only: take_drop_chain arith_simps)
  finally show ?thesis by simp
qed

text \<open>
  A reply is read into a buffer that still holds an earlier one. Its header and, by
  \<open>decode_dhcp_msg_received\<close>, its options are those of the received bytes.
\<close>

lemma dhcp_msg_wf_load: "length b = dhcp_msg_size \<Longrightarrow> dhcp_msg_wf (dhcp_msg_load b)"
  by (simp add: dhcp_msg_wf_def dhcp_msg_load_def dhcp_msg_size_def)

lemma length_dhcp_msg_bytes: "dhcp_msg_wf m \<Longrightarrow> length (dhcp_msg_bytes m) = dhcp_msg_size"
  by (simp add: dhcp_msg_wf_def dhcp_msg_bytes_def dhcp_msg_size_def)

lemma load_header_cong:
  assumes "take 236 b = take 236 b'" "236 \<le> length b" "236 \<le> length b'"
  shows "op (dhcp_msg_load b) = op (dhcp_msg_load b')" "htype (dhcp_msg_load b) = htype (dhcp_msg_load b')"
    "hlen (dhcp_msg_load b) = hlen (dhcp_msg_load b')" "xid (dhcp_msg_load b) = xid (dhcp_msg_load b')"
    "chaddr (dhcp_msg_load b) = chaddr (dhcp_msg_load b')"
proof -
  have nth: "b ! i = b' ! i" if "i < 236" for i
    using arg_cong [OF assms(1), of "\<lambda>xs. xs ! i"] that by simp
  show "op (dhcp_msg_load b) = op (dhcp_msg_load b')" "htype (dhcp_msg_load b) = htype (dhcp_msg_load b')"
      "hlen (dhcp_msg_load b) = hlen (dhcp_msg_load b')" "xid (dhcp_msg_load b) = xid (dhcp_msg_load b')"
    by (simp_all add: dhcp_msg_load_def load32_def nth)
  have "take 16 (drop 28 (take 236 b)) = take 16 (drop 28 (take 236 b'))" using assms(1) by simp
  then show "chaddr (dhcp_msg_load b) = chaddr (dhcp_msg_load b')"
    by (simp add: dhcp_msg_load_def drop_take)
qed

lemma received_reply:
  assumes m: "dhcp_msg_wf m" and buf: "length buf = dhcp_msg_size" and n: "n \<le> dhcp_msg_size"
    and payload: "payload = take n (dhcp_msg_bytes m)"
  shows "decode_dhcp_msg (dhcp_msg_load (splice buf 0 payload)) (int n) = decode_dhcp_msg m (int n)"
    and "is_valid_reply q (dhcp_msg_load (splice buf 0 payload)) (int n) = is_valid_reply q m (int n)"
proof -
  let ?b = "splice buf 0 payload"
  have len: "length payload = n" using payload n length_dhcp_msg_bytes [OF m] by simp
  have b: "length ?b = dhcp_msg_size" "take n ?b = take n (dhcp_msg_bytes m)"
    using buf n len payload by (simp_all add: splice_def)
  show "decode_dhcp_msg (dhcp_msg_load ?b) (int n) = decode_dhcp_msg m (int n)"
    using b n m by (intro decode_dhcp_msg_received) (simp_all add: dhcp_msg_wf_load dhcp_msg_bytes_load)
  show "is_valid_reply q (dhcp_msg_load ?b) (int n) = is_valid_reply q m (int n)"
  proof (cases "236 \<le> n")
    case True
    have "take 236 (take n ?b) = take 236 (take n (dhcp_msg_bytes m))" by (simp only: b(2))
    then have "take 236 ?b = take 236 (dhcp_msg_bytes m)" using True by (simp only: take_take min_absorb1)
    from load_header_cong [OF this] show ?thesis
      using dhcp_msg_load_bytes [OF m, of "[]"] b(1) length_dhcp_msg_bytes [OF m]
      by (simp add: is_valid_reply_def dhcp_msg_size_def)
  qed (simp add: is_valid_reply_def)
qed

end
