(* ===== verification/Sys.thy ===== *)
theory Sys
  imports Prelude "HOL-Library.State_Monad" "HOL-Library.Multiset"
begin

text \<open>
  The process state of \<open>libnetutils\<close> and its calls into the system. The kernel, netd and the
  property service are not part of the repository: they are a parameter, an oracle that answers
  a call from the history of calls so far, so that every theorem holds for all their
  behaviours. Operations are programs of the state monad over \<open>env\<close>; the trace keeps each call
  with its answer in order.
\<close>

section \<open>Calls and answers\<close>

type_synonym ifname = string

text \<open>
  The \<open>ioctl\<close> requests of \<open>ifc_utils.c\<close> with the fields of \<open>ifreq\<close> or \<open>rtentry\<close> the code
  sets. An unset \<open>sockaddr\<close> of a route is \<open>None\<close>.
\<close>

record rtentry =
  rt_dev :: ifname
  rt_dst :: "u32 option"
  rt_genmask :: "u32 option"
  rt_gateway :: "u32 option"
  rt_flags :: u16

datatype ioctl_req =
    SIOCGIFHWADDR ifname | SIOCSIFHWADDR ifname bytes
  | SIOCGIFINDEX ifname
  | SIOCGIFFLAGS ifname | SIOCSIFFLAGS ifname u16
  | SIOCGIFADDR ifname | SIOCSIFADDR ifname u32
  | SIOCGIFNETMASK ifname | SIOCSIFNETMASK ifname u32
  | SIOCADDRT rtentry | SIOCDELRT rtentry
  | SIOCKILLADDR ifname u32 | SIOCKILLADDR6 | SIOCKILLSOCK int int
  | SIOCSTXQSTATE ifname int | SIOCSCCMNICFG ifname int

datatype sock_family = Inet_Dgram | Inet6_Dgram | Inet_Stream | Netlink_Raw | Unix_Stream | Packet_Dgram

datatype sys =
    Socket sock_family | Close int | Ioctl int ioctl_req
  | Send int bytes | Recv int nat | Setsockopt int | Bind int int | Connect int string
  | Open string | Write int string
  | Fdopen int | Fprintf int string | Fputc int | Fflush int | Fread int nat | Fclose int
  | If_nametoindex ifname | Getaddrinfo string | Getpid | Fopen string
  | Property_get string | Property_set string string | Usleep nat
  | Poll int int | Sendmsg int int bytes

record answer =
  a_ret :: int
  a_errno :: int
  a_addr :: u32
  a_flags :: u16
  a_family :: nat
  a_bytes :: bytes
  a_str :: string

type_synonym history = "(sys \<times> answer) list"
type_synonym os = "history \<Rightarrow> sys \<Rightarrow> answer"

text \<open>
  The globals of \<open>ifc_utils.c\<close>: the control sockets, the recursion depth at which the calling
  thread holds each recursive mutex, and \<open>errno\<close>.
\<close>

record env =
  ifc_ctl_sock :: int
  ifc_ctl_sock6 :: int
  sock_mutex :: nat
  sock6_mutex :: nat
  errno :: int
  trace :: history

type_synonym 'a prog = "(env, 'a) state"

abbreviation ret :: "'a \<Rightarrow> 'a prog" where "ret \<equiv> State_Monad.return"
abbreviation gets :: "(env \<Rightarrow> 'a) \<Rightarrow> 'a prog" where "gets f \<equiv> State (\<lambda>e. (f e, e))"
abbreviation upd :: "(env \<Rightarrow> env) \<Rightarrow> unit prog" where "upd f \<equiv> State (\<lambda>e. ((), f e))"

text \<open>
  A call that fails sets \<open>errno\<close>; one that succeeds leaves it alone. Failure is a negative
  answer, and the answer 0 of \<open>if_nametoindex\<close>.
\<close>

definition failed :: "sys \<Rightarrow> answer \<Rightarrow> bool" where
  "failed c a \<longleftrightarrow> a_ret a < 0 \<or> (case c of If_nametoindex n \<Rightarrow> a_ret a = 0 | _ \<Rightarrow> False)"

definition sys_step :: "os \<Rightarrow> sys \<Rightarrow> env \<Rightarrow> env" where
  "sys_step os c e =
     (let a = os (trace e) c
      in e\<lparr>errno := (if failed c a then a_errno a else errno e), trace := trace e @ [(c, a)]\<rparr>)"

definition sys_call :: "os \<Rightarrow> sys \<Rightarrow> answer prog" where
  "sys_call os c = State (\<lambda>e. (os (trace e) c, sys_step os c e))"

named_theorems run_simps \<open>running programs\<close>

lemma run_sys_call [run_simps]: "run_state (sys_call os c) e = (os (trace e) c, sys_step os c e)"
  by (simp add: sys_call_def)

lemma sys_step_fields [run_simps]:
  "ifc_ctl_sock (sys_step os c e) = ifc_ctl_sock e"
  "ifc_ctl_sock6 (sys_step os c e) = ifc_ctl_sock6 e"
  "sock_mutex (sys_step os c e) = sock_mutex e"
  "sock6_mutex (sys_step os c e) = sock6_mutex e"
  "errno (sys_step os c e) = (if failed c (os (trace e) c) then a_errno (os (trace e) c) else errno e)"
  "trace (sys_step os c e) = trace e @ [(c, os (trace e) c)]"
  by (simp_all add: sys_step_def Let_def)

lemmas monad_simps = split_beta Let_def

section \<open>Descriptors\<close>

text \<open>The descriptors a history has opened and not closed.\<close>

fun open_fds :: "history \<Rightarrow> int multiset \<Rightarrow> int multiset" where
  "open_fds [] fds = fds"
| "open_fds ((c, a) # h) fds = open_fds h
     (case c of
        Socket f \<Rightarrow> (if 0 \<le> a_ret a then add_mset (a_ret a) fds else fds)
      | Fopen p \<Rightarrow> (if 0 \<le> a_ret a then add_mset (a_ret a) fds else fds)
      | Open p \<Rightarrow> (if 0 \<le> a_ret a then add_mset (a_ret a) fds else fds)
      | Close fd \<Rightarrow> fds - {#fd#}
      | Fclose fd \<Rightarrow> fds - {#fd#}
      | _ \<Rightarrow> fds)"

lemma open_fds_append [simp]: "open_fds (h @ h') fds = open_fds h' (open_fds h fds)"
  by (induction h fds rule: open_fds.induct) simp_all

section \<open>Numbers and addresses as text\<close>

function dec_nat :: "nat \<Rightarrow> string" where
  "dec_nat n = (if n < 10 then [char_of (48 + n)] else dec_nat (n div 10) @ [char_of (48 + n mod 10)])"
  by pat_completeness auto
termination by (relation "measure id") auto

declare dec_nat.simps [simp del]

definition dec :: "int \<Rightarrow> string" where
  "dec i = (if i < 0 then CHR ''-'' # dec_nat (nat (- i)) else dec_nat (nat i))"

text \<open>\<open>inet_ntoa\<close>: the four bytes of the address in memory order.\<close>

definition inet_ntoa :: "u32 \<Rightarrow> string" where
  "inet_ntoa addr =
     (case bytes32 addr of
        [a, b, c, d] \<Rightarrow>
          dec (uint a) @ ''.'' @ dec (uint b) @ ''.'' @ dec (uint c) @ ''.'' @ dec (uint d)
      | _ \<Rightarrow> [])"

section \<open>Triples\<close>

definition triple :: "(env \<Rightarrow> bool) \<Rightarrow> 'a prog \<Rightarrow> ('a \<Rightarrow> env \<Rightarrow> bool) \<Rightarrow> bool" where
  "triple P m Q \<longleftrightarrow> (\<forall>e. P e \<longrightarrow> Q (fst (run_state m e)) (snd (run_state m e)))"

named_theorems triple_rules \<open>rules for triples, applied backwards\<close>

lemma tripleI: "(\<And>e. P e \<Longrightarrow> Q (fst (run_state m e)) (snd (run_state m e))) \<Longrightarrow> triple P m Q"
  by (simp add: triple_def)

lemma tripleD: "triple P m Q \<Longrightarrow> P e \<Longrightarrow> Q (fst (run_state m e)) (snd (run_state m e))"
  by (simp add: triple_def)

lemma triple_bind:
  "triple P m R \<Longrightarrow> (\<And>x. triple (R x) (f x) Q) \<Longrightarrow> triple P (State_Monad.bind m f) Q"
  by (auto simp: triple_def split_beta)

lemma triple_ret: "triple (Q x) (ret x) Q"
  by (simp add: triple_def)

lemma triple_conseq:
  "triple P m Q \<Longrightarrow> (\<And>e. P' e \<Longrightarrow> P e) \<Longrightarrow> (\<And>x e. Q x e \<Longrightarrow> Q' x e) \<Longrightarrow> triple P' m Q'"
  by (auto simp: triple_def)

text \<open>Programs that keep a predicate whatever they return.\<close>

definition keeps :: "(env \<Rightarrow> bool) \<Rightarrow> 'a prog \<Rightarrow> bool" where
  "keeps P m \<longleftrightarrow> triple P m (\<lambda>_. P)"

lemma keepsD: "keeps P m \<Longrightarrow> P e \<Longrightarrow> P (snd (run_state m e))"
  by (auto simp: keeps_def dest: tripleD)

lemma keeps_ret [triple_rules]: "keeps P (ret x)"
  by (simp add: keeps_def triple_def)

lemma keeps_gets [triple_rules]: "keeps P (gets f)"
  by (simp add: keeps_def triple_def)

lemma keeps_bind [triple_rules]:
  "keeps P m \<Longrightarrow> (\<And>x. keeps P (f x)) \<Longrightarrow> keeps P (State_Monad.bind m f)"
  unfolding keeps_def by (rule triple_bind)

lemma keeps_if [triple_rules]:
  "(b \<Longrightarrow> keeps P m) \<Longrightarrow> (\<not> b \<Longrightarrow> keeps P m') \<Longrightarrow> keeps P (if b then m else m')"
  by simp

lemma keeps_prod [triple_rules]:
  "(\<And>a b. x = (a, b) \<Longrightarrow> keeps P (f a b)) \<Longrightarrow> keeps P (case x of (a, b) \<Rightarrow> f a b)"
  by (cases x) simp

lemma keeps_option [triple_rules]:
  "(x = None \<Longrightarrow> keeps P m) \<Longrightarrow> (\<And>a. x = Some a \<Longrightarrow> keeps P (f a)) \<Longrightarrow>
     keeps P (case x of None \<Rightarrow> m | Some a \<Rightarrow> f a)"
  by (cases x) simp_all

section \<open>Held resources\<close>

text \<open>
  The books of a thread: the descriptors it has open are \<open>F\<close> and the control sockets, and the
  mutexes are held \<open>k\<close> and \<open>k6\<close> times. \<open>neutral\<close> programs keep any books.
\<close>

definition held :: "int \<Rightarrow> int multiset" where
  "held s = (if 0 \<le> s then {#s#} else {#})"

definition books :: "int multiset \<Rightarrow> nat \<Rightarrow> nat \<Rightarrow> env \<Rightarrow> bool" where
  "books F k k6 e \<longleftrightarrow> open_fds (trace e) {#} = F + held (ifc_ctl_sock e) + held (ifc_ctl_sock6 e) \<and>
     sock_mutex e = k \<and> sock6_mutex e = k6 \<and> (\<forall>fd \<in># F. 0 \<le> fd)"

definition neutral :: "'a prog \<Rightarrow> bool" where
  "neutral m \<longleftrightarrow> (\<forall>F k k6. keeps (books F k k6) m)"

definition quiet_call :: "sys \<Rightarrow> bool" where
  "quiet_call c \<longleftrightarrow> (\<forall>a fds. open_fds [(c, a)] fds = fds)"

lemma neutralI: "(\<And>F k k6. keeps (books F k k6) m) \<Longrightarrow> neutral m"
  by (simp add: neutral_def)

lemma neutral_ret [triple_rules]: "neutral (ret x)"
  and neutral_gets [triple_rules]: "neutral (gets f)"
  by (simp_all add: neutral_def triple_rules)

lemma neutral_bind [triple_rules]:
  "neutral m \<Longrightarrow> (\<And>x. neutral (f x)) \<Longrightarrow> neutral (State_Monad.bind m f)"
  by (simp add: neutral_def keeps_bind)

lemma neutral_if [triple_rules]:
  "(b \<Longrightarrow> neutral m) \<Longrightarrow> (\<not> b \<Longrightarrow> neutral m') \<Longrightarrow> neutral (if b then m else m')"
  by simp

lemma neutral_prod [triple_rules]:
  "(\<And>a b. x = (a, b) \<Longrightarrow> neutral (f a b)) \<Longrightarrow> neutral (case x of (a, b) \<Rightarrow> f a b)"
  by (cases x) simp

lemma neutral_option [triple_rules]:
  "(x = None \<Longrightarrow> neutral m) \<Longrightarrow> (\<And>a. x = Some a \<Longrightarrow> neutral (f a)) \<Longrightarrow>
     neutral (case x of None \<Rightarrow> m | Some a \<Rightarrow> f a)"
  by (cases x) simp_all

lemma neutral_call: "quiet_call c \<Longrightarrow> neutral (sys_call os c)"
  by (simp add: neutral_def keeps_def triple_def books_def quiet_call_def run_simps)

lemma quiet_calls [simp]:
  "quiet_call (Ioctl fd req)" "quiet_call (Send fd bs)" "quiet_call (Recv fd n)"
  "quiet_call (Setsockopt fd)" "quiet_call (Bind fd i)" "quiet_call (Connect fd p)"
  "quiet_call (Write fd str)" "quiet_call (Fdopen fd)" "quiet_call (Fprintf fd str)"
  "quiet_call (Fputc fd)" "quiet_call (Fflush fd)" "quiet_call (Fread fd n)"
  "quiet_call (If_nametoindex str)" "quiet_call (Getaddrinfo str)" "quiet_call Getpid"
  "quiet_call (Property_get str)" "quiet_call (Property_set str val)" "quiet_call (Usleep n)"
  "quiet_call (Poll fd t)" "quiet_call (Sendmsg fd i bs)"
  by (simp_all add: quiet_call_def)

lemma books_open:
  assumes "c = Socket f \<or> c = Open p \<or> c = Fopen p"
  shows "triple (books F k k6) (sys_call os c)
    (\<lambda>a. if 0 \<le> a_ret a then books (add_mset (a_ret a) F) k k6 else books F k k6)"
  using assms by (auto simp: triple_def books_def run_simps)

lemma books_close:
  assumes "c = Close fd \<or> c = Fclose fd"
  shows "triple (books (add_mset fd F) k k6) (sys_call os c) (\<lambda>_. books F k k6)"
  using assms by (auto simp: triple_def books_def run_simps)

text \<open>Programs that give back one descriptor, and the rule for a program that opens one.\<close>

definition releases :: "int \<Rightarrow> 'a prog \<Rightarrow> bool" where
  "releases fd m \<longleftrightarrow> (\<forall>F k k6. triple (books (add_mset fd F) k k6) m (\<lambda>_. books F k k6))"

lemma releases_close:
  assumes "c = Close fd \<or> c = Fclose fd" and "\<And>x. neutral (f x)"
  shows "releases fd (State_Monad.bind (sys_call os c) f)"
  unfolding releases_def
  using books_close [OF assms(1)] assms(2) [unfolded neutral_def keeps_def] by (blast intro: triple_bind)

lemma releases_bind:
  "neutral m \<Longrightarrow> (\<And>x. releases fd (f x)) \<Longrightarrow> releases fd (State_Monad.bind m f)"
  unfolding releases_def neutral_def keeps_def by (blast intro: triple_bind)

lemma releases_if:
  "(b \<Longrightarrow> releases fd m) \<Longrightarrow> (\<not> b \<Longrightarrow> releases fd m') \<Longrightarrow> releases fd (if b then m else m')"
  by simp

lemma neutral_open:
  assumes c: "c = Socket fam \<or> c = Open p \<or> c = Fopen p"
    and err: "\<And>a. a_ret a < 0 \<Longrightarrow> neutral (f a)"
    and ok: "\<And>a. 0 \<le> a_ret a \<Longrightarrow> releases (a_ret a) (f a)"
  shows "neutral (State_Monad.bind (sys_call os c) f)"
  unfolding neutral_def keeps_def
proof (intro allI triple_bind)
  fix F k k6
  show "triple (books F k k6) (sys_call os c)
      (\<lambda>a. if 0 \<le> a_ret a then books (add_mset (a_ret a) F) k k6 else books F k k6)"
    by (rule books_open [OF c])
  show "triple (if 0 \<le> a_ret a then books (add_mset (a_ret a) F) k k6 else books F k k6) (f a)
      (\<lambda>_. books F k k6)" for a
    using err [of a] ok [of a] by (cases "0 \<le> a_ret a") (auto simp: neutral_def keeps_def releases_def)
qed

lemmas fd_rules = releases_close releases_if releases_bind neutral_call triple_rules

end
