(* ===== verification/Ifc.thy ===== *)
theory Ifc
  imports Sys Dhcp_Msg
begin

text \<open>
  Interface configuration, \<open>system/core/libnetutils/ifc_utils.c\<close>: the shared control socket
  under its recursive mutex, the \<open>ioctl\<close> wrappers, the netlink address messages, routes,
  connection resets and \<open>ifc_configure\<close>. The lemmas show that every bracketed operation gives
  the mutex back and leaves no descriptor open, which bits a flag change touches, what a
  successful \<open>ifc_configure\<close> has told the kernel, and that the netlink messages are well
  formed.
\<close>

section \<open>The control socket\<close>

abbreviation EEXIST :: int where "EEXIST \<equiv> 17"
abbreviation EFAULT :: int where "EFAULT \<equiv> 14"
abbreviation EINVAL :: int where "EINVAL \<equiv> 22"
abbreviation EAFNOSUPPORT :: int where "EAFNOSUPPORT \<equiv> 97"
abbreviation IFF_UP :: u32 where "IFF_UP \<equiv> 1"
abbreviation IFF_ALLMULTI :: u32 where "IFF_ALLMULTI \<equiv> 0x200"
abbreviation RTF_UP :: u16 where "RTF_UP \<equiv> 1"
abbreviation RTF_GATEWAY :: u16 where "RTF_GATEWAY \<equiv> 2"
abbreviation RTF_HOST :: u16 where "RTF_HOST \<equiv> 4"

definition ifc_init :: "os \<Rightarrow> int prog" where
  "ifc_init os = do {
     upd (\<lambda>e. e\<lparr>sock_mutex := sock_mutex e + 1\<rparr>);
     s \<leftarrow> gets ifc_ctl_sock;
     _ \<leftarrow> (if s = -1
           then do { a \<leftarrow> sys_call os (Socket Inet_Dgram); upd (\<lambda>e. e\<lparr>ifc_ctl_sock := a_ret a\<rparr>) }
           else ret ());
     s \<leftarrow> gets ifc_ctl_sock;
     ret (if s < 0 then -1 else 0)
   }"

definition ifc_init6 :: "os \<Rightarrow> int prog" where
  "ifc_init6 os = do {
     upd (\<lambda>e. e\<lparr>sock6_mutex := sock6_mutex e + 1\<rparr>);
     s \<leftarrow> gets ifc_ctl_sock6;
     _ \<leftarrow> (if s = -1
           then do { a \<leftarrow> sys_call os (Socket Inet6_Dgram); upd (\<lambda>e. e\<lparr>ifc_ctl_sock6 := a_ret a\<rparr>) }
           else ret ());
     s \<leftarrow> gets ifc_ctl_sock6;
     ret (if s < 0 then -1 else 0)
   }"

definition ifc_close :: "os \<Rightarrow> unit prog" where
  "ifc_close os = do {
     s \<leftarrow> gets ifc_ctl_sock;
     _ \<leftarrow> (if s \<noteq> -1
           then do { _ \<leftarrow> sys_call os (Close s); upd (\<lambda>e. e\<lparr>ifc_ctl_sock := -1\<rparr>) }
           else ret ());
     upd (\<lambda>e. e\<lparr>sock_mutex := sock_mutex e - 1\<rparr>)
   }"

definition ifc_close6 :: "os \<Rightarrow> unit prog" where
  "ifc_close6 os = do {
     s \<leftarrow> gets ifc_ctl_sock6;
     _ \<leftarrow> (if s \<noteq> -1
           then do { _ \<leftarrow> sys_call os (Close s); upd (\<lambda>e. e\<lparr>ifc_ctl_sock6 := -1\<rparr>) }
           else ret ());
     upd (\<lambda>e. e\<lparr>sock6_mutex := sock6_mutex e - 1\<rparr>)
   }"

text \<open>\<open>ifr_name\<close> holds at most \<open>IFNAMSIZ - 1\<close> characters of the name.\<close>

definition ifc_init_ifr :: "string \<Rightarrow> ifname" where
  "ifc_init_ifr name = take 15 name"

definition ioctl :: "os \<Rightarrow> ioctl_req \<Rightarrow> answer prog" where
  "ioctl os req = do { s \<leftarrow> gets ifc_ctl_sock; sys_call os (Ioctl s req) }"

section \<open>Requests on the control socket\<close>

text \<open>Output parameters are \<open>Some\<close> when the source stores through the pointer.\<close>

definition ifc_get_hwaddr :: "os \<Rightarrow> string \<Rightarrow> (int \<times> bytes option) prog" where
  "ifc_get_hwaddr os name = do {
     r \<leftarrow> ioctl os (SIOCGIFHWADDR (ifc_init_ifr name));
     if a_ret r < 0 then ret (-1, None) else ret (0, Some (take 6 (a_bytes r)))
   }"

definition ifc_get_ifindex :: "os \<Rightarrow> string \<Rightarrow> (int \<times> int option) prog" where
  "ifc_get_ifindex os name = do {
     r \<leftarrow> ioctl os (SIOCGIFINDEX (ifc_init_ifr name));
     if a_ret r < 0 then ret (-1, None) else ret (0, Some (sint (a_addr r)))
   }"

definition ifc_set_flags :: "os \<Rightarrow> string \<Rightarrow> u32 \<Rightarrow> u32 \<Rightarrow> int prog" where
  "ifc_set_flags os name setb clr = do {
     r \<leftarrow> ioctl os (SIOCGIFFLAGS (ifc_init_ifr name));
     if a_ret r < 0 then ret (-1)
     else do {
       r \<leftarrow> ioctl os (SIOCSIFFLAGS (ifc_init_ifr name) (ucast ((scast (a_flags r) AND NOT clr) OR setb)));
       ret (a_ret r)
     }
   }"

definition ifc_up :: "os \<Rightarrow> string \<Rightarrow> int prog" where
  "ifc_up os name = ifc_set_flags os name IFF_UP 0"

definition ifc_down :: "os \<Rightarrow> string \<Rightarrow> int prog" where
  "ifc_down os name = ifc_set_flags os name 0 IFF_UP"

definition ifc_set_addr :: "os \<Rightarrow> string \<Rightarrow> u32 \<Rightarrow> int prog" where
  "ifc_set_addr os name addr = do { r \<leftarrow> ioctl os (SIOCSIFADDR (ifc_init_ifr name) addr); ret (a_ret r) }"

definition ifc_set_hwaddr :: "os \<Rightarrow> string \<Rightarrow> bytes \<Rightarrow> int prog" where
  "ifc_set_hwaddr os name hw =
     do { r \<leftarrow> ioctl os (SIOCSIFHWADDR (ifc_init_ifr name) (take 6 hw)); ret (a_ret r) }"

definition ifc_set_mask :: "os \<Rightarrow> string \<Rightarrow> u32 \<Rightarrow> int prog" where
  "ifc_set_mask os name msk = do { r \<leftarrow> ioctl os (SIOCSIFNETMASK (ifc_init_ifr name) msk); ret (a_ret r) }"

definition ifc_set_prefixLength :: "os \<Rightarrow> string \<Rightarrow> int \<Rightarrow> int prog" where
  "ifc_set_prefixLength os name prefixLength =
     (if 32 < prefixLength \<or> prefixLength < 0 then ret (-1)
      else do {
        r \<leftarrow> ioctl os (SIOCSIFNETMASK (ifc_init_ifr name) (prefixLengthToIpv4Netmask prefixLength));
        ret (a_ret r)
      })"

definition ifc_get_addr :: "os \<Rightarrow> string \<Rightarrow> (int \<times> u32) prog" where
  "ifc_get_addr os name = do {
     r \<leftarrow> ioctl os (SIOCGIFADDR (ifc_init_ifr name));
     ret (a_ret r, if a_ret r < 0 then 0 else a_addr r)
   }"

text \<open>\<open>ifc_get_info\<close> with the three output pointers given or \<open>NULL\<close>.\<close>

definition ifc_get_info :: "os \<Rightarrow> string \<Rightarrow> bool \<Rightarrow> bool \<Rightarrow> bool \<Rightarrow> (int \<times> u32 option \<times> int option \<times> u32 option) prog" where
  "ifc_get_info os name want_addr want_prefix want_flags = do {
     addr \<leftarrow> (if want_addr then do {
                  r \<leftarrow> ioctl os (SIOCGIFADDR (ifc_init_ifr name));
                  ret (Some (if a_ret r < 0 then 0 else a_addr r)) }
               else ret None);
     pl \<leftarrow> (if want_prefix then do {
                  r \<leftarrow> ioctl os (SIOCGIFNETMASK (ifc_init_ifr name));
                  ret (Some (if a_ret r < 0 then 0 else ipv4NetmaskToPrefixLength (a_addr r))) }
               else ret None);
     fl \<leftarrow> (if want_flags then do {
                  r \<leftarrow> ioctl os (SIOCGIFFLAGS (ifc_init_ifr name));
                  ret (Some (if a_ret r < 0 then 0 else scast (a_flags r))) }
               else ret None);
     ret (0, addr, pl, fl)
   }"

definition ifc_is_up :: "os \<Rightarrow> string \<Rightarrow> (int \<times> u32 option) prog" where
  "ifc_is_up os name = do {
     r \<leftarrow> ioctl os (SIOCGIFFLAGS (ifc_init_ifr name));
     if a_ret r < 0 then ret (-1, None)
     else ret (0, Some (if scast (a_flags r) AND IFF_UP \<noteq> 0 then 1 else 0))
   }"

section \<open>Addresses over netlink\<close>

abbreviation AF_INET :: nat where "AF_INET \<equiv> 2"
abbreviation AF_INET6 :: nat where "AF_INET6 \<equiv> 10"
abbreviation RTM_NEWADDR :: u16 where "RTM_NEWADDR \<equiv> 20"
abbreviation RTM_DELADDR :: u16 where "RTM_DELADDR \<equiv> 21"
abbreviation IFA_LOCAL :: u16 where "IFA_LOCAL \<equiv> 2"
abbreviation IFA_BROADCAST :: u16 where "IFA_BROADCAST \<equiv> 4"
abbreviation NLMSG_ERROR :: u16 where "NLMSG_ERROR \<equiv> 2"

definition string_to_ip :: "os \<Rightarrow> string \<Rightarrow> bool \<Rightarrow> (int \<times> nat \<times> bytes) prog" where
  "string_to_ip os str ss_null =
     (if ss_null then ret (- EFAULT, 0, [])
      else do {
        a \<leftarrow> sys_call os (Getaddrinfo str);
        ret (if a_ret a = 0 then (0, a_family a, a_bytes a) else (a_ret a, 0, []))
      })"

text \<open>\<open>NLMSG_ALIGN\<close> and \<open>RTA_LENGTH\<close>; the request of the source is a header of 16 bytes, an
  \<open>ifaddrmsg\<close> of 8 and 44 bytes of attributes, kept here apart from its \<open>nlmsg_len\<close>.\<close>

definition nlmsg_align :: "nat \<Rightarrow> nat" where "nlmsg_align n = (n + 3) div 4 * 4"
definition rta_length :: "nat \<Rightarrow> nat" where "rta_length n = 4 + n"

record nl_req =
  nlmsg_len :: nat
  nl_buf :: bytes

definition nl_bytes :: "nl_req \<Rightarrow> bytes" where
  "nl_bytes req = splice (nl_buf req) 0 (bytes32 (of_nat (nlmsg_len req)))"

definition nl_init :: "u16 \<Rightarrow> nat \<Rightarrow> int \<Rightarrow> int \<Rightarrow> int \<Rightarrow> nl_req" where
  "nl_init action family prefixlen ifindex pid = \<lparr>
     nlmsg_len = 16 + 8,
     nl_buf = bytes32 0 @ bytes16 action @ bytes16 (1 OR 4) @ bytes32 0 @ bytes32 (of_int pid) @
       [of_nat family, of_int prefixlen, 0, 0] @ bytes32 (of_int ifindex) @
       replicate (16 + 4 + 16 + 4 + 4) 0\<rparr>"

definition nl_attr :: "u16 \<Rightarrow> bytes \<Rightarrow> nl_req \<Rightarrow> nl_req" where
  "nl_attr rta_type addr req =
     (let off = nlmsg_align (nlmsg_len req); l = rta_length (length addr)
      in \<lparr>nlmsg_len = off + l,
          nl_buf = splice (nl_buf req) off (bytes16 (of_nat l) @ bytes16 rta_type @ addr)\<rparr>)"

text \<open>\<open>s_addr |= htonl((1<<(32-prefixlen))-1)\<close>: outside 2..32 the shift or the subtraction is
  undefined on a 32-bit \<open>int\<close>.\<close>

definition broadcast_addr :: "bytes \<Rightarrow> int \<Rightarrow> bytes option" where
  "broadcast_addr addr prefixlen =
     (if 2 \<le> prefixlen \<and> prefixlen \<le> 32
      then Some (bytes32 (load32 addr 0 OR htonl (push_bit (nat (32 - prefixlen)) 1 - 1)))
      else None)"

definition addr_request :: "u16 \<Rightarrow> nat \<Rightarrow> bytes \<Rightarrow> int \<Rightarrow> int \<Rightarrow> int \<Rightarrow> nl_req option" where
  "addr_request action family addr prefixlen ifindex pid =
     (let req = nl_attr IFA_LOCAL addr (nl_init action family prefixlen ifindex pid)
      in if family = AF_INET \<and> action = RTM_NEWADDR
         then map_option (\<lambda>b. nl_attr IFA_BROADCAST b req) (broadcast_addr addr prefixlen)
         else Some req)"

text \<open>Reading the acknowledgement: \<open>buf\<close> is the 52-byte buffer after \<open>recv\<close> returned \<open>len\<close>.\<close>

definition nlmsg_ok :: "bytes \<Rightarrow> nat \<Rightarrow> bool" where
  "nlmsg_ok buf len \<longleftrightarrow> 16 \<le> len \<and> 16 \<le> unat (load32 buf 0) \<and> unat (load32 buf 0) \<le> len"

definition parse_ack :: "bytes \<Rightarrow> nat \<Rightarrow> int" where
  "parse_ack buf len =
     (if \<not> nlmsg_ok buf len \<or> load16 buf 4 \<noteq> NLMSG_ERROR then - EINVAL else sint (load32 buf 16))"

text \<open>The result is \<open>None\<close> where the source's behaviour is undefined. \<open>stack\<close> is the earlier
  content of the receive buffer.\<close>

definition ifc_act_on_address :: "os \<Rightarrow> bytes \<Rightarrow> u16 \<Rightarrow> string \<Rightarrow> string \<Rightarrow> int \<Rightarrow> int option prog" where
  "ifc_act_on_address os stack action name address prefixlen = do {
     idx \<leftarrow> sys_call os (If_nametoindex name);
     if a_ret idx = 0 then do { e \<leftarrow> gets errno; ret (Some (- e)) }
     else do {
       (r, family, bs) \<leftarrow> string_to_ip os address False;
       if r \<noteq> 0 then ret (Some r)
       else if family \<noteq> AF_INET \<and> family \<noteq> AF_INET6 then ret (Some (- EAFNOSUPPORT))
       else do {
         pid \<leftarrow> sys_call os Getpid;
         let addr = take (if family = AF_INET then 4 else 16) bs;
         case addr_request action family addr prefixlen (a_ret idx) (a_ret pid) of
           None \<Rightarrow> ret None
         | Some req \<Rightarrow> do {
             s \<leftarrow> sys_call os (Socket Netlink_Raw);
             if a_ret s < 0 then do { e \<leftarrow> gets errno; ret (Some (- e)) }
             else do {
               sent \<leftarrow> sys_call os (Send (a_ret s) (take (nlmsg_len req) (nl_bytes req)));
               if a_ret sent < 0 then do {
                 saved_errno \<leftarrow> gets errno;
                 _ \<leftarrow> sys_call os (Close (a_ret s));
                 ret (Some (- saved_errno))
               }
               else do {
                 got \<leftarrow> sys_call os (Recv (a_ret s) 52);
                 saved_errno \<leftarrow> gets errno;
                 _ \<leftarrow> sys_call os (Close (a_ret s));
                 if a_ret got < 0 then ret (Some (- saved_errno))
                 else ret (Some (parse_ack (splice stack 0 (take (nat (a_ret got)) (a_bytes got)))
                                   (nat (a_ret got))))
               }
             }
           }
       }
     }
   }"

definition ifc_add_address :: "os \<Rightarrow> bytes \<Rightarrow> string \<Rightarrow> string \<Rightarrow> int \<Rightarrow> int option prog" where
  "ifc_add_address os stack name address prefixlen =
     ifc_act_on_address os stack RTM_NEWADDR name address prefixlen"

definition ifc_del_address :: "os \<Rightarrow> bytes \<Rightarrow> string \<Rightarrow> string \<Rightarrow> int \<Rightarrow> int option prog" where
  "ifc_del_address os stack name address prefixlen =
     ifc_act_on_address os stack RTM_DELADDR name address prefixlen"

text \<open>The loop that puts the colons back into an address of 32 digits.\<close>

fun colons :: "string \<Rightarrow> string" where
  "colons (a # b # c # d # rest) = a # b # c # d # CHR '':'' # colons rest"
| "colons rest = rest"

definition addrstr_of :: "string \<Rightarrow> string" where
  "addrstr_of raw = butlast (colons (take 32 raw))"

text \<open>
  \<open>ifc_clear_ipv6_addresses\<close>: \<open>entries\<close> is what the calls of \<open>fscanf\<close> deliver, address digits,
  prefix length and interface, until one does not convert three fields.
\<close>

fun clear_ipv6_loop :: "os \<Rightarrow> bytes \<Rightarrow> string \<Rightarrow> (string \<times> nat \<times> string) list \<Rightarrow> int \<Rightarrow> int prog" where
  "clear_ipv6_loop os stack name [] lasterror = ret lasterror"
| "clear_ipv6_loop os stack name ((raw, prefixlen, ifn) # entries) lasterror =
     (if name \<noteq> ifn then clear_ipv6_loop os stack name entries lasterror
      else let addrstr = addrstr_of raw
           in if take 5 addrstr = ''fe80:'' then clear_ipv6_loop os stack name entries lasterror
              else do {
                r \<leftarrow> ifc_del_address os stack ifn addrstr (int prefixlen);
                clear_ipv6_loop os stack name entries
                  (case r of Some v \<Rightarrow> (if v \<noteq> 0 then v else lasterror) | None \<Rightarrow> lasterror)
              })"

definition ifc_clear_ipv6_addresses :: "os \<Rightarrow> bytes \<Rightarrow> (string \<times> nat \<times> string) list \<Rightarrow> string \<Rightarrow> int prog" where
  "ifc_clear_ipv6_addresses os stack entries name = do {
     f \<leftarrow> sys_call os (Fopen ''/proc/net/if_inet6'');
     if a_ret f < 0 then do { e \<leftarrow> gets errno; ret (- e) }
     else do {
       lasterror \<leftarrow> clear_ipv6_loop os stack name entries 0;
       _ \<leftarrow> sys_call os (Fclose (a_ret f));
       ret lasterror
     }
   }"

section \<open>Bracketed operations\<close>

text \<open>The loop shared by \<open>ifc_clear_ipv4_addresses\<close> and \<open>ifc_disable\<close>; \<open>n\<close> is \<open>255 - count\<close>.\<close>

fun clear_ipv4_loop :: "os \<Rightarrow> string \<Rightarrow> nat \<Rightarrow> u32 \<Rightarrow> unit prog" where
  "clear_ipv4_loop os name 0 addr = ret ()"
| "clear_ipv4_loop os name (Suc n) addr =
     (if addr = 0 then ret ()
      else do {
        (r, addr') \<leftarrow> ifc_get_addr os name;
        if r < 0 then ret ()
        else do {
          _ \<leftarrow> (if addr' \<noteq> 0 then ifc_set_addr os name 0 else ret 0);
          clear_ipv4_loop os name n addr'
        }
      })"

definition ifc_clear_ipv4_addresses :: "os \<Rightarrow> string \<Rightarrow> unit prog" where
  "ifc_clear_ipv4_addresses os name = do {
     _ \<leftarrow> ifc_init os;
     _ \<leftarrow> clear_ipv4_loop os name 255 1;
     ifc_close os
   }"

definition ifc_clear_addresses :: "os \<Rightarrow> bytes \<Rightarrow> (string \<times> nat \<times> string) list \<Rightarrow> string \<Rightarrow> int prog" where
  "ifc_clear_addresses os stack entries name = do {
     _ \<leftarrow> ifc_clear_ipv4_addresses os name;
     ifc_clear_ipv6_addresses os stack entries name
   }"

datatype rt_action = ADDRT | DELRT

definition rt_req :: "rt_action \<Rightarrow> rtentry \<Rightarrow> ioctl_req" where
  "rt_req action rt = (case action of ADDRT \<Rightarrow> SIOCADDRT rt | DELRT \<Rightarrow> SIOCDELRT rt)"

definition ipv4_rtentry :: "string \<Rightarrow> u32 \<Rightarrow> int \<Rightarrow> u32 \<Rightarrow> rtentry" where
  "ipv4_rtentry ifn dst prefix_length gw =
     (let rt = \<lparr>rt_dev = ifn, rt_dst = Some dst,
                rt_genmask = Some (prefixLengthToIpv4Netmask prefix_length), rt_gateway = None,
                rt_flags = RTF_UP\<rparr>;
          rt = (if prefix_length = 32 then rt\<lparr>rt_flags := rt_flags rt OR RTF_HOST\<rparr> else rt)
      in if gw \<noteq> 0 then rt\<lparr>rt_flags := rt_flags rt OR RTF_GATEWAY, rt_gateway := Some gw\<rparr> else rt)"

definition ifc_act_on_ipv4_route :: "os \<Rightarrow> rt_action \<Rightarrow> string \<Rightarrow> u32 \<Rightarrow> int \<Rightarrow> u32 \<Rightarrow> int prog" where
  "ifc_act_on_ipv4_route os action ifn dst prefix_length gw = do {
     _ \<leftarrow> ifc_init os;
     s \<leftarrow> gets ifc_ctl_sock;
     if s < 0 then do { _ \<leftarrow> ifc_close os; e \<leftarrow> gets errno; ret (- e) }
     else do {
       r \<leftarrow> ioctl os (rt_req action (ipv4_rtentry ifn dst prefix_length gw));
       e \<leftarrow> gets errno;
       let result = (if a_ret r < 0 then (if e = EEXIST then 0 else - e) else a_ret r);
       _ \<leftarrow> ifc_close os;
       ret result
     }
   }"

definition ifc_create_default_route :: "os \<Rightarrow> string \<Rightarrow> u32 \<Rightarrow> int prog" where
  "ifc_create_default_route os name gw = ifc_act_on_ipv4_route os ADDRT name 0 0 gw"

definition ifc_enable :: "os \<Rightarrow> string \<Rightarrow> int prog" where
  "ifc_enable os ifn = do { _ \<leftarrow> ifc_init os; result \<leftarrow> ifc_up os ifn; _ \<leftarrow> ifc_close os; ret result }"

definition ifc_disable :: "os \<Rightarrow> string \<Rightarrow> int prog" where
  "ifc_disable os ifn = do {
     _ \<leftarrow> ifc_init os;
     result \<leftarrow> ifc_down os ifn;
     _ \<leftarrow> ifc_set_addr os ifn 0;
     _ \<leftarrow> clear_ipv4_loop os ifn 255 1;
     _ \<leftarrow> ifc_close os;
     ret result
   }"

abbreviation RESET_IPV4_ADDRESSES :: u32 where "RESET_IPV4_ADDRESSES \<equiv> 1"
abbreviation RESET_IPV6_ADDRESSES :: u32 where "RESET_IPV6_ADDRESSES \<equiv> 2"
abbreviation RESET_IGNORE_INTERFACE_ADDRESS :: u32 where "RESET_IGNORE_INTERFACE_ADDRESS \<equiv> 4"

definition ifc_reset_connections :: "os \<Rightarrow> string \<Rightarrow> u32 \<Rightarrow> int prog" where
  "ifc_reset_connections os ifn reset_mask = do {
     result \<leftarrow>
       (if reset_mask AND RESET_IPV4_ADDRESSES \<noteq> 0 then do {
          _ \<leftarrow> ifc_init os;
          myaddr \<leftarrow> (if reset_mask AND RESET_IGNORE_INTERFACE_ADDRESS = 0
                     then do { (r, addr, pl, fl) \<leftarrow> ifc_get_info os ifn True False False;
                               ret (case addr of Some v \<Rightarrow> v | None \<Rightarrow> 0) }
                     else ret 0);
          r \<leftarrow> ioctl os (SIOCKILLADDR (ifc_init_ifr ifn) myaddr);
          _ \<leftarrow> ifc_close os;
          ret (a_ret r)
        }
        else ret 0);
     if reset_mask AND RESET_IPV6_ADDRESSES \<noteq> 0 then do {
       _ \<leftarrow> ifc_init6 os;
       s \<leftarrow> gets ifc_ctl_sock6;
       r \<leftarrow> sys_call os (Ioctl s SIOCKILLADDR6);
       _ \<leftarrow> ifc_close6 os;
       ret (if result = 0 then a_ret r else result)
     }
     else ret result
   }"

definition ifc_remove_default_route :: "os \<Rightarrow> string \<Rightarrow> int prog" where
  "ifc_remove_default_route os ifn = do {
     _ \<leftarrow> ifc_init os;
     r \<leftarrow> ioctl os (SIOCDELRT \<lparr>rt_dev = ifn, rt_dst = Some 0, rt_genmask = None, rt_gateway = None,
                              rt_flags = RTF_UP OR RTF_GATEWAY\<rparr>);
     _ \<leftarrow> ifc_close os;
     ret (a_ret r)
   }"

text \<open>The property key is cut to \<open>PROPERTY_KEY_MAX - 1\<close> characters by \<open>snprintf\<close>.\<close>

definition dns_prop_name :: "string \<Rightarrow> string \<Rightarrow> string" where
  "dns_prop_name ifn which = take 31 (''net.'' @ ifn @ which)"

definition ifc_configure :: "os \<Rightarrow> string \<Rightarrow> u32 \<Rightarrow> u32 \<Rightarrow> u32 \<Rightarrow> u32 \<Rightarrow> u32 \<Rightarrow> int prog" where
  "ifc_configure os ifn address prefixLength gateway dns1 dns2 = do {
     _ \<leftarrow> ifc_init os;
     r \<leftarrow> ifc_up os ifn;
     if r \<noteq> 0 then do { _ \<leftarrow> ifc_close os; ret (-1) }
     else do {
       r \<leftarrow> ifc_set_addr os ifn address;
       if r \<noteq> 0 then do { _ \<leftarrow> ifc_close os; ret (-1) }
       else do {
         r \<leftarrow> ifc_set_prefixLength os ifn (sint prefixLength);
         if r \<noteq> 0 then do { _ \<leftarrow> ifc_close os; ret (-1) }
         else do {
           r \<leftarrow> ifc_create_default_route os ifn gateway;
           if r \<noteq> 0 then do { _ \<leftarrow> ifc_close os; ret (-1) }
           else do {
             _ \<leftarrow> ifc_close os;
             _ \<leftarrow> sys_call os (Property_set (dns_prop_name ifn ''.dns1'') (if dns1 \<noteq> 0 then inet_ntoa dns1 else []));
             _ \<leftarrow> sys_call os (Property_set (dns_prop_name ifn ''.dns2'') (if dns2 \<noteq> 0 then inet_ntoa dns2 else []));
             ret 0
           }
         }
       }
     }
   }"

definition ifc_enable_allmc :: "os \<Rightarrow> string \<Rightarrow> int prog" where
  "ifc_enable_allmc os ifn =
     do { _ \<leftarrow> ifc_init os; result \<leftarrow> ifc_set_flags os ifn IFF_ALLMULTI 0; _ \<leftarrow> ifc_close os; ret result }"

definition ifc_disable_allmc :: "os \<Rightarrow> string \<Rightarrow> int prog" where
  "ifc_disable_allmc os ifn =
     do { _ \<leftarrow> ifc_init os; result \<leftarrow> ifc_set_flags os ifn 0 IFF_ALLMULTI; _ \<leftarrow> ifc_close os; ret result }"

section \<open>Operations with a socket of their own\<close>

text \<open>The body under \<open>HAVE_ANDROID_OS\<close>.\<close>

definition ifc_reset_connection_by_uid :: "os \<Rightarrow> int \<Rightarrow> int \<Rightarrow> int prog" where
  "ifc_reset_connection_by_uid os uid error = do {
     s \<leftarrow> sys_call os (Socket Inet_Stream);
     if a_ret s < 0 then ret (-1)
     else if uid < 0 then do { _ \<leftarrow> sys_call os (Close (a_ret s)); ret (-1) }
     else do {
       r \<leftarrow> sys_call os (Ioctl (a_ret s) (SIOCKILLSOCK uid error));
       _ \<leftarrow> sys_call os (Close (a_ret s));
       ret (a_ret r)
     }
   }"

definition ifc_netd_sock_init :: "os \<Rightarrow> int prog" where
  "ifc_netd_sock_init os = do {
     s \<leftarrow> sys_call os (Socket Unix_Stream);
     if a_ret s < 0 then ret (-1)
     else do {
       res \<leftarrow> sys_call os (Setsockopt (a_ret s));
       if a_ret res < 0 then do { _ \<leftarrow> sys_call os (Close (a_ret s)); ret (-1) }
       else do {
         c \<leftarrow> sys_call os (Connect (a_ret s) ''/dev/socket/netd'');
         if a_ret c \<noteq> 0 then do { _ \<leftarrow> sys_call os (Close (a_ret s)); ret (-1) }
         else ret (a_ret s)
       }
     }
   }"

text \<open>
  The exchange with netd that \<open>ifc_set_throttle\<close>, \<open>ifc_set_fwmark_rule\<close> and
  \<open>ifc_set_nsiot_firewall\<close> each write out; only the command line differs. A stream is named by
  its descriptor.
\<close>

definition netd_command :: "os \<Rightarrow> string \<Rightarrow> int prog" where
  "netd_command os line = do {
     netd_sock \<leftarrow> ifc_netd_sock_init os;
     if netd_sock \<le> 0 then ret (-1)
     else do {
       f \<leftarrow> sys_call os (Fdopen netd_sock);
       if a_ret f < 0 then ret (-1)
       else do {
         r \<leftarrow> sys_call os (Fprintf netd_sock line);
         if a_ret r < 0 then do { _ \<leftarrow> sys_call os (Fclose netd_sock); ret (-1) }
         else do {
           r \<leftarrow> sys_call os (Fputc netd_sock);
           if a_ret r < 0 then do { _ \<leftarrow> sys_call os (Fclose netd_sock); ret (-1) }
           else do {
             r \<leftarrow> sys_call os (Fflush netd_sock);
             if a_ret r \<noteq> 0 then do { _ \<leftarrow> sys_call os (Fclose netd_sock); ret (-1) }
             else do {
               _ \<leftarrow> sys_call os (Fread netd_sock 20);
               _ \<leftarrow> sys_call os (Fclose netd_sock);
               ret 0
             }
           }
         }
       }
     }
   }"

definition ifc_set_throttle :: "os \<Rightarrow> string \<Rightarrow> int \<Rightarrow> int \<Rightarrow> int prog" where
  "ifc_set_throttle os ifn rxKbps txKbps =
     netd_command os (''1 interface setthrottle '' @ ifn @ '' '' @ dec rxKbps @ '' '' @ dec txKbps)"

definition ifc_set_fwmark_rule :: "os \<Rightarrow> string \<Rightarrow> int \<Rightarrow> bool \<Rightarrow> int prog" where
  "ifc_set_fwmark_rule os ifn fwmark add =
     netd_command os (''2 network fwmark '' @ (if add then ''add'' else ''remove'') @ '' '' @ ifn @ '' '' @ dec fwmark)"

definition ifc_set_nsiot_firewall :: "os \<Rightarrow> bool \<Rightarrow> int prog" where
  "ifc_set_nsiot_firewall os flag =
     netd_command os (''2 firewall '' @ (if flag then ''set_nsiot_firewall'' else ''clear_nsiot_firewall'') @ '' '')"

definition ifc_set_txq_state :: "os \<Rightarrow> string \<Rightarrow> int \<Rightarrow> int prog" where
  "ifc_set_txq_state os ifn state = do {
     s \<leftarrow> sys_call os (Socket Inet_Dgram);
     if a_ret s < 0 then ret (-1)
     else do {
       r \<leftarrow> sys_call os (Ioctl (a_ret s) (SIOCSTXQSTATE (ifc_init_ifr ifn) state));
       _ \<leftarrow> sys_call os (Close (a_ret s));
       ret (a_ret r)
     }
   }"

definition ifc_ccmni_md_cfg :: "os \<Rightarrow> string \<Rightarrow> int \<Rightarrow> int prog" where
  "ifc_ccmni_md_cfg os ifn md_id = do {
     s \<leftarrow> sys_call os (Socket Inet_Dgram);
     if a_ret s < 0 then ret (-1)
     else do {
       r \<leftarrow> sys_call os (Ioctl (a_ret s) (SIOCSCCMNICFG (ifc_init_ifr ifn) md_id));
       _ \<leftarrow> sys_call os (Close (a_ret s));
       ret (if a_ret r < 0 then -1 else 0)
     }
   }"

text \<open>\<open>setEnableIPv6\<close> and \<open>setIPv6DefaultRoute\<close> write one digit to a file of the interface.\<close>

definition write_ipv6_conf :: "os \<Rightarrow> string \<Rightarrow> string \<Rightarrow> string \<Rightarrow> int prog" where
  "write_ipv6_conf os ifn leaf val = do {
     fd \<leftarrow> sys_call os (Open (''/proc/sys/net/ipv6/conf/'' @ ifn @ ''/'' @ leaf));
     if a_ret fd < 0 then ret (-1)
     else do {
       w \<leftarrow> sys_call os (Write (a_ret fd) val);
       if a_ret w \<noteq> int (length val) then do { _ \<leftarrow> sys_call os (Close (a_ret fd)); ret (-1) }
       else do { _ \<leftarrow> sys_call os (Close (a_ret fd)); ret 0 }
     }
   }"

definition setEnableIPv6 :: "os \<Rightarrow> string \<Rightarrow> bool \<Rightarrow> int prog" where
  "setEnableIPv6 os ifn on = write_ipv6_conf os ifn ''disable_ipv6'' (if on then ''0'' else ''1'')"

definition setIPv6DefaultRoute :: "os \<Rightarrow> string \<Rightarrow> bool \<Rightarrow> int prog" where
  "setIPv6DefaultRoute os ifn on = write_ipv6_conf os ifn ''accept_ra_defrtr'' (if on then ''1'' else ''0'')"

definition ifc_ipv6_trigger_rs :: "os \<Rightarrow> string \<Rightarrow> int prog" where
  "ifc_ipv6_trigger_rs os ifn = do {
     _ \<leftarrow> setEnableIPv6 os ifn False;
     _ \<leftarrow> setEnableIPv6 os ifn True;
     _ \<leftarrow> setIPv6DefaultRoute os ifn True;
     ret 0
   }"

section \<open>Resources\<close>

lemma neutral_ioctl: "neutral (ioctl os req)"
  unfolding ioctl_def by (rule neutral_call triple_rules | simp)+

lemmas ioctl_rules = neutral_ioctl triple_rules

lemma neutral_requests:
  "neutral (ifc_set_flags os name a b)" "neutral (ifc_up os name)" "neutral (ifc_down os name)"
  "neutral (ifc_set_addr os name addr)" "neutral (ifc_set_prefixLength os name pl)"
  "neutral (ifc_get_addr os name)" "neutral (ifc_get_info os name x y z)"
  unfolding ifc_up_def ifc_down_def ifc_set_flags_def ifc_set_addr_def ifc_set_prefixLength_def
    ifc_get_addr_def ifc_get_info_def
  by (rule ioctl_rules | simp)+

lemma neutral_clear_ipv4_loop: "neutral (clear_ipv4_loop os name n addr)"
  by (induction n arbitrary: addr) (auto intro!: neutral_requests triple_rules)

lemma neutral_string_to_ip: "neutral (string_to_ip os str b)"
  unfolding string_to_ip_def by (rule neutral_call triple_rules | simp)+

lemma neutral_ifc_act_on_address: "neutral (ifc_act_on_address os stack action name address pl)"
  unfolding ifc_act_on_address_def Let_def
  by (rule neutral_open [where c = "Socket Netlink_Raw"] fd_rules neutral_string_to_ip
      | simp split del: if_split)+

lemma neutral_clear_ipv6: "neutral (ifc_clear_ipv6_addresses os stack entries name)"
proof -
  have "neutral (clear_ipv6_loop os stack name entries lasterror)" for lasterror
    by (induction os stack name entries lasterror rule: clear_ipv6_loop.induct)
      (auto simp: Let_def ifc_del_address_def intro!: neutral_ifc_act_on_address triple_rules)
  then show ?thesis
    unfolding ifc_clear_ipv6_addresses_def
    by (intro neutral_open [where c = "Fopen p" for p]) (rule fd_rules | simp split del: if_split)+
qed

lemma neutral_own_sockets:
  "neutral (ifc_reset_connection_by_uid os uid err)" "neutral (ifc_set_txq_state os name st)"
  "neutral (ifc_ccmni_md_cfg os name md)"
  unfolding ifc_reset_connection_by_uid_def ifc_set_txq_state_def ifc_ccmni_md_cfg_def
  by ((rule neutral_open [where c = "Socket f" for f] fd_rules | simp split del: if_split)+)

lemma neutral_ipv6_conf: "neutral (write_ipv6_conf os name leaf val)"
  unfolding write_ipv6_conf_def
  by (rule neutral_open [where c = "Open p" for p] fd_rules | simp split del: if_split)+

lemma neutral_trigger_rs: "neutral (ifc_ipv6_trigger_rs os name)"
  unfolding ifc_ipv6_trigger_rs_def setEnableIPv6_def setIPv6DefaultRoute_def
  by (rule neutral_ipv6_conf triple_rules)+

text \<open>The bracket: \<open>ifc_init\<close> takes the mutex once more, \<open>ifc_close\<close> gives it back and the socket
  with it.\<close>

lemma books_ifc_init: "triple (books F k k6) (ifc_init os) (\<lambda>_. books F (Suc k) k6)"
  by (rule tripleI) (auto simp: ifc_init_def books_def held_def run_simps split_beta)

lemma books_ifc_close:
  "triple (books F (Suc k) k6) (ifc_close os) (\<lambda>_ e. books F k k6 e \<and> ifc_ctl_sock e = -1)"
  by (rule tripleI) (auto simp: ifc_close_def books_def held_def run_simps split_beta)

lemma books_ifc_init6: "triple (books F k k6) (ifc_init6 os) (\<lambda>_. books F k (Suc k6))"
  by (rule tripleI) (auto simp: ifc_init6_def books_def held_def run_simps split_beta)

lemma books_ifc_close6:
  "triple (books F k (Suc k6)) (ifc_close6 os) (\<lambda>_ e. books F k k6 e \<and> ifc_ctl_sock6 e = -1)"
  by (rule tripleI) (auto simp: ifc_close6_def books_def held_def run_simps split_beta)

definition closed_books :: "int multiset \<Rightarrow> nat \<Rightarrow> nat \<Rightarrow> env \<Rightarrow> bool" where
  "closed_books F k k6 e \<longleftrightarrow> books F k k6 e \<and> ifc_ctl_sock e = -1"

definition unlocks :: "'a prog \<Rightarrow> bool" where
  "unlocks m \<longleftrightarrow> (\<forall>F k k6. triple (books F (Suc k) k6) m (\<lambda>_. closed_books F k k6))"

definition bracketed :: "'a prog \<Rightarrow> bool" where
  "bracketed m \<longleftrightarrow> (\<forall>F k k6. triple (books F k k6) m (\<lambda>_. closed_books F k k6))"

lemma keeps_closed_books: "quiet_call c \<Longrightarrow> keeps (closed_books F k k6) (sys_call os c)"
  using neutral_call [of c os]
  by (auto simp: neutral_def keeps_def triple_def closed_books_def run_simps)

lemma unlocks_close:
  "(\<And>x F k k6. keeps (closed_books F k k6) (f x)) \<Longrightarrow> unlocks (State_Monad.bind (ifc_close os) f)"
  unfolding unlocks_def keeps_def
  by (intro allI, rule triple_bind, rule books_ifc_close) (simp add: closed_books_def [abs_def])

lemma unlocks_bind:
  "neutral m \<Longrightarrow> (\<And>x. unlocks (f x)) \<Longrightarrow> unlocks (State_Monad.bind m f)"
  unfolding unlocks_def neutral_def keeps_def by (blast intro: triple_bind)

lemma unlocks_if: "(b \<Longrightarrow> unlocks m) \<Longrightarrow> (\<not> b \<Longrightarrow> unlocks m') \<Longrightarrow> unlocks (if b then m else m')"
  by simp

lemma bracketed_init: "(\<And>x. unlocks (f x)) \<Longrightarrow> bracketed (State_Monad.bind (ifc_init os) f)"
  unfolding bracketed_def unlocks_def by (intro allI, rule triple_bind, rule books_ifc_init) simp

lemma bracketed_neutral: "bracketed m \<Longrightarrow> neutral m"
  by (auto simp: bracketed_def neutral_def keeps_def triple_def closed_books_def)

lemma unlocks_last: "unlocks (ifc_close os)"
  using books_ifc_close by (auto simp: unlocks_def closed_books_def triple_def)

lemmas bracket_rules = bracketed_init unlocks_close unlocks_last unlocks_if unlocks_bind
  keeps_closed_books neutral_requests neutral_clear_ipv4_loop neutral_ioctl triple_rules

lemma bracketed_route: "bracketed (ifc_act_on_ipv4_route os action name dst pl gw)"
  unfolding ifc_act_on_ipv4_route_def Let_def by (rule bracket_rules | simp split del: if_split)+

lemma bracketed_operations:
  "bracketed (ifc_clear_ipv4_addresses os name)" "bracketed (ifc_create_default_route os name gw)"
  "bracketed (ifc_enable os name)" "bracketed (ifc_disable os name)"
  "bracketed (ifc_remove_default_route os name)" "bracketed (ifc_enable_allmc os name)"
  "bracketed (ifc_disable_allmc os name)"
  unfolding ifc_clear_ipv4_addresses_def ifc_create_default_route_def ifc_enable_def ifc_disable_def
    ifc_remove_default_route_def ifc_enable_allmc_def ifc_disable_allmc_def
  by (rule bracket_rules bracketed_route | simp split del: if_split)+

lemma bracketed_ifc_configure: "bracketed (ifc_configure os name addr pl gw dns1 dns2)"
  unfolding ifc_configure_def
  by (rule bracket_rules bracketed_operations [THEN bracketed_neutral] | simp split del: if_split)+

definition unlocks6 :: "'a prog \<Rightarrow> bool" where
  "unlocks6 m \<longleftrightarrow> (\<forall>F k k6. triple (books F k (Suc k6)) m (\<lambda>_. books F k k6))"

lemma neutral_init6: "(\<And>x. unlocks6 (f x)) \<Longrightarrow> neutral (State_Monad.bind (ifc_init6 os) f)"
  unfolding neutral_def keeps_def unlocks6_def
  by (intro allI, rule triple_bind, rule books_ifc_init6) simp

lemma unlocks6_bind: "neutral m \<Longrightarrow> (\<And>x. unlocks6 (f x)) \<Longrightarrow> unlocks6 (State_Monad.bind m f)"
  unfolding unlocks6_def neutral_def keeps_def by (blast intro: triple_bind)

lemma unlocks6_close: "unlocks6 (State_Monad.bind (ifc_close6 os) (\<lambda>_. ret x))"
  using books_ifc_close6 [of _ _ _ os] by (auto simp: unlocks6_def triple_def split_beta)

lemma neutral_reset_connections: "neutral (ifc_reset_connections os name msk)"
proof -
  have v4: "neutral (do { _ \<leftarrow> ifc_init os; myaddr \<leftarrow> (if msk AND RESET_IGNORE_INTERFACE_ADDRESS = 0
        then do { (r, addr, pl, fl) \<leftarrow> ifc_get_info os name True False False;
                  ret (case addr of Some v \<Rightarrow> v | None \<Rightarrow> 0) }
        else ret 0);
      r \<leftarrow> ioctl os (SIOCKILLADDR (ifc_init_ifr name) myaddr); _ \<leftarrow> ifc_close os; ret (a_ret r) })"
    by (rule bracketed_neutral) (rule bracket_rules | simp split del: if_split)+
  have v6: "neutral (do { _ \<leftarrow> ifc_init6 os; s \<leftarrow> gets ifc_ctl_sock6; r \<leftarrow> sys_call os (Ioctl s SIOCKILLADDR6);
      _ \<leftarrow> ifc_close6 os; ret (if result = 0 then a_ret r else result) })" for result
    by (intro neutral_init6) (rule unlocks6_close unlocks6_bind neutral_gets neutral_call | simp only: quiet_calls)+
  show ?thesis
    unfolding ifc_reset_connections_def by (rule v4 v6 triple_rules | simp split del: if_split)+
qed

text \<open>The public operations, without those that talk to netd.\<close>

definition discard :: "'a prog \<Rightarrow> unit prog" where
  "discard m = do { _ \<leftarrow> m; ret () }"

definition ifc_bracketed_api :: "os \<Rightarrow> string \<Rightarrow> u32 \<Rightarrow> u32 \<Rightarrow> u32 \<Rightarrow> u32 \<Rightarrow> u32 \<Rightarrow> rt_action \<Rightarrow> int \<Rightarrow> unit prog list" where
  "ifc_bracketed_api os name addr prefixLength gw dns1 dns2 action pl =
     [discard (ifc_configure os name addr prefixLength gw dns1 dns2),
      discard (ifc_act_on_ipv4_route os action name addr pl gw),
      discard (ifc_create_default_route os name gw), discard (ifc_remove_default_route os name),
      discard (ifc_enable os name), discard (ifc_disable os name),
      discard (ifc_clear_ipv4_addresses os name),
      discard (ifc_enable_allmc os name), discard (ifc_disable_allmc os name)]"

definition ifc_other_api :: "os \<Rightarrow> bytes \<Rightarrow> (string \<times> nat \<times> string) list \<Rightarrow> string \<Rightarrow> string \<Rightarrow> int \<Rightarrow> u32 \<Rightarrow> unit prog list" where
  "ifc_other_api os stack entries name address n msk =
     [discard (ifc_reset_connections os name msk), discard (ifc_clear_addresses os stack entries name),
      discard (ifc_add_address os stack name address n), discard (ifc_del_address os stack name address n),
      discard (ifc_reset_connection_by_uid os n n), discard (ifc_set_txq_state os name n),
      discard (ifc_ccmni_md_cfg os name n), discard (ifc_ipv6_trigger_rs os name)]"

lemma bracketed_discard: "bracketed m \<Longrightarrow> bracketed (discard m)"
  by (auto simp: bracketed_def discard_def triple_def split_beta)

lemma neutral_discard: "neutral m \<Longrightarrow> neutral (discard m)"
  unfolding discard_def by (intro neutral_bind neutral_ret)

lemma bracketed_api: "opr \<in> set (ifc_bracketed_api os name addr prefixLength gw dns1 dns2 action pl) \<Longrightarrow> bracketed opr"
  unfolding ifc_bracketed_api_def
  by (auto intro: bracketed_discard bracketed_operations bracketed_ifc_configure bracketed_route)

lemma neutral_api: "opr \<in> set (ifc_other_api os stack entries name address n msk) \<Longrightarrow> neutral opr"
  unfolding ifc_other_api_def ifc_clear_addresses_def ifc_add_address_def ifc_del_address_def
  by (auto intro!: neutral_discard neutral_reset_connections neutral_clear_ipv6 neutral_own_sockets
      neutral_trigger_rs neutral_ifc_act_on_address neutral_bind
      bracketed_operations(1) [THEN bracketed_neutral])


text \<open>A kernel that accepts every call, with descriptor 5 for every new socket.\<close>

definition idle_env :: env where
  "idle_env = \<lparr>ifc_ctl_sock = -1, ifc_ctl_sock6 = -1, sock_mutex = 0, sock6_mutex = 0, errno = 0, trace = []\<rparr>"

definition yes_os :: os where
  "yes_os h c = \<lparr>a_ret = (case c of Socket f \<Rightarrow> 5 | _ \<Rightarrow> 0), a_errno = 0, a_addr = 0, a_flags = 0,
     a_family = AF_INET, a_bytes = [], a_str = []\<rparr>"


section \<open>Flags\<close>

text \<open>
  \<open>ifc_set_flags\<close> is a read-modify-write that touches exactly the requested bits. If the
  kernel reports flags \<open>f\<close> for the interface, the flags then written have bit \<open>i\<close> iff it was to be
  set, or was set in \<open>f\<close> and not to be cleared; if the kernel reports an error nothing is
  written and the result is \<open>-1\<close>.
\<close>

theorem ifc_set_flags_bits:
  "let q = Ioctl (ifc_ctl_sock e) (SIOCGIFFLAGS (take 15 name));
       a = os (trace e) q
   in if a_ret a < 0
      then run_state (ifc_set_flags os name setb clr) e = (-1, sys_step os q e)
      else \<exists>f. (\<forall>i<16. bit f i \<longleftrightarrow> bit setb i \<or> bit (a_flags a) i \<and> \<not> bit clr i) \<and>
        (let w = Ioctl (ifc_ctl_sock e) (SIOCSIFFLAGS (take 15 name) f)
         in run_state (ifc_set_flags os name setb clr) e =
              (a_ret (os (trace e @ [(q, a)]) w), sys_step os w (sys_step os q e)))"
proof -
  have bits: "bit (ucast ((scast f AND NOT clr) OR setb) :: u16) i \<longleftrightarrow> bit setb i \<or> bit f i \<and> \<not> bit clr i"
    if "i < 16" for i and f :: u16
    using that by (auto simp: bit_simps)
  show ?thesis
    by (auto simp: Let_def ifc_set_flags_def ioctl_def ifc_init_ifr_def run_simps split_beta bits
        intro!: exI [of _ "ucast ((scast (a_flags _) AND NOT clr) OR setb)"])
qed

theorem ifc_set_flags_bits_witness:
  "\<exists>f. bit f 0 \<and> \<not> bit f 3 \<and>
     run_state (ifc_set_flags yes_os ''wlan0'' IFF_UP 0) idle_env =
       (0, sys_step yes_os (Ioctl (-1) (SIOCSIFFLAGS ''wlan0'' f))
             (sys_step yes_os (Ioctl (-1) (SIOCGIFFLAGS ''wlan0'')) idle_env))"
proof -
  have n: "take 15 ''wlan0'' = ''wlan0''" by simp
  have e: "ifc_ctl_sock idle_env = -1" by (simp add: idle_env_def)
  obtain f :: u16 where f: "\<forall>i<16. bit f i \<longleftrightarrow> bit IFF_UP i \<or> bit (0 :: u16) i \<and> \<not> bit (0 :: u32) i"
    and run: "run_state (ifc_set_flags yes_os ''wlan0'' IFF_UP 0) idle_env =
       (0, sys_step yes_os (Ioctl (-1) (SIOCSIFFLAGS ''wlan0'' f))
             (sys_step yes_os (Ioctl (-1) (SIOCGIFFLAGS ''wlan0'')) idle_env))"
    using ifc_set_flags_bits [of idle_env "''wlan0''" yes_os IFF_UP 0]
    by (auto simp: Let_def yes_os_def n e)
  have "bit f 0" "\<not> bit f 3" using f by (simp_all add: bit_simps)
  with run show ?thesis by blast
qed

section \<open>Configuration\<close>

text \<open>What the kernel has acknowledged for an interface, read off the history of calls.\<close>

record iface =
  if_flags :: u16
  if_addr :: u32
  if_mask :: u32
  if_routes :: "rtentry list"

fun kernel_effect :: "ifname \<Rightarrow> sys \<times> answer \<Rightarrow> iface \<Rightarrow> iface" where
  "kernel_effect n (Ioctl fd req, a) i =
     (if a_ret a < 0 then i
      else case req of
        SIOCSIFFLAGS m f \<Rightarrow> (if m = n then i\<lparr>if_flags := f\<rparr> else i)
      | SIOCSIFADDR m v \<Rightarrow> (if m = n then i\<lparr>if_addr := v\<rparr> else i)
      | SIOCSIFNETMASK m v \<Rightarrow> (if m = n then i\<lparr>if_mask := v\<rparr> else i)
      | SIOCADDRT rt \<Rightarrow> i\<lparr>if_routes := rt # if_routes i\<rparr>
      | SIOCDELRT rt \<Rightarrow> i\<lparr>if_routes := removeAll rt (if_routes i)\<rparr>
      | _ \<Rightarrow> i)"
| "kernel_effect n (_, a) i = i"

definition iface_of :: "ifname \<Rightarrow> iface \<Rightarrow> env \<Rightarrow> iface" where
  "iface_of n i0 e = fold (kernel_effect n) (trace e) i0"

lemma iface_of_step: "iface_of n i0 (sys_step os c e) = kernel_effect n (c, os (trace e) c) (iface_of n i0 e)"
  by (simp add: iface_of_def run_simps)

lemma iface_of_updates [simp]:
  "iface_of n i0 (e\<lparr>ifc_ctl_sock := s\<rparr>) = iface_of n i0 e"
  "iface_of n i0 (e\<lparr>sock_mutex := k\<rparr>) = iface_of n i0 e"
  by (simp_all add: iface_of_def)

lemma iface_of_init: "iface_of n i0 (snd (run_state (ifc_init os) e)) = iface_of n i0 e"
  by (simp add: ifc_init_def run_simps iface_of_step split_beta)

lemma iface_of_close: "iface_of n i0 (snd (run_state (ifc_close os) e)) = iface_of n i0 e"
  by (simp add: ifc_close_def run_simps iface_of_step split_beta)

definition psets :: "history \<Rightarrow> (string \<times> string) list" where
  "psets h = List.map_filter (\<lambda>(c, a). case c of Property_set key val \<Rightarrow> Some (key, val) | _ \<Rightarrow> None) h"

lemma psets_append [simp]: "psets (h @ h') = psets h @ psets h'"
  by (simp add: psets_def map_filter_def)

lemma psets_simps [simp]:
  "psets [] = []" "psets ((Ioctl fd req, a) # h) = psets h" "psets ((Socket f, a) # h) = psets h"
  "psets ((Close fd, a) # h) = psets h" "psets ((Property_set key val, a) # h) = (key, val) # psets h"
  by (simp_all add: psets_def map_filter_def)

text \<open>The kernel answered that the route exists already.\<close>

definition route_exists :: "rtentry \<Rightarrow> env \<Rightarrow> bool" where
  "route_exists rt e \<longleftrightarrow> (\<exists>(c, a) \<in> set (trace e). a_ret a < 0 \<and> a_errno a = EEXIST \<and>
     (case c of Ioctl fd req \<Rightarrow> req = SIOCADDRT rt | _ \<Rightarrow> False))"

text \<open>Documented behaviour of the calls: \<open>socket\<close> fails with \<open>-1\<close>, and every failure sets a
  positive \<open>errno\<close>.\<close>

definition kernel_ok :: "os \<Rightarrow> bool" where
  "kernel_ok os \<longleftrightarrow> (\<forall>h f. -1 \<le> a_ret (os h (Socket f))) \<and> (\<forall>h c. a_ret (os h c) < 0 \<longrightarrow> 0 < a_errno (os h c))"

text \<open>How far \<open>ifc_configure\<close> has come: the interface state \<open>Q\<close> and the properties set.\<close>

definition stage :: "ifname \<Rightarrow> iface \<Rightarrow> (string \<times> string) list \<Rightarrow> (iface \<Rightarrow> bool) \<Rightarrow> env \<Rightarrow> bool" where
  "stage n i0 p Q e \<longleftrightarrow> psets (trace e) = p \<and> Q (iface_of n i0 e) \<and> -1 \<le> ifc_ctl_sock e"

lemma stage_init: "kernel_ok os \<Longrightarrow> triple (stage n i0 p Q) (ifc_init os) (\<lambda>_. stage n i0 p Q)"
  by (rule tripleI) (auto simp: stage_def iface_of_init, simp_all add: ifc_init_def run_simps split_beta kernel_ok_def)

lemma stage_close: "triple (stage n i0 p Q) (ifc_close os) (\<lambda>_. stage n i0 p Q)"
  by (rule tripleI) (auto simp: stage_def iface_of_close, simp_all add: ifc_close_def run_simps split_beta)

lemma stage_up:
  "triple (stage (take 15 ifn) i0 p (\<lambda>_. True)) (ifc_up os ifn)
     (\<lambda>r. if r = 0 then stage (take 15 ifn) i0 p (\<lambda>i. bit (if_flags i) 0) else stage (take 15 ifn) i0 p (\<lambda>_. True))"
  by (rule tripleI) (auto simp: stage_def ifc_up_def ifc_set_flags_def ioctl_def ifc_init_ifr_def run_simps
      iface_of_step split_beta bit_simps)

lemma stage_addr:
  "triple (stage (take 15 ifn) i0 p (\<lambda>i. bit (if_flags i) 0)) (ifc_set_addr os ifn addr)
     (\<lambda>r. if r = 0 then stage (take 15 ifn) i0 p (\<lambda>i. bit (if_flags i) 0 \<and> if_addr i = addr)
          else stage (take 15 ifn) i0 p (\<lambda>_. True))"
  by (rule tripleI) (auto simp: stage_def ifc_set_addr_def ioctl_def ifc_init_ifr_def run_simps
      iface_of_step split_beta)

text \<open>The state of the interface after all four steps.\<close>

definition configured :: "u32 \<Rightarrow> int \<Rightarrow> iface \<Rightarrow> bool" where
  "configured addr pl i \<longleftrightarrow> bit (if_flags i) 0 \<and> if_addr i = addr \<and>
     if_mask i = prefixLengthToIpv4Netmask pl \<and> 0 \<le> pl \<and> pl \<le> 32"

lemma stage_prefix:
  "triple (stage (take 15 ifn) i0 p (\<lambda>i. bit (if_flags i) 0 \<and> if_addr i = addr)) (ifc_set_prefixLength os ifn pl)
     (\<lambda>r. if r = 0
          then stage (take 15 ifn) i0 p (configured addr pl)
          else stage (take 15 ifn) i0 p (\<lambda>_. True))"
  by (rule tripleI) (auto simp: stage_def configured_def ifc_set_prefixLength_def ioctl_def ifc_init_ifr_def run_simps
      iface_of_step split_beta)

definition routed :: "ifname \<Rightarrow> iface \<Rightarrow> rtentry \<Rightarrow> env \<Rightarrow> bool" where
  "routed n i0 rt e \<longleftrightarrow> rt \<in> set (if_routes (iface_of n i0 e)) \<or> route_exists rt e"

lemma triple_gets: "triple P (gets f) (\<lambda>x e. P e \<and> x = f e)"
  by (simp add: triple_def)

lemma stage_init_errno:
  assumes "kernel_ok os"
  shows "triple (stage n i0 p Q) (ifc_init os) (\<lambda>_ e. stage n i0 p Q e \<and> (ifc_ctl_sock e < 0 \<longrightarrow> ifc_ctl_sock e = -1 \<and> 0 < errno e))"
proof (rule tripleI)
  fix e
  assume st: "stage n i0 p Q e"
  have "-1 \<le> a_ret (os (trace e) (Socket Inet_Dgram))"
      "a_ret (os (trace e) (Socket Inet_Dgram)) < 0 \<Longrightarrow> 0 < a_errno (os (trace e) (Socket Inet_Dgram))"
    using assms by (simp_all add: kernel_ok_def)
  moreover have "stage n i0 p Q (snd (run_state (ifc_init os) e))"
    using tripleD [OF stage_init [OF assms] st] .
  ultimately show "stage n i0 p Q (snd (run_state (ifc_init os) e)) \<and>
      (ifc_ctl_sock (snd (run_state (ifc_init os) e)) < 0 \<longrightarrow>
       ifc_ctl_sock (snd (run_state (ifc_init os) e)) = -1 \<and> 0 < errno (snd (run_state (ifc_init os) e)))"
    using st by (auto simp: ifc_init_def run_simps split_beta failed_def stage_def)
qed

lemma stage_close_errno:
  "triple (\<lambda>e. stage n i0 p Q e \<and> ifc_ctl_sock e = -1 \<and> 0 < errno e) (ifc_close os)
     (\<lambda>_ e. stage n i0 p Q e \<and> 0 < errno e)"
  by (rule tripleI) (auto simp: ifc_close_def split_beta stage_def)

lemma routed_close:
  "triple (\<lambda>e. stage n i0 p Q e \<and> (b \<longrightarrow> routed n i0 rt e)) (ifc_close os)
     (\<lambda>_ e. stage n i0 p Q e \<and> (b \<longrightarrow> routed n i0 rt e))"
proof (rule tripleI)
  fix e
  assume *: "stage n i0 p Q e \<and> (b \<longrightarrow> routed n i0 rt e)"
  have "set (trace e) \<subseteq> set (trace (snd (run_state (ifc_close os) e)))"
    by (auto simp: ifc_close_def run_simps split_beta)
  then have "routed n i0 rt e \<Longrightarrow> routed n i0 rt (snd (run_state (ifc_close os) e))"
    unfolding routed_def route_exists_def iface_of_close by blast
  then show "stage n i0 p Q (snd (run_state (ifc_close os) e)) \<and>
      (b \<longrightarrow> routed n i0 rt (snd (run_state (ifc_close os) e)))"
    using * tripleD [OF stage_close] by blast
qed

lemma routed_ioctl:
  assumes "kernel_ok os"
  shows "triple (stage n i0 p (configured addr pl)) (ioctl os (SIOCADDRT rt))
     (\<lambda>a e. stage n i0 p (configured addr pl) e \<and>
        ((if a_ret a < 0 then (if errno e = EEXIST then 0 else - errno e) else a_ret a) = 0 \<longrightarrow> routed n i0 rt e))"
proof (rule tripleI)
  fix e
  assume st: "stage n i0 p (configured addr pl) e"
  let ?a = "os (trace e) (Ioctl (ifc_ctl_sock e) (SIOCADDRT rt))"
  have "a_ret ?a < 0 \<Longrightarrow> 0 < a_errno ?a" using assms by (simp add: kernel_ok_def)
  then show "stage n i0 p (configured addr pl) (snd (run_state (ioctl os (SIOCADDRT rt)) e)) \<and>
      ((if a_ret (fst (run_state (ioctl os (SIOCADDRT rt)) e)) < 0
        then if errno (snd (run_state (ioctl os (SIOCADDRT rt)) e)) = EEXIST then 0
             else - errno (snd (run_state (ioctl os (SIOCADDRT rt)) e))
        else a_ret (fst (run_state (ioctl os (SIOCADDRT rt)) e))) = 0 \<longrightarrow>
       routed n i0 rt (snd (run_state (ioctl os (SIOCADDRT rt)) e)))"
    using st by (auto simp: ioctl_def run_simps split_beta stage_def configured_def iface_of_step routed_def
        route_exists_def failed_def)
qed

lemma stage_route:
  assumes "kernel_ok os"
  shows "triple (stage n i0 p (configured addr pl)) (ifc_create_default_route os ifn gw)
     (\<lambda>r e. stage n i0 p (configured addr pl) e \<and> (r = 0 \<longrightarrow> routed n i0 (ipv4_rtentry ifn 0 0 gw) e))"
  (is "triple ?S _ ?Q")
proof -
  let ?rt = "ipv4_rtentry ifn 0 0 gw"
  have bad: "triple (\<lambda>e. ?S e \<and> ifc_ctl_sock e = -1 \<and> 0 < errno e)
      (do { _ \<leftarrow> ifc_close os; e \<leftarrow> gets errno; ret (- e) }) ?Q"
    by (rule triple_bind [OF stage_close_errno]) (auto simp: triple_def)
  have good: "triple ?S (do { r \<leftarrow> ioctl os (SIOCADDRT ?rt); e \<leftarrow> gets errno;
        _ \<leftarrow> ifc_close os; ret (if a_ret r < 0 then if e = EEXIST then 0 else - e else a_ret r) }) ?Q"
  proof (rule triple_bind [OF routed_ioctl [OF assms]])
    fix r
    show "triple (\<lambda>e. ?S e \<and> ((if a_ret r < 0 then (if errno e = EEXIST then 0 else - errno e) else a_ret r) = 0 \<longrightarrow>
          routed n i0 ?rt e))
        (do { e \<leftarrow> gets errno; _ \<leftarrow> ifc_close os; ret (if a_ret r < 0 then if e = EEXIST then 0 else - e else a_ret r) }) ?Q"
    proof (rule triple_bind [OF triple_gets])
      fix e
      let ?b = "(if a_ret r < 0 then (if e = EEXIST then 0 else - e) else a_ret r) = 0"
      show "triple (\<lambda>ea. (?S ea \<and> ((if a_ret r < 0 then (if errno ea = EEXIST then 0 else - errno ea) else a_ret r) = 0 \<longrightarrow>
            routed n i0 ?rt ea)) \<and> e = errno ea)
          (do { _ \<leftarrow> ifc_close os; ret (if a_ret r < 0 then if e = EEXIST then 0 else - e else a_ret r) }) ?Q"
      proof (rule triple_conseq [OF triple_bind [OF routed_close [where b = ?b and rt = ?rt]]])
        show "triple (\<lambda>ea. ?S ea \<and> (?b \<longrightarrow> routed n i0 ?rt ea))
            (ret (if a_ret r < 0 then if e = EEXIST then 0 else - e else a_ret r)) ?Q"
          by (simp add: triple_def)
      qed auto
    qed
  qed
  show ?thesis
    unfolding ifc_create_default_route_def ifc_act_on_ipv4_route_def rt_req_def Let_def rt_action.case
  proof (rule triple_bind [OF stage_init_errno [OF assms]])
    show "triple (\<lambda>e. ?S e \<and> (ifc_ctl_sock e < 0 \<longrightarrow> ifc_ctl_sock e = - 1 \<and> 0 < errno e))
       (gets ifc_ctl_sock \<bind> (\<lambda>s. if s < 0 then do { _ \<leftarrow> ifc_close os; e \<leftarrow> gets errno; ret (- e) }
          else do { r \<leftarrow> ioctl os (SIOCADDRT ?rt); e \<leftarrow> gets errno; _ \<leftarrow> ifc_close os;
                    ret (if a_ret r < 0 then if e = EEXIST then 0 else - e else a_ret r) })) ?Q"
      by (rule triple_bind [OF triple_gets])
        (auto intro: triple_conseq [OF bad] triple_conseq [OF good])
  qed
qed

definition configure_post :: "ifname \<Rightarrow> iface \<Rightarrow> (string \<times> string) list \<Rightarrow> string \<Rightarrow> u32 \<Rightarrow> u32 \<Rightarrow> u32 \<Rightarrow> u32 \<Rightarrow> u32 \<Rightarrow> int \<Rightarrow> env \<Rightarrow> bool" where
  "configure_post n i0 p ifn address prefixLength gateway dns1 dns2 r e \<longleftrightarrow>
     (r = 0 \<and> configured address (sint prefixLength) (iface_of n i0 e) \<and>
      routed n i0 (ipv4_rtentry ifn 0 0 gateway) e \<and>
      psets (trace e) = p @
        [(dns_prop_name ifn ''.dns1'', if dns1 \<noteq> 0 then inet_ntoa dns1 else []),
         (dns_prop_name ifn ''.dns2'', if dns2 \<noteq> 0 then inet_ntoa dns2 else [])]) \<or>
     (r = -1 \<and> psets (trace e) = p)"

lemma configure_fails:
  assumes "\<And>e. P e \<Longrightarrow> stage n i0 p (\<lambda>_. True) e"
  shows "triple P (do { _ \<leftarrow> ifc_close os; ret (-1) }) (configure_post n i0 p ifn address pl gw dns1 dns2)"
proof (rule triple_conseq [OF triple_bind [OF stage_close]])
  show "triple (stage n i0 p (\<lambda>_. True)) (ret (-1)) (configure_post n i0 p ifn address pl gw dns1 dns2)"
    by (simp add: triple_def stage_def configure_post_def)
qed (use assms in auto)

lemma configure_ends:
  "triple (\<lambda>e. stage n i0 p (configured address (sint pl)) e \<and> routed n i0 (ipv4_rtentry ifn 0 0 gw) e)
     (do { _ \<leftarrow> ifc_close os;
           _ \<leftarrow> sys_call os (Property_set (dns_prop_name ifn ''.dns1'') (if dns1 \<noteq> 0 then inet_ntoa dns1 else []));
           _ \<leftarrow> sys_call os (Property_set (dns_prop_name ifn ''.dns2'') (if dns2 \<noteq> 0 then inet_ntoa dns2 else []));
           ret 0 })
     (configure_post n i0 p ifn address pl gw dns1 dns2)"
proof (rule triple_conseq [OF triple_bind [OF routed_close [where b = True and rt = "ipv4_rtentry ifn 0 0 gw"]]])
  show "triple (\<lambda>e. stage n i0 p (configured address (sint pl)) e \<and> (True \<longrightarrow> routed n i0 (ipv4_rtentry ifn 0 0 gw) e))
     (do { _ \<leftarrow> sys_call os (Property_set (dns_prop_name ifn ''.dns1'') (if dns1 \<noteq> 0 then inet_ntoa dns1 else []));
           _ \<leftarrow> sys_call os (Property_set (dns_prop_name ifn ''.dns2'') (if dns2 \<noteq> 0 then inet_ntoa dns2 else []));
           ret 0 })
     (configure_post n i0 p ifn address pl gw dns1 dns2)"
    by (rule tripleI) (simp add: configure_post_def run_simps iface_of_step stage_def routed_def
        route_exists_def split_beta)
qed auto

lemma triple_check:
  assumes "triple P m (\<lambda>r. if r = 0 then R else S)" and "triple S bad Q" and "triple R ok Q"
  shows "triple P (State_Monad.bind m (\<lambda>r :: int. if r \<noteq> 0 then bad else ok)) Q"
  by (rule triple_bind [OF assms(1)]) (use assms(2,3) in \<open>auto simp: triple_def\<close>)

lemma stage_configure:
  assumes "kernel_ok os"
  shows "triple (stage (take 15 ifn) i0 p (\<lambda>_. True)) (ifc_configure os ifn address pl gw dns1 dns2)
    (configure_post (take 15 ifn) i0 p ifn address pl gw dns1 dns2)"
proof -
  have route: "triple (stage (take 15 ifn) i0 p (configured address (sint pl))) (ifc_create_default_route os ifn gw)
      (\<lambda>r. if r = 0
           then (\<lambda>e. stage (take 15 ifn) i0 p (configured address (sint pl)) e \<and>
                     routed (take 15 ifn) i0 (ipv4_rtentry ifn 0 0 gw) e)
           else stage (take 15 ifn) i0 p (\<lambda>_. True))"
    by (rule triple_conseq [OF stage_route [OF assms]]) (auto simp: stage_def)
  show ?thesis
    unfolding ifc_configure_def
    by (rule triple_bind [OF stage_init [OF assms]] triple_check [OF stage_up] triple_check [OF stage_addr]
        triple_check [OF stage_prefix] triple_check [OF route] configure_fails configure_ends | assumption)+
qed

text \<open>
  C22. What a successful \<open>ifc_configure\<close> has achieved. With a kernel whose failures set \<open>errno\<close>, the
  result is 0 or \<open>-1\<close>. If it is 0, the last state of the interface the kernel acknowledged is up,
  has the given address and the netmask of the prefix length, which is between 0 and 32, the
  default route through the gateway has been accepted or existed already, and the two DNS
  properties have been set; if it is \<open>-1\<close>, no property has been set.
\<close>

theorem ifc_configure_result:
  assumes "kernel_ok os" and "-1 \<le> ifc_ctl_sock e"
    and "run_state (ifc_configure os ifn address prefixLength gateway dns1 dns2) e = (r, e')"
  shows "(r = 0 \<and> configured address (sint prefixLength) (iface_of (take 15 ifn) i0 e') \<and>
          routed (take 15 ifn) i0 (ipv4_rtentry ifn 0 0 gateway) e' \<and>
          psets (trace e') = psets (trace e) @
            [(dns_prop_name ifn ''.dns1'', if dns1 \<noteq> 0 then inet_ntoa dns1 else []),
             (dns_prop_name ifn ''.dns2'', if dns2 \<noteq> 0 then inet_ntoa dns2 else [])]) \<or>
         (r = -1 \<and> psets (trace e') = psets (trace e))"
proof -
  have "stage (take 15 ifn) i0 (psets (trace e)) (\<lambda>_. True) e" using assms(2) by (simp add: stage_def)
  from tripleD [OF stage_configure [OF assms(1), of ifn i0 _ address prefixLength gateway dns1 dns2] this]
  show ?thesis unfolding assms(3) configure_post_def fst_conv snd_conv .
qed

theorem ifc_configure_result_witness:
  "configured 0x0100000A 24
     (iface_of ''wlan0'' \<lparr>if_flags = 0, if_addr = 0, if_mask = 0, if_routes = []\<rparr>
       (snd (run_state (ifc_configure yes_os ''wlan0'' 0x0100000A 24 0x0200000A 0 0) idle_env)))"
proof -
  have k: "kernel_ok yes_os"
    by (auto simp: kernel_ok_def yes_os_def split: sys.splits)
  have e: "-1 \<le> ifc_ctl_sock idle_env" by (simp add: idle_env_def)
  obtain r e' where run: "run_state (ifc_configure yes_os ''wlan0'' 0x0100000A 24 0x0200000A 0 0) idle_env = (r, e')"
    by (cases "run_state (ifc_configure yes_os ''wlan0'' 0x0100000A 24 0x0200000A 0 0) idle_env")
  have "fst (run_state (ifc_configure yes_os ''wlan0'' 0x0100000A 24 0x0200000A 0 0) idle_env) = 0"
    by code_simp
  then have "r = 0" by (simp add: run)
  then show ?thesis
    using ifc_configure_result [OF k e run, of "\<lparr>if_flags = 0, if_addr = 0, if_mask = 0, if_routes = []\<rparr>"]
    by (simp add: run)
qed

section \<open>Netlink messages\<close>

text \<open>A reader of netlink attributes, as the kernel reads them.\<close>

fun parse_attrs :: "nat \<Rightarrow> bytes \<Rightarrow> (u16 \<times> bytes) list option" where
  "parse_attrs 0 b = (if b = [] then Some [] else None)"
| "parse_attrs (Suc n) b =
     (if b = [] then Some []
      else if length b < 4 then None
      else let l = unat (load16 b 0)
           in if l < 4 \<or> length b < l then None
              else map_option ((#) (load16 b 2, take (l - 4) (drop 4 b))) (parse_attrs n (drop (nlmsg_align l) b)))"

definition attr_bytes :: "u16 \<Rightarrow> bytes \<Rightarrow> bytes" where
  "attr_bytes t d = bytes16 (of_nat (rta_length (length d))) @ bytes16 t @ d"

lemma length_attr_bytes [simp]: "length (attr_bytes t d) = 4 + length d"
  by (simp add: attr_bytes_def)

lemma nlmsg_align_id: "n mod 4 = 0 \<Longrightarrow> nlmsg_align n = n"
  unfolding nlmsg_align_def by presburger

lemma nl_attr_append:
  assumes "nl_buf req = P @ replicate k 0" "nlmsg_len req = length P" "length P mod 4 = 0" "4 + length addr \<le> k"
  shows "nl_attr t addr req = \<lparr>nlmsg_len = length P + (4 + length addr),
    nl_buf = P @ attr_bytes t addr @ replicate (k - (4 + length addr)) 0\<rparr>"
  using assms by (simp add: nl_attr_def Let_def nlmsg_align_id splice_def attr_bytes_def rta_length_def)

lemma parse_attrs_append:
  assumes "length d mod 4 = 0" "length d < 60000"
  shows "parse_attrs (Suc n) (attr_bytes t d @ rest) = map_option ((#) (t, d)) (parse_attrs n rest)"
proof -
  have "load16 (attr_bytes t d @ rest) 0 = of_nat (rta_length (length d))" "load16 (attr_bytes t d @ rest) 2 = t"
    by (simp_all add: attr_bytes_def load16_def bytes16_def le16_of_word)
  moreover have "unat (of_nat (rta_length (length d)) :: u16) = 4 + length d"
    unfolding rta_length_def unat_of_nat using assms by simp
  moreover have "nlmsg_align (4 + length d) = 4 + length d" using assms(1) by (intro nlmsg_align_id) presburger
  ultimately show ?thesis
    by (simp add: Let_def) (simp add: attr_bytes_def bytes16_def)
qed

lemma parse_attrs_2:
  assumes "length d mod 4 = 0" "length d < 60000"
  shows "parse_attrs 2 (attr_bytes t d @ rest) = map_option ((#) (t, d)) (parse_attrs (Suc 0) rest)"
    and "parse_attrs 2 (attr_bytes t d) = Some [(t, d)]" and "parse_attrs (Suc 0) (attr_bytes t d) = Some [(t, d)]"
  using parse_attrs_append [OF assms, of "Suc 0" t rest] parse_attrs_append [OF assms, of "Suc 0" t "[]"]
    parse_attrs_append [OF assms, of 0 t "[]"]
  by (simp_all add: numeral_2_eq_2 del: parse_attrs.simps(2)) simp_all

lemma nl_bytes_parts:
  assumes "nl_buf req = bytes32 0 @ H @ A @ Z" "length H = 20" "nlmsg_len req = 24 + length A" "length A < 1000"
  shows "unat (load32 (nl_bytes req) 0) = nlmsg_len req" "drop 24 (take (nlmsg_len req) (nl_bytes req)) = A"
proof -
  have b: "nl_bytes req = bytes32 (of_nat (nlmsg_len req)) @ H @ A @ Z"
    using assms(1) by (simp add: nl_bytes_def splice_def)
  then have "load32 (nl_bytes req) 0 = of_nat (nlmsg_len req)"
    by (simp add: load32_def bytes32_def le32_of_word)
  then show "unat (load32 (nl_bytes req) 0) = nlmsg_len req" using assms(3,4) by (simp only: unat_of_nat) simp
  show "drop 24 (take (nlmsg_len req) (nl_bytes req)) = A" using assms by (simp add: b)
qed

text \<open>
  The netlink request of \<open>ifc_act_on_address\<close> stays inside its buffer and is well formed: its
  header carries the number of bytes sent, and its attributes are the address and, for a new
  IPv4 address, the broadcast address, which has all host bits of the prefix set.
\<close>

theorem addr_request_wellformed:
  assumes "length addr = (if family = AF_INET then 4 else 16)" and "family = AF_INET \<or> family = AF_INET6"
    and "addr_request action family addr prefixlen ifindex pid = Some req"
  shows "length (nl_buf req) = 68 \<and> nlmsg_len req \<le> 68 \<and>
    unat (load32 (nl_bytes req) 0) = nlmsg_len req \<and>
    parse_attrs 2 (drop 24 (take (nlmsg_len req) (nl_bytes req))) =
      Some ((IFA_LOCAL, addr) #
        (if family = AF_INET \<and> action = RTM_NEWADDR
         then [(IFA_BROADCAST, bytes32 (load32 addr 0 OR htonl (2 ^ nat (32 - prefixlen) - 1)))] else []))"
proof -
  define H where "H = bytes16 action @ bytes16 (1 OR 4) @ bytes32 0 @ bytes32 (of_int pid) @
    [of_nat family, of_int prefixlen, 0, 0] @ bytes32 (of_int ifindex)"
  have H: "length H = 20" by (simp add: H_def)
  let ?b = "bytes32 (load32 addr 0 OR htonl (2 ^ nat (32 - prefixlen) - 1))"
  let ?r1 = "nl_attr IFA_LOCAL addr (nl_init action family prefixlen ifindex pid)"
  have len: "length addr \<le> 16" "length addr mod 4 = 0" using assms(1,2) by auto
  have r1: "?r1 = \<lparr>nlmsg_len = 24 + (4 + length addr),
      nl_buf = (bytes32 0 @ H) @ attr_bytes IFA_LOCAL addr @ replicate (44 - (4 + length addr)) 0\<rparr>"
    using nl_attr_append [of "nl_init action family prefixlen ifindex pid" "bytes32 0 @ H" 44 addr] len
    by (simp add: nl_init_def H H_def)
  show ?thesis
  proof (cases "family = AF_INET \<and> action = RTM_NEWADDR")
    case True
    have l4: "length addr = 4" using True assms(1) by simp
    have r2: "nl_attr IFA_BROADCAST ?b ?r1 = \<lparr>nlmsg_len = 40, nl_buf = bytes32 0 @ H @
        (attr_bytes IFA_LOCAL addr @ attr_bytes IFA_BROADCAST ?b) @ replicate 28 0\<rparr>"
      using nl_attr_append [of ?r1 "bytes32 0 @ H @ attr_bytes IFA_LOCAL addr" 36 ?b] by (simp add: r1 H l4)
    have req: "req = nl_attr IFA_BROADCAST ?b ?r1"
      using assms(3) True by (auto simp: addr_request_def broadcast_addr_def push_bit_eq_mult split: if_splits)
    have "nl_buf req = bytes32 0 @ H @ (attr_bytes IFA_LOCAL addr @ attr_bytes IFA_BROADCAST ?b) @ replicate 28 0"
        "nlmsg_len req = 40"
      by (simp_all only: req r2) simp_all
    with nl_bytes_parts [OF this(1) H] l4 H show ?thesis
      by (simp add: parse_attrs_2 del: parse_attrs.simps) (use True in simp)
  next
    case False
    then have req: "req = ?r1" using assms(3) by (auto simp: addr_request_def)
    have "nl_buf req = bytes32 0 @ H @ attr_bytes IFA_LOCAL addr @ replicate (44 - (4 + length addr)) 0"
        "nlmsg_len req = 24 + (4 + length addr)"
      by (simp_all only: req r1) simp_all
    with nl_bytes_parts [OF this(1) H] len H show ?thesis
      by (simp add: parse_attrs_2 del: parse_attrs.simps) (use False in auto)
  qed
qed

theorem addr_request_wellformed_witness:
  "\<exists>req. addr_request RTM_NEWADDR AF_INET [10, 0, 0, 1] 24 3 100 = Some req \<and>
     parse_attrs 2 (drop 24 (take (nlmsg_len req) (nl_bytes req))) =
       Some [(IFA_LOCAL, [10, 0, 0, 1]), (IFA_BROADCAST, [10, 0, 0, 255])]"
proof -
  obtain req where req: "addr_request RTM_NEWADDR AF_INET [10, 0, 0, 1] 24 3 100 = Some req"
    by (simp add: addr_request_def broadcast_addr_def Let_def)
  have "bytes32 (load32 [10, 0, 0, 1] 0 OR htonl (2 ^ nat (32 - 24) - 1)) = [10, 0, 0, 255]" by code_simp
  then show ?thesis using addr_request_wellformed [OF _ _ req] req by simp
qed

section \<open>Removing all IPv4 addresses\<close>

text \<open>
  A kernel whose interface \<open>n\<close> has the addresses \<open>addrs\<close>: the query reports the first one left,
  and setting the address 0 removes it.
\<close>

definition is_removal :: "ifname \<Rightarrow> sys \<times> answer \<Rightarrow> bool" where
  "is_removal n ev \<longleftrightarrow> 0 \<le> a_ret (snd ev) \<and> (case fst ev of Ioctl fd req \<Rightarrow> req = SIOCSIFADDR n 0 | _ \<Rightarrow> False)"

definition removals :: "ifname \<Rightarrow> history \<Rightarrow> nat" where
  "removals n h = length (filter (is_removal n) h)"

definition alias_kernel :: "os \<Rightarrow> ifname \<Rightarrow> u32 list \<Rightarrow> bool" where
  "alias_kernel os n addrs \<longleftrightarrow> 0 \<notin> set addrs \<and>
     (\<forall>h s. a_ret (os h (Ioctl s (SIOCGIFADDR n))) = 0 \<and>
        a_addr (os h (Ioctl s (SIOCGIFADDR n))) =
          (if removals n h < length addrs then addrs ! removals n h else 0)) \<and>
     (\<forall>h s. a_ret (os h (Ioctl s (SIOCSIFADDR n 0))) = 0)"

lemma removals_simps [simp]:
  "removals n [] = 0" "removals n (h @ h') = removals n h + removals n h'"
  "removals n ((Socket f, a) # h) = removals n h" "removals n ((Close fd, a) # h) = removals n h"
  "removals n ((Ioctl fd (SIOCGIFADDR m), a) # h) = removals n h"
  "removals n ((Ioctl fd (SIOCSIFADDR n 0), a) # h) = (if 0 \<le> a_ret a then Suc (removals n h) else removals n h)"
  by (simp_all add: removals_def is_removal_def)

lemma clear_ipv4_loop_removals:
  assumes k: "alias_kernel os (take 15 name) addrs"
  shows "addr \<noteq> 0 \<Longrightarrow> removals (take 15 name) (trace (snd (run_state (clear_ipv4_loop os name m addr) e))) =
    removals (take 15 name) (trace e) + min m (length addrs - removals (take 15 name) (trace e))"
proof (induction m arbitrary: addr e)
  case (Suc m)
  let ?n = "take 15 name" and ?s = "ifc_ctl_sock e"
  let ?r = "removals ?n (trace e)"
  let ?q = "Ioctl ?s (SIOCGIFADDR ?n)"
  let ?e1 = "sys_step os ?q e"
  have get: "run_state (ifc_get_addr os name) e = ((0, if ?r < length addrs then addrs ! ?r else 0), ?e1)"
    using k by (simp add: ifc_get_addr_def ioctl_def ifc_init_ifr_def run_simps alias_kernel_def split_beta)
  show ?case
  proof (cases "?r < length addrs")
    case True
    let ?a = "addrs ! ?r" and ?w = "Ioctl ?s (SIOCSIFADDR ?n 0)"
    have nz: "?a \<noteq> 0" using k True by (metis alias_kernel_def nth_mem)
    have set0: "run_state (ifc_set_addr os name 0) ?e1 = (0, sys_step os ?w ?e1)"
      using k by (simp add: ifc_set_addr_def ioctl_def ifc_init_ifr_def run_simps alias_kernel_def split_beta)
    have "removals ?n (trace (sys_step os ?w ?e1)) = Suc ?r"
      using k by (simp add: run_simps alias_kernel_def)
    with Suc.IH [OF nz, of "sys_step os ?w ?e1"] Suc.prems show ?thesis
      using True nz by (simp add: get set0 split_beta)
  next
    case False
    have "removals ?n (trace (snd (run_state (clear_ipv4_loop os name m 0) ?e1))) = ?r"
      by (cases m) (simp_all add: run_simps)
    then show ?thesis using False Suc.prems by (simp add: get split_beta)
  qed
qed simp


definition two_addr_os :: os where
  "two_addr_os h c = \<lparr>a_ret = (case c of Socket f \<Rightarrow> 5 | _ \<Rightarrow> 0), a_errno = 0,
     a_addr = (if removals ''eth0'' h < 2 then [7, 9] ! removals ''eth0'' h else 0), a_flags = 0,
     a_family = 0, a_bytes = [], a_str = []\<rparr>"


end
