(* ===== verification/Dhcp_Client.thy ===== *)
theory Dhcp_Client
  imports Ifc
begin

text \<open>
  The DHCP client, \<open>system/core/libnetutils/dhcpclient.c\<close>. The body of the \<open>for\<close> loop of
  \<open>dhcp_init_ifc\<close> is a step function on the client's variables and the outcome of one
  \<open>poll\<close>; \<open>dhcp_init_ifc\<close> drives it with the system. The lemmas show the handshake,
  the bounds on timeouts and transmissions, which replies can configure the interface, and
  where the loop trusts a reply it has just rejected.
\<close>

section \<open>The variables of the loop\<close>

datatype dhcp_state = STATE_SELECTING | STATE_REQUESTING

record client =
  c_state :: dhcp_state
  c_timeout :: nat
  c_xid :: u32
  c_info :: dhcp_info
  c_discover :: dhcp_msg
  c_request :: dhcp_msg
  c_reply :: bytes
  c_hwaddr :: bytes
  c_ifindex :: int

abbreviation TIMEOUT_INITIAL :: nat where "TIMEOUT_INITIAL \<equiv> 4000"
abbreviation TIMEOUT_MAX :: nat where "TIMEOUT_MAX \<equiv> 32000"
abbreviation EAGAIN :: int where "EAGAIN \<equiv> 11"
abbreviation EINTR :: int where "EINTR \<equiv> 4"
abbreviation ENETDOWN :: int where "ENETDOWN \<equiv> 100"
abbreviation ENXIO :: int where "ENXIO \<equiv> 6"
abbreviation ETIME :: int where "ETIME \<equiv> 62"

text \<open>The outcome of \<open>poll\<close>, and of \<open>receive_packet\<close> with the \<open>errno\<close> it leaves.\<close>

datatype event = Ev_Timeout | Ev_PollErr int | Ev_Ready recv_result int

text \<open>
  How an iteration ends: with the next one; with \<open>return -1\<close>, with or without the socket
  closed; with \<open>return dhcp_configure(ifname, &info)\<close>, likewise; or in undefined behaviour.
\<close>

datatype status =
    Running client
  | Failed bool
  | Configure bool dhcp_info
  | Undefined

section \<open>Transmission\<close>

definition send_message :: "int \<Rightarrow> dhcp_msg \<Rightarrow> nat \<Rightarrow> frame" where
  "send_message if_index msg sz =
     send_packet if_index (dhcp_msg_bytes msg) sz 0 0xFFFFFFFF (ucast PORT_BOOTP_CLIENT) (ucast PORT_BOOTP_SERVER)"

definition transmit :: "client \<Rightarrow> client \<times> frame list" where
  "transmit c =
     (case c_state c of
        STATE_SELECTING \<Rightarrow>
          let (msg, sz) = init_dhcp_discover_msg (c_hwaddr c) (c_xid c)
          in (c\<lparr>c_discover := msg\<rparr>, [send_message (c_ifindex c) msg sz])
      | STATE_REQUESTING \<Rightarrow>
          let (msg, sz) = init_dhcp_request_msg (c_hwaddr c) (c_xid c) (di_ipaddr (c_info c)) (di_serveraddr (c_info c))
          in (c\<lparr>c_request := msg\<rparr>, [send_message (c_ifindex c) msg sz]))"

section \<open>One iteration\<close>

text \<open>What follows \<open>decode_dhcp_msg\<close> on a reply of \<open>r\<close> bytes.\<close>

definition handle_reply :: "client \<Rightarrow> dhcp_msg \<Rightarrow> int \<Rightarrow> status \<times> frame list" where
  "handle_reply c reply r =
     (let valid_reply = is_valid_reply (if c_state c = STATE_SELECTING then c_discover c else c_request c) reply r
      in if \<not> valid_reply then (Running c, [])
         else case c_state c of
           STATE_SELECTING \<Rightarrow>
             if di_type (c_info c) = ucast DHCPOFFER
             then let (c', out) = transmit (c\<lparr>c_state := STATE_REQUESTING, c_timeout := TIMEOUT_INITIAL, c_xid := c_xid c + 1\<rparr>)
                  in (Running c', out)
             else (Running c, [])
         | STATE_REQUESTING \<Rightarrow>
             if di_type (c_info c) = ucast DHCPACK then (Configure True (c_info c), [])
             else if di_type (c_info c) = ucast DHCPNAK then (Failed True, [])
             else (Running c, []))"

definition step :: "client \<Rightarrow> event \<Rightarrow> status \<times> frame list" where
  "step c ev =
     (case ev of
        Ev_Timeout \<Rightarrow>
          if TIMEOUT_MAX \<le> c_timeout c then
            (if di_type (c_info c) = ucast DHCPOFFER then (Configure False (c_info c), []) else (Failed True, []))
          else let (c', out) = transmit (c\<lparr>c_timeout := c_timeout c * 2\<rparr>) in (Running c', out)
      | Ev_PollErr err \<Rightarrow> if err = EAGAIN \<or> err = EINTR then (Running c, []) else (Failed False, [])
      | Ev_Ready res err \<Rightarrow>
          (case res of
             RecvErr \<Rightarrow>
               if err \<noteq> 0 \<and> (err = ENETDOWN \<or> err = ENXIO) then (Failed False, []) else (Running c, [])
           | RecvOverrun n \<Rightarrow> (Undefined, [])
           | RecvMsg n payload \<Rightarrow>
               let buf = splice (c_reply c) 0 payload;
                   reply = dhcp_msg_load buf
               in case decode_dhcp_msg reply (int n) of
                    None \<Rightarrow> (Undefined, [])
                  | Some (_, info) \<Rightarrow> handle_reply (c\<lparr>c_reply := buf, c_info := info\<rparr>) reply (int n)))"

text \<open>The loop over a sequence of outcomes, with everything transmitted.\<close>

fun run :: "client \<Rightarrow> event list \<Rightarrow> status \<times> frame list" where
  "run c [] = (Running c, [])"
| "run c (ev # evs) =
     (case step c ev of
        (Running c', out) \<Rightarrow> (case run c' evs of (st, out') \<Rightarrow> (st, out @ out'))
      | (st, out) \<Rightarrow> (st, out))"

text \<open>The variables at the first jump to \<open>transmit\<close>; \<open>stack\<close> stands for the uninitialised ones.\<close>

definition initial :: "client \<Rightarrow> u32 \<Rightarrow> bytes \<Rightarrow> int \<Rightarrow> client" where
  "initial stack xid0 hwaddr if_index =
     stack\<lparr>c_state := STATE_SELECTING, c_timeout := TIMEOUT_INITIAL, c_xid := xid0,
       c_info := (c_info stack)\<lparr>di_type := 0\<rparr>, c_hwaddr := hwaddr, c_ifindex := if_index\<rparr>"

definition start :: "client \<Rightarrow> u32 \<Rightarrow> bytes \<Rightarrow> int \<Rightarrow> event list \<Rightarrow> status \<times> frame list" where
  "start stack xid0 hwaddr if_index evs =
     (let (c, out) = transmit (initial stack xid0 hwaddr if_index);
          (st, out') = run c evs
      in (st, out @ out'))"

section \<open>Invariant\<close>

lemma msg_fields:
  "xid (fst (init_dhcp_discover_msg hw x)) = x" "hlen (fst (init_dhcp_discover_msg hw x)) = 6"
  "htype (fst (init_dhcp_discover_msg hw x)) = HTYPE_ETHER"
  "chaddr (fst (init_dhcp_discover_msg hw x)) = splice (replicate 16 0) 0 (take 6 hw)"
  "xid (fst (init_dhcp_request_msg hw x ip srv)) = x" "hlen (fst (init_dhcp_request_msg hw x ip srv)) = 6"
  "htype (fst (init_dhcp_request_msg hw x ip srv)) = HTYPE_ETHER"
  "chaddr (fst (init_dhcp_request_msg hw x ip srv)) = splice (replicate 16 0) 0 (take 6 hw)"
  by (simp_all add: init_dhcp_discover_msg_def init_dhcp_request_msg_def init_dhcp_msg_def put_def Let_def)

definition client_inv :: "client \<Rightarrow> bool" where
  "client_inv c \<longleftrightarrow> c_timeout c \<in> {4000, 8000, 16000, 32000} \<and> length (c_reply c) = dhcp_msg_size \<and>
     (case c_state c of
        STATE_SELECTING \<Rightarrow> c_discover c = fst (init_dhcp_discover_msg (c_hwaddr c) (c_xid c))
      | STATE_REQUESTING \<Rightarrow> \<exists>ip srv. c_request c = fst (init_dhcp_request_msg (c_hwaddr c) (c_xid c) ip srv))"

text \<open>What \<open>receive_packet\<close> can return: a message is never longer than the structure.\<close>

definition event_ok :: "event \<Rightarrow> bool" where
  "event_ok ev \<longleftrightarrow> (case ev of Ev_Ready (RecvMsg n payload) err \<Rightarrow> length payload = n \<and> n \<le> dhcp_msg_size | _ \<Rightarrow> True)"

lemma receive_packet_event_ok:
  assumes "length stack = dhcp_packet_size"
  shows "event_ok (Ev_Ready (receive_packet stack rd) err)"
proof (cases rd)
  case (Some d)
  have "length (splice stack 0 (take dhcp_packet_size d)) = dhcp_packet_size"
    using assms by (simp add: splice_def)
  then show ?thesis
    using Some by (auto simp: receive_packet_def event_ok_def Let_def dhcp_packet_size_def)
qed (simp add: receive_packet_def event_ok_def)

lemma transmit_fields [simp]:
  "c_state (fst (transmit c)) = c_state c" "c_timeout (fst (transmit c)) = c_timeout c"
  "c_xid (fst (transmit c)) = c_xid c" "c_info (fst (transmit c)) = c_info c"
  "c_reply (fst (transmit c)) = c_reply c" "c_hwaddr (fst (transmit c)) = c_hwaddr c"
  "c_ifindex (fst (transmit c)) = c_ifindex c" "length (snd (transmit c)) = 1"
  by (simp_all add: transmit_def split: dhcp_state.split prod.split)

lemma transmit_inv:
  "c_timeout c \<in> {4000, 8000, 16000, 32000} \<Longrightarrow> length (c_reply c) = dhcp_msg_size \<Longrightarrow> client_inv (fst (transmit c))"
  by (auto simp: client_inv_def transmit_def split: dhcp_state.split prod.split) (metis fst_conv)+

lemma decode_reply:
  assumes "length buf = dhcp_msg_size" "n \<le> dhcp_msg_size"
  shows "\<exists>r info. decode_dhcp_msg (dhcp_msg_load buf) (int n) = Some (r, info)"
proof -
  have "dhcp_msg_wf (dhcp_msg_load buf)" using assms by (simp add: dhcp_msg_wf_def dhcp_msg_load_def dhcp_msg_size_def)
  then have "decode_dhcp_msg (dhcp_msg_load buf) (int n) \<noteq> None" using assms(2) by (intro decode_dhcp_msg_total) simp_all
  then show ?thesis by auto
qed

section \<open>Steps\<close>

lemma length_splice: "length src + off \<le> length m \<Longrightarrow> length (splice m off src) = length m"
  by (simp add: splice_def)

text \<open>The iterations that receive a message, with the variables after \<open>decode_dhcp_msg\<close>.\<close>

lemma step_message:
  assumes "client_inv c" "event_ok (Ev_Ready (RecvMsg n payload) err)"
  obtains r info c1 where "c1 = c\<lparr>c_reply := splice (c_reply c) 0 payload, c_info := info\<rparr>"
    "decode_dhcp_msg (dhcp_msg_load (c_reply c1)) (int n) = Some (r, info)" "client_inv c1"
    "step c (Ev_Ready (RecvMsg n payload) err) = handle_reply c1 (dhcp_msg_load (c_reply c1)) (int n)"
proof -
  have len: "length (splice (c_reply c) 0 payload) = dhcp_msg_size"
    using assms by (subst length_splice) (auto simp: client_inv_def event_ok_def)
  then obtain r info where dec: "decode_dhcp_msg (dhcp_msg_load (splice (c_reply c) 0 payload)) (int n) = Some (r, info)"
    using decode_reply [OF len, of n] assms(2) by (auto simp: event_ok_def)
  let ?c1 = "c\<lparr>c_reply := splice (c_reply c) 0 payload, c_info := info\<rparr>"
  have "client_inv ?c1" using assms(1) len by (auto simp: client_inv_def split: dhcp_state.splits)
  then show ?thesis using dec by (intro that [of ?c1 info r]) (simp_all add: step_def Let_def)
qed

definition rank :: "nat \<Rightarrow> nat" where
  "rank t = (if 32000 \<le> t then 1 else if 16000 \<le> t then 2 else if 8000 \<le> t then 3 else 4)"

definition timeouts_left :: "client \<Rightarrow> nat" where
  "timeouts_left c = rank (c_timeout c) + (case c_state c of STATE_SELECTING \<Rightarrow> 3 | STATE_REQUESTING \<Rightarrow> 0)"

definition sends_left :: "client \<Rightarrow> nat" where
  "sends_left c = rank (c_timeout c) - 1 + (case c_state c of STATE_SELECTING \<Rightarrow> 4 | STATE_REQUESTING \<Rightarrow> 0)"

lemma rank_pos: "1 \<le> rank t" "rank 4000 = 4"
  by (simp_all add: rank_def)

lemma rank_double: "t \<in> {4000, 8000, 16000} \<Longrightarrow> rank t = Suc (rank (t * 2))"
  by (auto simp: rank_def)

text \<open>An iteration that goes on: the invariant holds again and the bounds shrink.\<close>

definition progress :: "client \<Rightarrow> event \<Rightarrow> client \<Rightarrow> frame list \<Rightarrow> bool" where
  "progress c ev c' out \<longleftrightarrow> client_inv c' \<and> c_hwaddr c' = c_hwaddr c \<and>
     (if ev = Ev_Timeout then 1 else 0) + timeouts_left c' \<le> timeouts_left c \<and>
     length out + sends_left c' \<le> sends_left c \<and>
     (c_state c' = c_state c \<and> c_xid c' = c_xid c \<or>
      c_state c = STATE_SELECTING \<and> c_state c' = STATE_REQUESTING \<and> c_xid c' = c_xid c + 1)"

lemma progress_handle_reply:
  assumes "client_inv c" "handle_reply c reply r = (Running c', out)"
  shows "progress c (Ev_Ready res err) c' out"
proof (cases "c' = c \<and> out = []")
  case True
  then show ?thesis using assms(1) by (simp add: progress_def)
next
  case False
  let ?d = "c\<lparr>c_state := STATE_REQUESTING, c_timeout := TIMEOUT_INITIAL, c_xid := c_xid c + 1\<rparr>"
  have t: "c' = fst (transmit ?d)" "out = snd (transmit ?d)" "c_state c = STATE_SELECTING"
    using assms(2) False
    by (auto simp: handle_reply_def Let_def split_beta split: if_splits dhcp_state.splits)
  have "client_inv c'" unfolding t(1) using assms(1) by (intro transmit_inv) (auto simp: client_inv_def)
  then show ?thesis
    using rank_pos(1) [of "c_timeout c"] rank_pos(2)
    by (simp add: progress_def timeouts_left_def sends_left_def t)
qed

lemma progress_step:
  assumes inv: "client_inv c" and ok: "event_ok ev" and run: "step c ev = (Running c', out)"
  shows "progress c ev c' out"
proof (cases ev)
  case Ev_Timeout
  let ?d = "c\<lparr>c_timeout := c_timeout c * 2\<rparr>"
  have t: "\<not> TIMEOUT_MAX \<le> c_timeout c" "c' = fst (transmit ?d)" "out = snd (transmit ?d)"
    using run Ev_Timeout by (auto simp: step_def Let_def split_beta split: if_splits)
  then have tm: "c_timeout c \<in> {4000, 8000, 16000}" using inv by (auto simp: client_inv_def)
  have "client_inv c'" unfolding t(2) using inv tm by (intro transmit_inv) (auto simp: client_inv_def)
  then show ?thesis
    using rank_double [OF tm] rank_pos(1) [of "c_timeout c * 2"]
    by (simp add: progress_def timeouts_left_def sends_left_def t Ev_Timeout)
next
  case (Ev_PollErr x2)
  then have "c' = c" "out = []" using run by (auto simp: step_def split: if_splits)
  then show ?thesis using inv Ev_PollErr by (simp add: progress_def)
next
  case (Ev_Ready res err)
  show ?thesis
  proof (cases res)
    case RecvErr
    then have "c' = c" "out = []" using run Ev_Ready by (auto simp: step_def split: if_splits)
    then show ?thesis using inv Ev_Ready by (simp add: progress_def)
  next
    case (RecvMsg n payload)
    with ok Ev_Ready have "event_ok (Ev_Ready (RecvMsg n payload) err)" by simp
    from step_message [OF inv this] obtain r info c1 where
      c1: "c1 = c\<lparr>c_reply := splice (c_reply c) 0 payload, c_info := info\<rparr>" "client_inv c1"
      and st: "step c (Ev_Ready (RecvMsg n payload) err) = handle_reply c1 (dhcp_msg_load (c_reply c1)) (int n)"
      by metis
    have "progress c1 ev c' out"
      unfolding Ev_Ready using run st c1(2) RecvMsg Ev_Ready by (intro progress_handle_reply) simp_all
    then show ?thesis by (simp add: progress_def c1(1) timeouts_left_def sends_left_def)
  next
    case (RecvOverrun x3)
    then show ?thesis using run Ev_Ready by (simp add: step_def)
  qed
qed

section \<open>Runs\<close>

fun is_running :: "status \<Rightarrow> bool" where
  "is_running (Running c) = True"
| "is_running _ = False"

definition timeouts :: "event list \<Rightarrow> nat" where
  "timeouts evs = length (filter (\<lambda>ev. ev = Ev_Timeout) evs)"

lemma step_stops: "step c ev = (st, out) \<Longrightarrow> \<not> is_running st \<Longrightarrow> out = []"
  by (auto simp: step_def handle_reply_def Let_def split_beta
      split: event.splits recv_result.splits if_splits option.splits dhcp_state.splits)

lemma run_stops:
  "run c evs = (st, out) \<Longrightarrow> \<not> is_running st \<Longrightarrow>
     \<exists>evs1 ev evs2 c1. evs = evs1 @ ev # evs2 \<and> run c evs1 = (Running c1, out) \<and> step c1 ev = (st, [])"
proof (induction c evs arbitrary: st out rule: run.induct)
  case (2 c ev evs)
  obtain st1 out1 where s: "step c ev = (st1, out1)" by (cases "step c ev")
  show ?case
  proof (cases st1)
    case (Running c')
    obtain out2 where r: "run c' evs = (st, out2)" "out = out1 @ out2"
      using 2(2) s Running by (auto split: prod.splits)
    obtain evs1 ev' evs2 c1 where "evs = evs1 @ ev' # evs2" "run c' evs1 = (Running c1, out2)" "step c1 ev' = (st, [])"
      using 2(1) [OF s [symmetric] Running r(1) 2(3)] by blast
    then show ?thesis using s Running r(2)
      by (intro exI [of _ "ev # evs1"] exI [of _ ev'] exI [of _ evs2] exI [of _ c1]) simp
  qed (use 2(2,3) s step_stops [OF s] in \<open>(intro exI [of _ "[]"] exI [of _ ev] exI [of _ evs] exI [of _ c]; simp)+\<close>)
qed simp

lemma run_running:
  "run c evs = (Running c', out) \<Longrightarrow> client_inv c \<Longrightarrow> list_all event_ok evs \<Longrightarrow>
     client_inv c' \<and> c_hwaddr c' = c_hwaddr c \<and> timeouts evs + timeouts_left c' \<le> timeouts_left c \<and>
     length out + sends_left c' \<le> sends_left c \<and>
     (c_state c' = c_state c \<and> c_xid c' = c_xid c \<or>
      c_state c = STATE_SELECTING \<and> c_state c' = STATE_REQUESTING \<and> c_xid c' = c_xid c + 1)"
proof (induction c evs arbitrary: c' out rule: run.induct)
  case (1 c)
  then show ?case by (simp add: timeouts_def)
next
  case (2 c ev evs)
  obtain c1 out1 out2 where s: "step c ev = (Running c1, out1)" "run c1 evs = (Running c', out2)" "out = out1 @ out2"
    using 2(2) by (auto split: prod.splits status.splits)
  have p: "progress c ev c1 out1" using 2(3,4) s(1) by (intro progress_step) simp_all
  have "timeouts (ev # evs) = (if ev = Ev_Timeout then 1 else 0) + timeouts evs" by (simp add: timeouts_def)
  then show ?case
    using 2(1) [OF s(1) [symmetric] refl s(2)] 2(4) p s(3) by (auto simp: progress_def)
qed

lemma start_inv:
  "length (c_reply stack) = dhcp_msg_size \<Longrightarrow> client_inv (fst (transmit (initial stack xid0 hwaddr if_index)))"
  by (intro transmit_inv) (simp_all add: initial_def)



section \<open>Which replies configure the interface\<close>

lemma is_valid_replyD:
  assumes "is_valid_reply msg reply sz" "hlen msg = 6"
  shows "op reply = OP_BOOTREPLY" "xid reply = xid msg" "take 6 (chaddr msg) = take 6 (chaddr reply)"
    "int DHCP_MSG_FIXED_SIZE \<le> sz"
  using assms by (auto simp: is_valid_reply_def split: if_splits)

lemma handle_reply_configures:
  assumes "handle_reply c reply r = (Configure b info, out)"
  shows "b" "info = c_info c" "di_type info = ucast DHCPACK" "c_state c = STATE_REQUESTING"
    "is_valid_reply (c_request c) reply r"
  using assms by (auto simp: handle_reply_def Let_def split_beta split: if_splits dhcp_state.splits)

lemma step_configures:
  assumes inv: "client_inv c" and ok: "event_ok ev" and st: "step c ev = (Configure True info, out)"
  obtains n payload err reply r where "ev = Ev_Ready (RecvMsg n payload) err"
    "take n (dhcp_msg_bytes reply) = payload" "decode_dhcp_msg reply (int n) = Some (r, info)"
    "di_type info = ucast DHCPACK" "c_state c = STATE_REQUESTING" "is_valid_reply (c_request c) reply (int n)"
proof -
  obtain n payload err where ev: "ev = Ev_Ready (RecvMsg n payload) err"
    using st by (auto simp: step_def Let_def split_beta split: event.splits recv_result.splits if_splits)
  from step_message [OF inv ok [unfolded ev]] obtain r info1 c1 where
    c1: "c1 = c\<lparr>c_reply := splice (c_reply c) 0 payload, c_info := info1\<rparr>"
    and dec: "decode_dhcp_msg (dhcp_msg_load (c_reply c1)) (int n) = Some (r, info1)"
    and inv1: "client_inv c1"
    and step: "step c ev = handle_reply c1 (dhcp_msg_load (c_reply c1)) (int n)"
    unfolding ev by metis
  note h = handle_reply_configures [OF step [symmetric, unfolded st]]
  have len: "length (c_reply c1) = dhcp_msg_size" using inv1 by (simp add: client_inv_def)
  then have "take n (dhcp_msg_bytes (dhcp_msg_load (c_reply c1))) = payload"
    using ok ev by (simp add: dhcp_msg_bytes_load event_ok_def) (simp add: c1 splice_def)
  with ev dec h show ?thesis by (intro that) (simp_all add: c1)
qed


section \<open>The handshake\<close>

text \<open>A reply of \<open>n\<close> bytes a server sends to the client with address \<open>hw\<close> in transaction \<open>x\<close>.\<close>

definition server_reply :: "dhcp_msg \<Rightarrow> nat \<Rightarrow> bytes \<Rightarrow> u32 \<Rightarrow> dhcp_info \<Rightarrow> bool" where
  "server_reply m n hw x info \<longleftrightarrow> dhcp_msg_wf m \<and> 236 \<le> n \<and> n \<le> dhcp_msg_size \<and> op m = OP_BOOTREPLY \<and>
     htype m = HTYPE_ETHER \<and> hlen m = 6 \<and> xid m = x \<and> take 6 (chaddr m) = take 6 hw \<and>
     (\<exists>r. decode_dhcp_msg m (int n) = Some (r, info))"

definition deliver :: "dhcp_msg \<Rightarrow> nat \<Rightarrow> event" where
  "deliver m n = Ev_Ready (RecvMsg n (take n (dhcp_msg_bytes m))) 0"

lemma deliver_ok: "dhcp_msg_wf m \<Longrightarrow> n \<le> dhcp_msg_size \<Longrightarrow> event_ok (deliver m n)"
  by (simp add: event_ok_def deliver_def length_dhcp_msg_bytes)

lemma step_deliver:
  assumes inv: "client_inv c" and m: "dhcp_msg_wf m" "n \<le> dhcp_msg_size"
    and dec: "decode_dhcp_msg m (int n) = Some (r, info)"
  shows "\<exists>reply. step c (deliver m n) =
      handle_reply (c\<lparr>c_reply := splice (c_reply c) 0 (take n (dhcp_msg_bytes m)), c_info := info\<rparr>) reply (int n) \<and>
    (\<forall>q. is_valid_reply q reply (int n) = is_valid_reply q m (int n)) \<and>
    client_inv (c\<lparr>c_reply := splice (c_reply c) 0 (take n (dhcp_msg_bytes m)), c_info := info\<rparr>)"
proof -
  have len: "length (c_reply c) = dhcp_msg_size" using inv by (simp add: client_inv_def)
  note rr = received_reply [OF m(1) len m(2) refl]
  have ok: "event_ok (Ev_Ready (RecvMsg n (take n (dhcp_msg_bytes m))) 0)"
    using deliver_ok [OF m] by (simp add: deliver_def)
  from step_message [OF inv ok] obtain r' info' c1 where
    "c1 = c\<lparr>c_reply := splice (c_reply c) 0 (take n (dhcp_msg_bytes m)), c_info := info'\<rparr>"
    "decode_dhcp_msg (dhcp_msg_load (c_reply c1)) (int n) = Some (r', info')" "client_inv c1"
    "step c (deliver m n) = handle_reply c1 (dhcp_msg_load (c_reply c1)) (int n)"
    unfolding deliver_def by metis
  then show ?thesis using dec rr by (intro exI [of _ "dhcp_msg_load (c_reply c1)"]) auto
qed

lemma server_reply_valid:
  assumes "server_reply m n hw x info" "length hw = 6" "q = fst (init_dhcp_discover_msg hw x) \<or> q = fst (init_dhcp_request_msg hw x ip srv)"
  shows "is_valid_reply q m (int n)"
  using assms by (auto simp: server_reply_def is_valid_reply_def msg_fields splice_def)

lemma handshake_run:
  assumes stack: "length (c_reply stack) = dhcp_msg_size" and hw: "length hwaddr = 6"
    and offer: "server_reply om on hwaddr xid0 oinfo" "di_type oinfo = ucast DHCPOFFER"
    and ack: "server_reply am an hwaddr (xid0 + 1) ainfo" "di_type ainfo = ucast DHCPACK"
  shows "start stack xid0 hwaddr if_index [deliver om on, deliver am an] =
    (Configure True ainfo,
     [case init_dhcp_discover_msg hwaddr xid0 of (m, n) \<Rightarrow> send_message if_index m n,
      case init_dhcp_request_msg hwaddr (xid0 + 1) (di_ipaddr oinfo) (di_serveraddr oinfo) of (m, n) \<Rightarrow>
        send_message if_index m n])"
proof -
  let ?c0 = "fst (transmit (initial stack xid0 hwaddr if_index))"
  have inv0: "client_inv ?c0" by (rule start_inv [OF stack])
  have c0: "c_state ?c0 = STATE_SELECTING" "c_hwaddr ?c0 = hwaddr" "c_xid ?c0 = xid0" "c_ifindex ?c0 = if_index"
      "c_discover ?c0 = fst (init_dhcp_discover_msg hwaddr xid0)"
    using inv0 by (auto simp: initial_def client_inv_def)
  obtain reply where s1: "step ?c0 (deliver om on) =
      handle_reply (?c0\<lparr>c_reply := splice (c_reply ?c0) 0 (take on (dhcp_msg_bytes om)), c_info := oinfo\<rparr>) reply (int on)"
    and v1: "\<forall>q. is_valid_reply q reply (int on) = is_valid_reply q om (int on)"
    and i1: "client_inv (?c0\<lparr>c_reply := splice (c_reply ?c0) 0 (take on (dhcp_msg_bytes om)), c_info := oinfo\<rparr>)"
    using step_deliver [OF inv0, of om on _ oinfo] offer(1) unfolding server_reply_def by blast
  let ?d = "?c0\<lparr>c_reply := splice (c_reply ?c0) 0 (take on (dhcp_msg_bytes om)), c_info := oinfo,
    c_state := STATE_REQUESTING, c_timeout := TIMEOUT_INITIAL, c_xid := xid0 + 1\<rparr>"
  let ?c1 = "fst (transmit ?d)"
  have "step ?c0 (deliver om on) = (Running ?c1, snd (transmit ?d))"
    using s1 v1 server_reply_valid [OF offer(1) hw, of "c_discover ?c0"] offer(2) c0
    by (simp add: handle_reply_def split_beta)
  moreover have inv1: "client_inv ?c1" using i1 by (intro transmit_inv) (auto simp: client_inv_def)
  have c1: "c_state ?c1 = STATE_REQUESTING"
      "c_request ?c1 = fst (init_dhcp_request_msg hwaddr (xid0 + 1) (di_ipaddr oinfo) (di_serveraddr oinfo))"
    using c0 by (simp_all add: transmit_def split_beta)
  obtain reply2 where "step ?c1 (deliver am an) =
      handle_reply (?c1\<lparr>c_reply := splice (c_reply ?c1) 0 (take an (dhcp_msg_bytes am)), c_info := ainfo\<rparr>) reply2 (int an)"
    "\<forall>q. is_valid_reply q reply2 (int an) = is_valid_reply q am (int an)"
    using step_deliver [OF inv1, of am an _ ainfo] ack(1) unfolding server_reply_def by blast
  then have "step ?c1 (deliver am an) = (Configure True ainfo, [])"
    using server_reply_valid [OF ack(1) hw, of "c_request ?c1" "di_ipaddr oinfo" "di_serveraddr oinfo"] ack(2) c1
    by (simp add: handle_reply_def)
  moreover have "snd (transmit ?d) = [case init_dhcp_request_msg hwaddr (xid0 + 1) (di_ipaddr oinfo) (di_serveraddr oinfo)
      of (m, n) \<Rightarrow> send_message if_index m n]"
    using c0 by (simp add: transmit_def split_beta)
  moreover have "snd (transmit (initial stack xid0 hwaddr if_index)) =
      [case init_dhcp_discover_msg hwaddr xid0 of (m, n) \<Rightarrow> send_message if_index m n]"
    by (simp add: transmit_def initial_def split_beta)
  ultimately show ?thesis by (simp add: start_def split_beta Let_def)
qed

text \<open>
  C8. The handshake succeeds. If the client receives a DHCPOFFER and then a DHCPACK, each
  addressed to it and in the transaction of the message it answers, it sends one DISCOVER and
  one REQUEST for the offered address to the offering server and configures the interface with
  what the DHCPACK says, whatever its receive buffer held before.
\<close>

theorem dhcp_handshake:
  assumes "length (c_reply stack) = dhcp_msg_size" and "length hwaddr = 6"
    and "server_reply om on hwaddr xid0 oinfo" "di_type oinfo = ucast DHCPOFFER"
    and "server_reply am an hwaddr (xid0 + 1) ainfo" "di_type ainfo = ucast DHCPACK"
  shows "start stack xid0 hwaddr if_index [deliver om on, deliver am an] =
    (Configure True ainfo,
     [case init_dhcp_discover_msg hwaddr xid0 of (m, n) \<Rightarrow> send_message if_index m n,
      case init_dhcp_request_msg hwaddr (xid0 + 1) (di_ipaddr oinfo) (di_serveraddr oinfo) of (m, n) \<Rightarrow>
        send_message if_index m n])"
  using assms by (rule handshake_run)

text \<open>A server's messages for the witnesses.\<close>

definition sample_opts :: "u8 \<Rightarrow> dhcp_opt list" where
  "sample_opts type = [(OPT_MESSAGE_TYPE, [type]), (OPT_SERVER_ID, [10, 0, 0, 1]), (OPT_SUBNET_MASK, [255, 255, 255, 0])]"

definition sample_reply :: "u8 \<Rightarrow> u32 \<Rightarrow> u32 \<Rightarrow> dhcp_msg" where
  "sample_reply type x ip = \<lparr>op = OP_BOOTREPLY, htype = HTYPE_ETHER, hlen = 6, hops = 0, xid = x, secs = 0, flags = 0,
     ciaddr = 0, yiaddr = ip, siaddr = 0, giaddr = 0, chaddr = [1, 2, 3, 4, 5, 6] @ replicate 10 0,
     sname = replicate 64 0, bootfile = replicate 128 0,
     options = OPT_COOKIE @ concat (map opt_bytes (sample_opts type)) @ OPT_END # replicate 1004 0\<rparr>"

definition sample_info :: "u8 \<Rightarrow> u32 \<Rightarrow> dhcp_info" where
  "sample_info type ip =
     zero_info\<lparr>di_type := ucast type, di_serveraddr := 0x0100000A, di_prefixLength := 24, di_ipaddr := ip\<rparr>"

definition sample_stack :: client where
  "sample_stack = \<lparr>c_state = STATE_SELECTING, c_timeout = 0, c_xid = 0, c_info = zero_info,
     c_discover = sample_reply 0 0 0, c_request = sample_reply 0 0 0, c_reply = replicate dhcp_msg_size 7,
     c_hwaddr = [], c_ifindex = 0\<rparr>"

lemma sample_decodes:
  "dhcp_msg_wf (sample_reply type x ip)" "decode_dhcp_msg (sample_reply type x ip) 300 = Some (0, sample_info type ip)"
proof -
  have l: "length (concat (map opt_bytes (sample_opts type))) = 15" by (simp add: sample_opts_def opt_bytes_def)
  then show "dhcp_msg_wf (sample_reply type x ip)" by (simp add: dhcp_msg_wf_def sample_reply_def)
  have srv: "load32 [10, 0, 0, 1] 0 = 0x0100000A" and pl: "of_int (ipv4NetmaskToPrefixLength (load32 [255, 255, 255, 0] 0)) = (24 :: u32)"
    by code_simp+
  have fold: "fold apply_opt (sample_opts type) zero_info =
      zero_info\<lparr>di_type := ucast type, di_serveraddr := 0x0100000A, di_prefixLength := 24\<rparr>"
    by (simp add: sample_opts_def apply_opt_def Let_def srv pl)
  have wf: "\<forall>ob \<in> set (sample_opts type). opt_wf ob" by (simp add: sample_opts_def opt_wf_def)
  show "decode_dhcp_msg (sample_reply type x ip) 300 = Some (0, sample_info type ip)"
    using decode_dhcp_msg_options [OF wf, of "sample_reply type x ip" "replicate 1004 0" 300] l fold
    by (simp add: sample_reply_def sample_info_def)
qed

lemma sample_server: "server_reply (sample_reply type x ip) 300 [1, 2, 3, 4, 5, 6] x (sample_info type ip)"
  using sample_decodes [of type x ip] by (simp add: server_reply_def dhcp_msg_size_def) (simp add: sample_reply_def)

lemma sample_handshake:
  "fst (start sample_stack 9 [1, 2, 3, 4, 5, 6] 2 [deliver (sample_reply DHCPOFFER 9 5) 300, deliver (sample_reply DHCPACK 10 5) 300]) =
     Configure True (sample_info DHCPACK 5)"
  using handshake_run [of sample_stack "[1, 2, 3, 4, 5, 6]", OF _ _ sample_server [of DHCPOFFER 9 5] _ _ _]
    sample_server [of DHCPACK 10 5]
  by (simp add: sample_stack_def sample_info_def)

theorem dhcp_handshake_witness:
  "fst (start sample_stack 9 [1, 2, 3, 4, 5, 6] 2 [deliver (sample_reply DHCPOFFER 9 5) 300, deliver (sample_reply DHCPACK 10 5) 300]) =
     Configure True (sample_info DHCPACK 5)"
  using dhcp_handshake [of sample_stack "[1, 2, 3, 4, 5, 6]", OF _ _ sample_server [of DHCPOFFER 9 5] _ _ _]
    sample_server [of DHCPACK 10 5]
  by (simp add: sample_stack_def sample_info_def)


section \<open>Replies that are rejected\<close>

lemma run_timeouts_offer:
  "client_inv c \<Longrightarrow> di_type (c_info c) = ucast DHCPOFFER \<Longrightarrow> rank (c_timeout c) \<le> k \<Longrightarrow>
     fst (run c (replicate k Ev_Timeout)) = Configure False (c_info c)"
proof (induction k arbitrary: c)
  case 0
  then show ?case using rank_pos(1) [of "c_timeout c"] by simp
next
  case (Suc k)
  show ?case
  proof (cases "TIMEOUT_MAX \<le> c_timeout c")
    case True
    then show ?thesis using Suc.prems(2) by (simp add: step_def)
  next
    case False
    then have tm: "c_timeout c \<in> {4000, 8000, 16000}" using Suc.prems(1) by (auto simp: client_inv_def)
    let ?c' = "fst (transmit (c\<lparr>c_timeout := c_timeout c * 2\<rparr>))"
    have "client_inv ?c'" using Suc.prems(1) tm by (intro transmit_inv) (auto simp: client_inv_def)
    then have "fst (run ?c' (replicate k Ev_Timeout)) = Configure False (c_info ?c')"
      using Suc.prems(2,3) rank_double [OF tm] by (intro Suc.IH) simp_all
    then show ?thesis using False by (simp add: step_def split_beta Let_def)
  qed
qed

text \<open>
  C37. A rejected reply is still believed. \<open>decode_dhcp_msg\<close> overwrites \<open>info\<close> before
  \<open>is_valid_reply\<close> looks at the message, so in any state of the client a message that is not
  valid for it, but is encoded as a DHCPOFFER, leaves its parameters behind, and four timeouts
  later the interface is configured with them.
\<close>

theorem rejected_reply_configures:
  assumes inv: "client_inv c" and m: "dhcp_msg_wf m" "n \<le> dhcp_msg_size"
    and rejected: "\<not> is_valid_reply (if c_state c = STATE_SELECTING then c_discover c else c_request c) m (int n)"
    and dec: "decode_dhcp_msg m (int n) = Some (r, info)" "di_type info = ucast DHCPOFFER"
  shows "fst (run c (deliver m n # replicate 4 Ev_Timeout)) = Configure False info"
proof -
  let ?c1 = "c\<lparr>c_reply := splice (c_reply c) 0 (take n (dhcp_msg_bytes m)), c_info := info\<rparr>"
  obtain reply where "step c (deliver m n) = handle_reply ?c1 reply (int n)"
    "\<forall>q. is_valid_reply q reply (int n) = is_valid_reply q m (int n)" and inv1: "client_inv ?c1"
    using step_deliver [OF inv m dec(1)] by blast
  then have s: "step c (deliver m n) = (Running ?c1, [])"
    using rejected by (cases "c_state c") (simp_all add: handle_reply_def)
  have "rank (c_timeout ?c1) \<le> 4" by (simp add: rank_def)
  from run_timeouts_offer [OF inv1 _ this] show ?thesis using s dec(2) by (simp add: split_beta)
qed

theorem rejected_reply_configures_witness:
  "fst (run (fst (transmit (initial sample_stack 9 [1, 2, 3, 4, 5, 6] 2)))
     (deliver (sample_reply DHCPOFFER 77 5) 300 # replicate 4 Ev_Timeout)) = Configure False (sample_info DHCPOFFER 5)"
proof -
  let ?c = "fst (transmit (initial sample_stack 9 [1, 2, 3, 4, 5, 6] 2))"
  have inv: "client_inv ?c" by (rule start_inv) (simp add: sample_stack_def)
  then have "c_discover ?c = fst (init_dhcp_discover_msg [1, 2, 3, 4, 5, 6] 9)" "c_state ?c = STATE_SELECTING"
    by (simp_all add: client_inv_def initial_def)
  then have "\<not> is_valid_reply (if c_state ?c = STATE_SELECTING then c_discover ?c else c_request ?c)
      (sample_reply DHCPOFFER 77 5) (int 300)"
    by (simp add: is_valid_reply_def msg_fields) (simp add: sample_reply_def)
  then show ?thesis
    using sample_decodes [of DHCPOFFER 77 5]
    by (intro rejected_reply_configures [OF inv]) (simp_all add: dhcp_msg_size_def sample_info_def)
qed

section \<open>The client on the system\<close>

definition open_raw_socket :: "os \<Rightarrow> int \<Rightarrow> int prog" where
  "open_raw_socket os if_index = do {
     s \<leftarrow> sys_call os (Socket Packet_Dgram);
     if a_ret s < 0 then ret (-1)
     else do {
       b \<leftarrow> sys_call os (Bind (a_ret s) if_index);
       if a_ret b < 0 then ret (-1) else ret (a_ret s)
     }
   }"

text \<open>The result of \<open>dhcp_init_ifc\<close>, with the value left in \<open>last_good_info\<close> if it was set.\<close>

type_synonym dhcp_result = "(int \<times> dhcp_info option) option"

definition dhcp_configure :: "os \<Rightarrow> string \<Rightarrow> dhcp_info \<Rightarrow> dhcp_result prog" where
  "dhcp_configure os ifn info = do {
     r \<leftarrow> ifc_configure os ifn (di_ipaddr info) (di_prefixLength info) (di_gateway info) (di_dns1 info) (di_dns2 info);
     ret (Some (r, Some info))
   }"

fun send_all :: "os \<Rightarrow> int \<Rightarrow> frame list \<Rightarrow> unit prog" where
  "send_all os s [] = ret ()"
| "send_all os s (f # fs) = do { _ \<leftarrow> sys_call os (Sendmsg s (sll_ifindex f) (iov f)); send_all os s fs }"

definition next_event :: "os \<Rightarrow> bytes \<Rightarrow> int \<Rightarrow> nat \<Rightarrow> event prog" where
  "next_event os packet s timeout = do {
     r \<leftarrow> sys_call os (Poll s (int timeout));
     if a_ret r = 0 then ret Ev_Timeout
     else if a_ret r < 0 then do { e \<leftarrow> gets errno; ret (Ev_PollErr e) }
     else do {
       _ \<leftarrow> upd (\<lambda>e. e\<lparr>errno := 0\<rparr>);
       rd \<leftarrow> sys_call os (Recv s dhcp_packet_size);
       e \<leftarrow> gets errno;
       ret (Ev_Ready (receive_packet packet (if a_ret rd < 0 then None else Some (a_bytes rd))) e)
     }
   }"

text \<open>At most \<open>fuel\<close> iterations; \<open>None\<close> when they do not suffice or behaviour is undefined.\<close>

fun dhcp_loop :: "os \<Rightarrow> bytes \<Rightarrow> nat \<Rightarrow> string \<Rightarrow> int \<Rightarrow> client \<Rightarrow> dhcp_result prog" where
  "dhcp_loop os packet 0 ifn s c = ret None"
| "dhcp_loop os packet (Suc fuel) ifn s c = do {
     ev \<leftarrow> next_event os packet s (c_timeout c);
     let (st, out) = step c ev;
     _ \<leftarrow> send_all os s out;
     case st of
       Running c' \<Rightarrow> dhcp_loop os packet fuel ifn s c'
     | Failed closed \<Rightarrow> do {
         _ \<leftarrow> (if ev = Ev_Timeout then upd (\<lambda>e. e\<lparr>errno := ETIME\<rparr>) else ret ());
         _ \<leftarrow> (if closed then discard (sys_call os (Close s)) else ret ());
         ret (Some (-1, None))
       }
     | Configure closed info \<Rightarrow> do {
         _ \<leftarrow> (if closed then discard (sys_call os (Close s)) else ret ());
         dhcp_configure os ifn info
       }
     | Undefined \<Rightarrow> ret None
   }"

definition dhcp_init_ifc :: "os \<Rightarrow> bytes \<Rightarrow> client \<Rightarrow> u32 \<Rightarrow> nat \<Rightarrow> string \<Rightarrow> dhcp_result prog" where
  "dhcp_init_ifc os packet stack msecs fuel ifn = do {
     (r, hw) \<leftarrow> ifc_get_hwaddr os ifn;
     if r \<noteq> 0 then ret (Some (-1, None))
     else do {
       (r, idx) \<leftarrow> ifc_get_ifindex os ifn;
       if r \<noteq> 0 then ret (Some (-1, None))
       else do {
         s \<leftarrow> open_raw_socket os (the idx);
         let (c, out) = transmit (initial stack msecs (the hw) (the idx));
         _ \<leftarrow> send_all os s out;
         dhcp_loop os packet fuel ifn s c
       }
     }
   }"

definition do_dhcp :: "os \<Rightarrow> bytes \<Rightarrow> client \<Rightarrow> u32 \<Rightarrow> nat \<Rightarrow> string \<Rightarrow> dhcp_result prog" where
  "do_dhcp os packet stack msecs fuel ifn = do {
     r \<leftarrow> ifc_set_addr os ifn 0;
     if r \<noteq> 0 then ret (Some (-1, None))
     else do {
       r \<leftarrow> ifc_up os ifn;
       if r \<noteq> 0 then ret (Some (-1, None)) else dhcp_init_ifc os packet stack msecs fuel ifn
     }
   }"

section \<open>Descriptors\<close>

text \<open>A system on which everything succeeds until \<open>poll\<close> reports a bad descriptor.\<close>

definition deaf_os :: os where
  "deaf_os h c = \<lparr>a_ret = (case c of Socket f \<Rightarrow> 5 | Poll s t \<Rightarrow> -1 | _ \<Rightarrow> 0), a_errno = 9, a_addr = 2, a_flags = 0,
     a_family = 0, a_bytes = [1, 2, 3, 4, 5, 6], a_str = []\<rparr>"

text \<open>
  The packet socket is lost on errors. There is a system on which \<open>dhcp_init_ifc\<close> opens its
  raw socket, fails in \<open>poll\<close> and returns \<open>-1\<close> with the descriptor still open.
\<close>

theorem dhcp_init_ifc_leaks:
  "let (r, e) = run_state (dhcp_init_ifc deaf_os (replicate dhcp_packet_size 0) stack 9 1 ''wlan0'') idle_env
   in r = Some (-1, None) \<and> open_fds (trace e) {#} = {#5#}"
proof -
  obtain f where f: "snd (transmit (initial stack 9 [1, 2, 3, 4, 5, 6] 2)) = [f]"
    by (cases "snd (transmit (initial stack 9 [1, 2, 3, 4, 5, 6] 2))")
      (use transmit_fields(8) [of "initial stack 9 [1, 2, 3, 4, 5, 6] 2"] in auto)
  show ?thesis
    by (simp add: dhcp_init_ifc_def ifc_get_hwaddr_def ifc_get_ifindex_def ioctl_def open_raw_socket_def
        deaf_os_def run_simps split_beta Let_def f next_event_def step_def failed_def discard_def idle_env_def)
qed

end
