(* ===== verification/Dhcp_Utils.thy ===== *)
theory Dhcp_Utils
  imports Ifc
begin

text \<open>
  Control of the dhcpcd daemon through system properties,
  \<open>system/core/libnetutils/dhcp_utils.c\<close>: waiting for a property, starting, stopping and renewing
  the daemon, and reading its results. The lemmas bound the waiting, show what a successful start
  has observed, and relate the netmask check of \<open>fill_ip_info\<close> to the conversions of
  \<open>ifc_utils.c\<close>.
\<close>

section \<open>Strings of the C library\<close>

definition char_val :: "char \<Rightarrow> nat" where
  "char_val c =
     (let n = of_char c :: nat
      in if 48 \<le> n \<and> n \<le> 57 then n - 48
         else if 97 \<le> n \<and> n \<le> 102 then n - 87
         else if 65 \<le> n \<and> n \<le> 70 then n - 55
         else 99)"

fun parse_digits :: "nat \<Rightarrow> nat \<Rightarrow> string \<Rightarrow> nat option" where
  "parse_digits base acc [] = Some acc"
| "parse_digits base acc (c # cs) =
     (if char_val c < base then parse_digits base (acc * base + char_val c) cs else None)"

text \<open>One component of an address: hexadecimal after \<open>0x\<close>, octal after \<open>0\<close>, otherwise decimal.\<close>

definition parse_part :: "string \<Rightarrow> nat option" where
  "parse_part s =
     (if s = [] then None
      else if take 2 s \<in> {''0x'', ''0X''} then (if drop 2 s = [] then None else parse_digits 16 0 (drop 2 s))
      else if take 1 s = ''0'' then parse_digits 8 0 (drop 1 s)
      else parse_digits 10 0 s)"

fun split_dots :: "string \<Rightarrow> string \<Rightarrow> string list" where
  "split_dots cur [] = [cur]"
| "split_dots cur (c # cs) = (if c = CHR ''.'' then cur # split_dots [] cs else split_dots (cur @ [c]) cs)"

text \<open>\<open>inet_addr\<close>: up to four components, the last filling the remaining bytes; the value has
  network order, and \<open>INADDR_NONE\<close> reports an error.\<close>

abbreviation INADDR_NONE :: u32 where "INADDR_NONE \<equiv> 0xFFFFFFFF"

definition inet_addr :: "string \<Rightarrow> u32" where
  "inet_addr s =
     (case map parse_part (split_dots [] s) of
        [Some a] \<Rightarrow> if a < 2 ^ 32 then htonl (of_nat a) else INADDR_NONE
      | [Some a, Some b] \<Rightarrow>
          if a < 256 \<and> b < 2 ^ 24 then htonl (of_nat (a * 2 ^ 24 + b)) else INADDR_NONE
      | [Some a, Some b, Some c] \<Rightarrow>
          if a < 256 \<and> b < 256 \<and> c < 2 ^ 16 then htonl (of_nat (a * 2 ^ 24 + b * 2 ^ 16 + c)) else INADDR_NONE
      | [Some a, Some b, Some c, Some d] \<Rightarrow>
          if a < 256 \<and> b < 256 \<and> c < 256 \<and> d < 256
          then htonl (of_nat (a * 2 ^ 24 + b * 2 ^ 16 + c * 2 ^ 8 + d)) else INADDR_NONE
      | _ \<Rightarrow> INADDR_NONE)"

text \<open>\<open>atol\<close>: leading blanks, a sign, then the longest run of digits.\<close>

fun atol_digits :: "int \<Rightarrow> string \<Rightarrow> int" where
  "atol_digits acc [] = acc"
| "atol_digits acc (c # cs) = (if char_val c < 10 then atol_digits (acc * 10 + int (char_val c)) cs else acc)"

definition atol :: "string \<Rightarrow> int" where
  "atol s =
     (let t = dropWhile (\<lambda>c. c \<in> set '' '' \<or> of_char c \<in> {9 :: nat .. 13}) s
      in if take 1 t = ''-'' then - atol_digits 0 (drop 1 t)
         else if take 1 t = ''+'' then atol_digits 0 (drop 1 t)
         else atol_digits 0 t)"

section \<open>Properties\<close>

definition property_get :: "os \<Rightarrow> string \<Rightarrow> (bool \<times> string) prog" where
  "property_get os name = do { a \<leftarrow> sys_call os (Property_get name); ret (a_ret a \<noteq> 0, a_str a) }"

definition property_set :: "os \<Rightarrow> string \<Rightarrow> string \<Rightarrow> unit prog" where
  "property_set os name val = do { _ \<leftarrow> sys_call os (Property_set name val); ret () }"

text \<open>
  \<open>get_p2p_interface_replacement\<close> fills an array of \<open>MAX_INTERFACE_LENGTH\<close> characters; a name
  that fills it has no terminator, and its use as a string is undefined (\<open>None\<close>).
\<close>

definition get_p2p_interface_replacement :: "string \<Rightarrow> string option" where
  "get_p2p_interface_replacement interface =
     (if take 3 interface = ''p2p'' then Some ''p2p''
      else if length interface < 25 then Some interface else None)"

text \<open>\<open>snprintf\<close> into a property key of 32 bytes.\<close>

definition prop_key :: "string \<Rightarrow> string" where
  "prop_key s = take 31 s"

abbreviation result_prop :: "string \<Rightarrow> string" where
  "result_prop ifn \<equiv> prop_key (''dhcp.'' @ ifn @ ''.result'')"

abbreviation daemon_prop :: "string \<Rightarrow> string" where
  "daemon_prop ifn \<equiv> prop_key (''init.svc.dhcpcd_'' @ ifn)"

text \<open>The test of \<open>wait_for_property\<close> on what \<open>property_get\<close> returned.\<close>

definition satisfied :: "string option \<Rightarrow> bool \<times> string \<Rightarrow> bool" where
  "satisfied desired got =
     (if fst got then (case desired of None \<Rightarrow> snd got \<noteq> ''obtaining'' | Some v \<Rightarrow> snd got = v) else False)"

text \<open>The loop with \<open>n\<close> the value of \<open>maxnaps\<close> at its test, which is not negative.\<close>

fun wait_loop :: "os \<Rightarrow> string \<Rightarrow> string option \<Rightarrow> nat \<Rightarrow> int prog" where
  "wait_loop os name desired n = do {
     got \<leftarrow> property_get os name;
     if satisfied desired got then ret 0
     else case n of
       0 \<Rightarrow> ret (-1)
     | Suc m \<Rightarrow> do { _ \<leftarrow> sys_call os (Usleep 50000); wait_loop os name desired m }
   }"

declare wait_loop.simps [simp del]

definition wait_for_property :: "os \<Rightarrow> string \<Rightarrow> string option \<Rightarrow> nat \<Rightarrow> int prog" where
  "wait_for_property os name desired maxwait =
     (let maxnaps = maxwait * 1000 div 50
      in wait_loop os name desired (if maxnaps < 1 then 1 else maxnaps))"

section \<open>Results of the daemon\<close>

record ip_info =
  ii_ipaddr :: string
  ii_gateway :: string
  ii_prefixLength :: "u32 option"
  ii_dns :: "string list"
  ii_server :: string
  ii_lease :: "u32 option"
  ii_vendorInfo :: string
  ii_domain :: string
  ii_mtu :: string

text \<open>The netmask loop of \<open>fill_ip_info\<close> from \<open>p\<close> on; \<open>None\<close> for a mask that is not contiguous.\<close>

function mask_loop :: "nat \<Rightarrow> u32 \<Rightarrow> nat option" where
  "mask_loop p m =
     (if 32 \<le> p then Some p
      else if m = 0 then Some p
      else if m AND 0x80000000 = 0 then None
      else mask_loop (p + 1) (push_bit 1 m))"
  by pat_completeness auto
termination by (relation "measure (\<lambda>(p, m). 32 - p)") auto

declare mask_loop.simps [simp del]

definition mask_value :: "string \<Rightarrow> nat option" where
  "mask_value str =
     (let m = ntohl (inet_addr str)
      in if m = INADDR_NONE \<and> str \<noteq> ''255.255.255.255'' then None else mask_loop 0 m)"

fun get_dns :: "os \<Rightarrow> string \<Rightarrow> nat \<Rightarrow> nat \<Rightarrow> string list prog" where
  "get_dns os p2p x 0 = ret []"
| "get_dns os p2p x (Suc n) = do {
     (_, v) \<leftarrow> property_get os (prop_key (''dhcp.'' @ p2p @ ''.dns'' @ dec (int x + 1)));
     vs \<leftarrow> get_dns os p2p (x + 1) n;
     ret (v # vs)
   }"

text \<open>\<open>fill_ip_info\<close> with \<open>ndns\<close> entries in \<open>dns[]\<close>; \<open>None\<close> stands for the return value \<open>-1\<close>.\<close>

definition fill_ip_info :: "os \<Rightarrow> string \<Rightarrow> nat \<Rightarrow> ip_info option prog" where
  "fill_ip_info os p2p ndns = do {
     (ok, ipaddr) \<leftarrow> property_get os (prop_key (''dhcp.'' @ p2p @ ''.ipaddress''));
     if \<not> ok then ret None
     else do {
       (_, gateway) \<leftarrow> property_get os (prop_key (''dhcp.'' @ p2p @ ''.gateway''));
       (_, server) \<leftarrow> property_get os (prop_key (''dhcp.'' @ p2p @ ''.server''));
       let gateway = (if gateway = [] \<or> take 7 gateway = ''0.0.0.0'' then server else gateway);
       (has_mask, msk) \<leftarrow> property_get os (prop_key (''dhcp.'' @ p2p @ ''.mask''));
       if has_mask \<and> mask_value msk = None then ret None
       else do {
         dns \<leftarrow> get_dns os p2p 0 ndns;
         (has_lease, lease) \<leftarrow> property_get os (prop_key (''dhcp.'' @ p2p @ ''.leasetime''));
         (_, vendorInfo) \<leftarrow> property_get os (prop_key (''dhcp.'' @ p2p @ ''.vendorInfo''));
         (_, domain) \<leftarrow> property_get os (prop_key (''dhcp.'' @ p2p @ ''.domain''));
         (_, mtu) \<leftarrow> property_get os (prop_key (''dhcp.'' @ p2p @ ''.mtu''));
         ret (Some \<lparr>ii_ipaddr = ipaddr, ii_gateway = gateway,
           ii_prefixLength = (if has_mask then map_option of_nat (mask_value msk) else None),
           ii_dns = dns, ii_server = server,
           ii_lease = (if has_lease then Some (of_int (atol lease)) else None),
           ii_vendorInfo = vendorInfo, ii_domain = domain, ii_mtu = mtu\<rparr>)
       }
     }
   }"

definition dhcp_get_results :: "os \<Rightarrow> string \<Rightarrow> nat \<Rightarrow> (int \<times> ip_info option) option prog" where
  "dhcp_get_results os interface ndns =
     (case get_p2p_interface_replacement interface of
        None \<Rightarrow> ret None
      | Some p2p \<Rightarrow> do {
          (ok, val) \<leftarrow> property_get os (result_prop p2p);
          if \<not> ok then ret (Some (-1, None))
          else if val = ''ok'' then do {
            r \<leftarrow> fill_ip_info os p2p ndns;
            ret (Some (case r of None \<Rightarrow> (-1, None) | Some info \<Rightarrow> (0, Some info)))
          }
          else do { _ \<leftarrow> property_set os (result_prop p2p) ''timeout''; ret (Some (-1, None)) }
        })"

section \<open>Starting and stopping\<close>

text \<open>
  The value of \<open>daemon_cmd\<close> in \<open>dhcp_start\<close>, for a build with or without
  \<open>MTK_AUTOIP_SUPPORT\<close>; without a host name the array is never written (\<open>None\<close>).
\<close>

definition start_cmd :: "bool \<Rightarrow> string \<Rightarrow> string \<Rightarrow> bool \<times> string \<Rightarrow> string option" where
  "start_cmd autoip p2p interface host =
     (if fst host \<and> snd host \<noteq> []
      then Some (take 214 (''dhcpcd_'' @ p2p @ (if autoip then '':-f '' else '':-A -f '') @
             ''/system/etc/dhcpcd/dhcpcd.conf -h '' @ snd host @ '' '' @ interface))
      else None)"

definition dhcp_start :: "os \<Rightarrow> bool \<Rightarrow> string \<Rightarrow> int option prog" where
  "dhcp_start os autoip interface =
     (case get_p2p_interface_replacement interface of
        None \<Rightarrow> ret None
      | Some p2p \<Rightarrow> do {
          _ \<leftarrow> property_set os (result_prop p2p) ''obtaining'';
          host \<leftarrow> property_get os ''net.hostname'';
          case start_cmd autoip p2p interface host of
            None \<Rightarrow> ret None
          | Some cmd \<Rightarrow> do {
              _ \<leftarrow> property_set os ''ctl.start'' cmd;
              r \<leftarrow> wait_for_property os (daemon_prop p2p) (Some ''running'') 10;
              if r < 0 then ret (Some (-1))
              else do {
                r \<leftarrow> wait_for_property os (result_prop p2p) None (if autoip then 40 else 30);
                if r < 0 then ret (Some (-1)) else ret (Some 0)
              }
            }
        })"

text \<open>\<open>dhcp_stop\<close>; \<open>prop_value\<close> is never read into, so its comparison with \<open>obtaining\<close> fails.\<close>

definition dhcp_stop :: "os \<Rightarrow> string \<Rightarrow> int option prog" where
  "dhcp_stop os interface =
     (case get_p2p_interface_replacement interface of
        None \<Rightarrow> ret None
      | Some p2p \<Rightarrow> do {
          let prop_value = [];
          _ \<leftarrow> (if prop_value = ''obtaining''
                then wait_for_property os (daemon_prop p2p) (Some ''running'') 1 else ret 0);
          _ \<leftarrow> property_set os ''ctl.stop'' (take 183 (''dhcpcd_'' @ p2p));
          r \<leftarrow> wait_for_property os (daemon_prop p2p) (Some ''stopped'') 5;
          if r < 0 then ret (Some (-1))
          else do { _ \<leftarrow> property_set os (result_prop p2p) ''failed''; ret (Some 0) }
        })"

definition dhcp_release_lease :: "os \<Rightarrow> string \<Rightarrow> int option prog" where
  "dhcp_release_lease os interface =
     (case get_p2p_interface_replacement interface of
        None \<Rightarrow> ret None
      | Some p2p \<Rightarrow> do {
          _ \<leftarrow> property_set os ''ctl.stop'' (take 183 (''dhcpcd_'' @ p2p));
          r \<leftarrow> wait_for_property os (daemon_prop p2p) (Some ''stopped'') 5;
          if r < 0 then ret (Some (-1)) else ret (Some 0)
        })"

definition dhcp_start_renew :: "os \<Rightarrow> string \<Rightarrow> int option prog" where
  "dhcp_start_renew os interface =
     (case get_p2p_interface_replacement interface of
        None \<Rightarrow> ret None
      | Some p2p \<Rightarrow> do {
          _ \<leftarrow> property_set os (result_prop p2p) [];
          _ \<leftarrow> property_set os ''ctl.start'' (take 183 (''iprenew_'' @ p2p @ '':'' @ interface));
          r \<leftarrow> wait_for_property os (result_prop p2p) None 30;
          if r < 0 then ret (Some (-1)) else ret (Some 0)
        })"

section \<open>Waiting\<close>

text \<open>The events of \<open>k\<close> unsuccessful polls, with the naps between them.\<close>

definition poll_event :: "string \<Rightarrow> string option \<Rightarrow> bool \<Rightarrow> sys \<times> answer \<Rightarrow> bool" where
  "poll_event name desired ok ev \<longleftrightarrow>
     fst ev = Property_get name \<and> satisfied desired (a_ret (snd ev) \<noteq> 0, a_str (snd ev)) = ok"

fun wait_events :: "string \<Rightarrow> string option \<Rightarrow> nat \<Rightarrow> int \<Rightarrow> history \<Rightarrow> bool" where
  "wait_events name desired n r [] = False"
| "wait_events name desired n r [ev] =
     (if r = 0 then poll_event name desired True ev else n = 0 \<and> poll_event name desired False ev)"
| "wait_events name desired n r (ev # nap # evs) =
     (poll_event name desired False ev \<and> fst nap = Usleep 50000 \<and> 0 < n \<and> wait_events name desired (n - 1) r evs)"

lemma wait_loop_events:
  "\<exists>r h. run_state (wait_loop os name desired n) e = (r, snd (run_state (wait_loop os name desired n) e)) \<and>
     (r = 0 \<or> r = -1) \<and> trace (snd (run_state (wait_loop os name desired n) e)) = trace e @ h \<and>
     wait_events name desired n r h"
proof (induction n arbitrary: e)
  case 0
  let ?a = "os (trace e) (Property_get name)"
  show ?case
    by (rule exI [of _ "if satisfied desired (a_ret ?a \<noteq> 0, a_str ?a) then 0 else -1"],
        rule exI [of _ "[(Property_get name, ?a)]"])
      (simp add: wait_loop.simps property_get_def run_simps split_beta poll_event_def)
next
  case (Suc n)
  let ?g = "Property_get name" and ?z = "Usleep 50000"
  let ?a = "os (trace e) ?g"
  let ?e1 = "sys_step os ?g e"
  let ?e2 = "sys_step os ?z ?e1"
  show ?case
  proof (cases "satisfied desired (a_ret ?a \<noteq> 0, a_str ?a)")
    case True
    then show ?thesis
      by (intro exI [of _ 0] exI [of _ "[(?g, ?a)]"])
        (simp add: wait_loop.simps property_get_def run_simps split_beta poll_event_def)
  next
    case False
    have step: "run_state (wait_loop os name desired (Suc n)) e = run_state (wait_loop os name desired n) ?e2"
      using False by (subst wait_loop.simps) (simp add: property_get_def run_simps split_beta)
    obtain r h where "run_state (wait_loop os name desired n) ?e2 = (r, snd (run_state (wait_loop os name desired n) ?e2))"
      "r = 0 \<or> r = -1" "trace (snd (run_state (wait_loop os name desired n) ?e2)) = trace ?e2 @ h"
      "wait_events name desired n r h"
      using Suc.IH [of ?e2] by blast
    then show ?thesis using False unfolding step
      by (intro exI [of _ r] exI [of _ "(?g, ?a) # (?z, os (trace ?e1) ?z) # h"])
        (simp add: run_simps poll_event_def)
  qed
qed

lemma wait_events_length: "wait_events name desired n r h \<Longrightarrow> length h \<le> 2 * n + 1 \<and> (r \<noteq> 0 \<longrightarrow> length h = 2 * n + 1)"
  by (induction name desired n r h rule: wait_events.induct) (auto split: if_splits)

lemma wait_events_summary:
  assumes "wait_events name desired n r h"
  shows "length (filter (\<lambda>ev. fst ev = Usleep 50000) h) \<le> n \<and>
    (r = 0 \<longrightarrow> h \<noteq> [] \<and> poll_event name desired True (last h)) \<and>
    (r \<noteq> 0 \<longrightarrow> length (filter (\<lambda>ev. fst ev = Usleep 50000) h) = n \<and>
       (\<forall>ev \<in> set h. fst ev = Property_get name \<longrightarrow> poll_event name desired False ev))"
  using assms
proof (induction name desired n r h rule: wait_events.induct)
  case (3 name desired n r ev nap evs)
  then have "evs \<noteq> []" by (cases evs) auto
  with 3 show ?case by (auto simp: poll_event_def)
qed (auto simp: poll_event_def split: if_splits)

lemma wait_for_property_events:
  assumes "run_state (wait_for_property os name desired maxwait) e = (r, e')"
  shows "(r = 0 \<or> r = -1) \<and> (\<exists>h. trace e' = trace e @ h \<and> wait_events name desired (max 1 (20 * maxwait)) r h)"
proof -
  have n: "(if maxwait * 1000 div 50 < 1 then 1 else maxwait * 1000 div 50) = max 1 (20 * maxwait)" by auto
  show ?thesis
    using wait_loop_events [of os name desired "max 1 (20 * maxwait)" e] assms
    unfolding wait_for_property_def Let_def n by auto
qed


text \<open>A property service on which every property has the value \<open>running\<close>.\<close>

definition running_os :: os where
  "running_os h c = \<lparr>a_ret = 7, a_errno = 0, a_addr = 0, a_flags = 0, a_family = 0, a_bytes = [], a_str = ''running''\<rparr>"


section \<open>A successful start\<close>

lemma property_calls:
  "run_state (property_set os name val) e = ((), sys_step os (Property_set name val) e)"
  "run_state (property_get os name) e =
     ((a_ret (os (trace e) (Property_get name)) \<noteq> 0, a_str (os (trace e) (Property_get name))), sys_step os (Property_get name) e)"
  by (simp_all add: property_set_def property_get_def run_simps split_beta)

text \<open>
  What a successful \<open>dhcp_start\<close> has seen. If it returns 0, it has reset the result property
  to \<open>obtaining\<close>, then started the daemon, then seen the service running, and at the end seen a
  result other than \<open>obtaining\<close>.
\<close>

theorem dhcp_start_success:
  assumes "run_state (dhcp_start os autoip interface) e = (Some 0, e')"
    and "get_p2p_interface_replacement interface = Some p2p"
  shows "\<exists>a1 a2 cmd a3 h h'. trace e' = trace e @
      [(Property_set (result_prop p2p) ''obtaining'', a1), (Property_get ''net.hostname'', a2),
       (Property_set ''ctl.start'' cmd, a3)] @ h @ h' \<and>
    h \<noteq> [] \<and> poll_event (daemon_prop p2p) (Some ''running'') True (last h) \<and>
    h' \<noteq> [] \<and> poll_event (result_prop p2p) None True (last h')"
proof -
  let ?e1 = "sys_step os (Property_set (result_prop p2p) ''obtaining'') e"
  let ?e2 = "sys_step os (Property_get ''net.hostname'') ?e1"
  obtain cmd where cmd: "start_cmd autoip p2p interface
      (a_ret (os (trace ?e1) (Property_get ''net.hostname'')) \<noteq> 0, a_str (os (trace ?e1) (Property_get ''net.hostname''))) = Some cmd"
    using assms by (cases "start_cmd autoip p2p interface
      (a_ret (os (trace ?e1) (Property_get ''net.hostname'')) \<noteq> 0, a_str (os (trace ?e1) (Property_get ''net.hostname'')))")
      (simp_all add: dhcp_start_def property_calls split_beta)
  let ?e3 = "sys_step os (Property_set ''ctl.start'' cmd) ?e2"
  obtain r1 e4 where w1: "run_state (wait_for_property os (daemon_prop p2p) (Some ''running'') 10) ?e3 = (r1, e4)" by fastforce
  obtain r2 e5 where w2: "run_state (wait_for_property os (result_prop p2p) None (if autoip then 40 else 30)) e4 = (r2, e5)" by fastforce
  have "r1 \<ge> 0" "r2 \<ge> 0" "e' = e5"
    using assms cmd w1 w2 by (simp_all add: dhcp_start_def property_calls split_beta split: if_splits)
  moreover obtain h where "trace e4 = trace ?e3 @ h" "wait_events (daemon_prop p2p) (Some ''running'') (max 1 (20 * 10)) r1 h"
    and r1: "r1 = 0 \<or> r1 = -1"
    using wait_for_property_events [OF w1] by blast
  moreover obtain h' where "trace e5 = trace e4 @ h'" "wait_events (result_prop p2p) None (max 1 (20 * (if autoip then 40 else 30))) r2 h'"
    and r2: "r2 = 0 \<or> r2 = -1"
    using wait_for_property_events [OF w2] by blast
  ultimately have "trace e' = trace ?e3 @ h @ h'" "h \<noteq> []" "poll_event (daemon_prop p2p) (Some ''running'') True (last h)"
      "h' \<noteq> []" "poll_event (result_prop p2p) None True (last h')"
    using wait_events_summary [of "daemon_prop p2p" "Some ''running''" _ r1 h] wait_events_summary [of "result_prop p2p" None _ r2 h']
    by auto
  then show ?thesis by (auto simp: run_simps)
qed

theorem dhcp_start_success_witness:
  "\<exists>h. trace (snd (run_state (dhcp_start running_os True ''p2p-p2p0-3'') idle_env)) = h \<and>
     poll_event ''dhcp.p2p.result'' None True (last h)"
proof -
  have p2p: "get_p2p_interface_replacement ''p2p-p2p0-3'' = Some ''p2p''"
    by (simp add: get_p2p_interface_replacement_def)
  have "fst (run_state (dhcp_start running_os True ''p2p-p2p0-3'') idle_env) = Some 0"
    by (simp add: dhcp_start_def p2p property_calls start_cmd_def running_os_def wait_for_property_def
        wait_loop.simps satisfied_def)
  then obtain e' where run: "run_state (dhcp_start running_os True ''p2p-p2p0-3'') idle_env = (Some 0, e')"
    by (metis prod.collapse)
  have "result_prop ''p2p'' = ''dhcp.p2p.result''" by (simp add: prop_key_def)
  with dhcp_start_success [OF run p2p] show ?thesis by (auto simp: run)
qed

section \<open>Netmasks\<close>

lemma shifted_ones:
  fixes m :: u32
  assumes "bit m 31" "k \<le> 31"
  shows "push_bit 1 m = push_bit (Suc k) (NOT 0) \<longleftrightarrow> m = push_bit k (NOT 0)"
proof
  assume eq: "push_bit 1 m = push_bit (Suc k) (NOT 0)"
  show "m = push_bit k (NOT 0)"
  proof (rule bit_word_eqI)
    fix i
    assume i: "i < LENGTH(32)"
    have "bit (push_bit 1 m) (Suc i) = bit (push_bit (Suc k) (NOT 0) :: u32) (Suc i)" by (simp only: eq)
    then have "Suc i < 32 \<Longrightarrow> bit m i = bit (push_bit (Suc k) (NOT 0) :: u32) (Suc i)"
      unfolding bit_shift_1 by simp
    then show "bit m i = bit (push_bit k (NOT 0) :: u32) i"
      using i assms by (cases "i = 31") (auto simp: bit_simps)
  qed
next
  assume "m = push_bit k (NOT 0)"
  then show "push_bit 1 m = push_bit (Suc k) (NOT 0)" by (simp only: push_bit_push_bit plus_1_eq_Suc)
qed

lemma mask_loop_iff:
  assumes "p \<le> 32" "\<forall>i<p. \<not> bit m i"
  shows "mask_loop p m = Some n \<longleftrightarrow> p \<le> n \<and> n \<le> 32 \<and> m = push_bit (32 - n + p) (NOT 0)"
  using assms
proof (induction p m rule: mask_loop.induct)
  case (1 p m)
  have top: "bit (push_bit (32 - n + p) (NOT 0) :: u32) 31 \<longleftrightarrow> p < n" if "n \<le> 32"
    using that 1(2) by (auto simp: bit_simps)
  have zero: "push_bit (32 - n + p) (NOT 0 :: u32) = 0 \<longleftrightarrow> n \<le> p" if "n \<le> 32"
  proof
    assume "push_bit (32 - n + p) (NOT 0 :: u32) = 0"
    then have "\<not> bit (push_bit (32 - n + p) (NOT 0) :: u32) 31" by simp
    then show "n \<le> p" using top that by simp
  next
    assume "n \<le> p"
    then show "push_bit (32 - n + p) (NOT 0 :: u32) = 0" using that by (intro bit_word_eqI) (auto simp: bit_simps)
  qed
  consider "32 \<le> p" | "p < 32" "m = 0" | "p < 32" "m \<noteq> 0" "\<not> bit m 31" | "p < 32" "m \<noteq> 0" "bit m 31" by linarith
  then show ?case
  proof cases
    case 1
    then have "m = 0" using \<open>\<forall>i<p. \<not> bit m i\<close> by (intro bit_word_eqI) auto
    then show ?thesis using 1 \<open>p \<le> 32\<close> zero by (subst mask_loop.simps) auto
  next
    case 2
    then show ?thesis using zero by (subst mask_loop.simps) auto
  next
    case 3
    then show ?thesis using top zero top_bit_u32 [of m] by (subst mask_loop.simps) (auto simp: not_less)
  next
    case 4
    have low: "\<forall>i<p + 1. \<not> bit (push_bit 1 m) i" using 1(3) by (simp only: bit_push_bit_iff) auto
    have "mask_loop p m = mask_loop (p + 1) (push_bit 1 m)"
      using 4 top_bit_u32 [of m] by (subst mask_loop.simps) auto
    also have "\<dots> = Some n \<longleftrightarrow> p + 1 \<le> n \<and> n \<le> 32 \<and> push_bit 1 m = push_bit (32 - n + (p + 1)) (NOT 0)"
      using 1(1) 4 low top_bit_u32 [of m] by auto
    also have "\<dots> \<longleftrightarrow> p \<le> n \<and> n \<le> 32 \<and> m = push_bit (32 - n + p) (NOT 0)"
      using shifted_ones [OF 4(3), of "32 - n + p"] zero 4(2) by (cases "n \<le> p") auto
    finally show ?thesis .
  qed
qed

text \<open>
  The netmask check of \<open>fill_ip_info\<close> accepts exactly the netmasks of a prefix length: the
  loop yields \<open>n\<close> for a mask in network order iff \<open>prefixLengthToIpv4Netmask\<close> maps \<open>n\<close> to it, and
  then \<open>ipv4NetmaskToPrefixLength\<close> agrees.
\<close>

theorem mask_loop_accepts_prefixes:
  "(mask_loop 0 (ntohl netmask) = Some n \<longleftrightarrow> n \<le> 32 \<and> prefixLengthToIpv4Netmask (int n) = netmask) \<and>
   (mask_loop 0 (ntohl netmask) = Some n \<longrightarrow> ipv4NetmaskToPrefixLength netmask = int n)"
proof -
  have iff: "mask_loop 0 (ntohl netmask) = Some n \<longleftrightarrow> n \<le> 32 \<and> ntohl netmask = push_bit (32 - n) (NOT 0)"
    using mask_loop_iff [of 0 "ntohl netmask" n] by simp
  moreover have "ntohl netmask = push_bit (32 - n) (NOT 0) \<longleftrightarrow> prefixLengthToIpv4Netmask (int n) = netmask" if "n \<le> 32"
  proof (cases "n = 0")
    case True
    have z: "htonl 0 = 0" by code_simp
    have "push_bit 32 (NOT 0 :: u32) = 0" by (rule bit_word_eqI) (simp add: bit_simps)
    moreover have "ntohl netmask = 0 \<longleftrightarrow> netmask = 0" using z htonl_htonl [of netmask] by metis
    ultimately show ?thesis using True by (auto simp: prefixLengthToIpv4Netmask_def)
  next
    case False
    have "nat (32 - int n) = 32 - n" using that by simp
    moreover have "ntohl netmask = w \<longleftrightarrow> htonl w = netmask" for w using htonl_htonl by metis
    ultimately show ?thesis using False that by (simp add: prefixLengthToIpv4Netmask_def)
  qed
  moreover have "ipv4NetmaskToPrefixLength netmask = int n" if "n \<le> 32" "ntohl netmask = push_bit (32 - n) (NOT 0)"
    using netmask_loop_prefix [OF that(1)] that(2) by (simp add: ipv4NetmaskToPrefixLength_def)
  ultimately show ?thesis by blast
qed

theorem mask_loop_accepts_prefixes_witness:
  "mask_loop 0 (ntohl 0x00F0FFFF) = Some 20 \<and> ipv4NetmaskToPrefixLength 0x00F0FFFF = 20"
proof -
  have "prefixLengthToIpv4Netmask 20 = 0x00F0FFFF" by code_simp
  then show ?thesis using mask_loop_accepts_prefixes [of "0x00F0FFFF" 20] by simp
qed

end
