(* ===== verification/Crc32.thy ===== *)
theory Crc32
  imports Prelude
begin

text \<open>
  The big-endian CRC-32 of \<open>external/e2fsprogs/e2fsck/crc32.c\<close> with the table built by
  \<open>gen_crc32table.c\<close>. The bitwise version of the file (\<open>CRC_BE_BITS == 1\<close>) is the reference;
  the version that is compiled (\<open>CRC_BE_BITS == 8\<close>) works on the byte-swapped register, a byte
  at a time up to an aligned address, then a word at a time. The lemmas show that both compute
  the same function for every buffer and every alignment.
\<close>

section \<open>The bitwise version\<close>

abbreviation CRCPOLY_BE :: u32 where "CRCPOLY_BE \<equiv> 0x04c11db7"

definition be_bit :: "u32 \<Rightarrow> u32" where
  "be_bit crc = push_bit 1 crc XOR (if crc AND 0x80000000 \<noteq> 0 then CRCPOLY_BE else 0)"

definition be_byte :: "u32 \<Rightarrow> u8 \<Rightarrow> u32" where
  "be_byte crc b = (be_bit ^^ 8) (crc XOR push_bit 24 (ucast b))"

definition crc32_be :: "u32 \<Rightarrow> bytes \<Rightarrow> u32" where
  "crc32_be crc p = foldl be_byte crc p"

section \<open>The table\<close>

text \<open>\<open>crc32init_be\<close>: the inner loop over \<open>j\<close> and the outer one over \<open>i = 2 ^ k\<close>.\<close>

fun init_row :: "u32 \<Rightarrow> nat \<Rightarrow> nat list \<Rightarrow> u32 list \<Rightarrow> u32 list" where
  "init_row crc i [] t = t"
| "init_row crc i (j # js) t = init_row crc i js (t[i + j := crc XOR t ! j])"

fun init_rows :: "nat list \<Rightarrow> u32 \<Rightarrow> u32 list \<Rightarrow> u32 list" where
  "init_rows [] crc t = t"
| "init_rows (i # is) crc t = (let crc = be_bit crc in init_rows is crc (init_row crc i [0..<i] t))"

definition crc32table_be :: "u32 list" where
  "crc32table_be = init_rows [1, 2, 4, 8, 16, 32, 64, 128] 0x80000000 (replicate 256 0)"

section \<open>The table-driven version\<close>

text \<open>The entries are stored byte-swapped (\<open>tobe\<close>), and so is the register.\<close>

definition tab :: "nat \<Rightarrow> u32" where
  "tab i = htonl (crc32table_be ! i)"

definition do_crc :: "u32 \<Rightarrow> u32 \<Rightarrow> u32" where
  "do_crc crc x = tab (unat ((crc XOR x) AND 255)) XOR drop_bit 8 crc"

text \<open>The loop before the first aligned address; \<open>a\<close> is the address modulo 4.\<close>

fun crc_align :: "nat \<Rightarrow> u32 \<Rightarrow> bytes \<Rightarrow> u32 \<times> bytes" where
  "crc_align a crc [] = (crc, [])"
| "crc_align a crc (b # p) =
     (if a mod 4 = 0 then (crc, b # p) else crc_align (a + 1) (do_crc crc (ucast b)) p)"

fun crc_words :: "u32 \<Rightarrow> bytes \<Rightarrow> u32 \<times> bytes" where
  "crc_words crc (b0 # b1 # b2 # b3 # p) =
     crc_words (do_crc (do_crc (do_crc (do_crc (crc XOR le32 b0 b1 b2 b3) 0) 0) 0) 0) p"
| "crc_words crc p = (crc, p)"

definition crc_tail :: "u32 \<Rightarrow> bytes \<Rightarrow> u32" where
  "crc_tail crc p = foldl (\<lambda>crc b. do_crc crc (ucast b)) crc p"

definition crc32_be_table :: "nat \<Rightarrow> u32 \<Rightarrow> bytes \<Rightarrow> u32" where
  "crc32_be_table a crc p =
     (let (crc, p) = crc_align a (htonl crc) p;
          (crc, p) = (if 4 \<le> length p then crc_words crc p else (crc, p))
      in ntohl (crc_tail crc p))"

section \<open>Linearity\<close>

lemma be_bit_xor: "be_bit (a XOR b) = be_bit a XOR be_bit b"
proof -
  have "bit (a XOR b) 31 \<longleftrightarrow> bit a 31 \<noteq> bit b 31" by (simp add: bit_simps)
  then show ?thesis
    unfolding be_bit_def top_bit_u32 push_bit_xor
    by (cases "bit a 31"; cases "bit b 31") (simp_all add: xor.assoc xor.commute xor.left_commute)
qed

lemma be_bits_xor: "(be_bit ^^ n) (a XOR b) = (be_bit ^^ n) a XOR (be_bit ^^ n) b"
  by (induction n) (simp_all add: be_bit_xor)

lemma be_bit_low: "\<not> bit w 31 \<Longrightarrow> be_bit w = push_bit 1 w"
  by (simp only: be_bit_def top_bit_u32 if_False xor.right_neutral)

lemma be_bits_low:
  "(\<forall>i. 32 - n \<le> i \<longrightarrow> \<not> bit w i) \<Longrightarrow> n \<le> 32 \<Longrightarrow> (be_bit ^^ n) w = push_bit n w"
proof (induction n)
  case (Suc n)
  have "(be_bit ^^ n) w = push_bit n w" using Suc by auto
  moreover have "\<not> bit (push_bit n w) 31" using Suc.prems by (auto simp: bit_simps)
  note be_bit_low [OF this]
  ultimately show ?case by (simp only: funpow.simps o_apply push_bit_push_bit plus_1_eq_Suc)
qed simp

section \<open>The table entries\<close>

definition entry :: "nat \<Rightarrow> u32" where
  "entry n = (be_bit ^^ 8) (push_bit 24 (of_nat n))"

lemma entry_xor: "entry n XOR entry k = (be_bit ^^ 8) (push_bit 24 (of_nat n XOR of_nat k))"
  by (simp only: entry_def push_bit_xor be_bits_xor)

lemma bit_nat_bound: "j < 2 ^ k \<Longrightarrow> bit (j :: nat) n \<Longrightarrow> n < k"
  by (metis bit_take_bit_iff take_bit_nat_eq_self)

lemma of_nat_power_xor:
  assumes "j < 2 ^ k"
  shows "(of_nat (2 ^ k + j) :: u32) = of_nat (2 ^ k) XOR of_nat j"
proof -
  let ?a = "2 ^ k :: u32" and ?b = "of_nat j :: u32"
  have disj: "\<not> bit ?a n \<or> \<not> bit ?b n" for n
    using bit_nat_bound [OF assms, of n] by (auto simp: bit_simps)
  then have "?a + ?b = ?a OR ?b" by (rule disjunctive_add)
  also have "\<dots> = ?a XOR ?b" by (rule bit_word_eqI) (use disj in \<open>auto simp: bit_or_iff bit_xor_iff\<close>)
  finally show ?thesis by simp
qed

lemma entry_add: "j < 2 ^ k \<Longrightarrow> entry (2 ^ k + j) = entry (2 ^ k) XOR entry j"
  by (simp only: entry_xor) (simp only: entry_def of_nat_power_xor)

lemma entry_power:
  assumes "k < 8"
  shows "entry (2 ^ k) = (be_bit ^^ Suc k) 0x80000000"
proof -
  have e: "(8 :: nat) = Suc k + (7 - k)" using assms by simp
  have top: "(0x80000000 :: u32) = push_bit 31 1" by simp
  have "push_bit 24 (of_nat (2 ^ k)) = (push_bit (24 + k) 1 :: u32)"
    by (simp add: push_bit_eq_mult power_add mult.commute)
  then have "entry (2 ^ k) = (be_bit ^^ Suc k) ((be_bit ^^ (7 - k)) (push_bit (24 + k) 1))"
    unfolding entry_def by (subst e) (simp only: funpow_add o_apply)
  also have "(be_bit ^^ (7 - k)) (push_bit (24 + k) 1) = push_bit (7 - k) (push_bit (24 + k) 1)"
    using assms by (intro be_bits_low) (auto simp: bit_simps)
  also have "\<dots> = (0x80000000 :: u32)" using assms by (simp only: push_bit_push_bit top) simp
  finally show ?thesis .
qed

lemma init_row_length [simp]: "length (init_row crc i js t) = length t"
  by (induction crc i js t rule: init_row.induct) simp_all

lemma init_row_nth:
  assumes "i + n \<le> length t" "n \<le> i" "m < length t"
  shows "init_row crc i [0..<n] t ! m = (if i \<le> m \<and> m < i + n then crc XOR t ! (m - i) else t ! m)"
proof -
  have row: "init_row crc i (js @ js') t = init_row crc i js' (init_row crc i js t)" for js js' t
    by (induction crc i js t rule: init_row.induct) simp_all
  show ?thesis
    using assms
  proof (induction n arbitrary: m)
    case (Suc n)
    let ?r = "init_row crc i [0..<n] t"
    have "init_row crc i [0..<Suc n] t = ?r[i + n := crc XOR ?r ! n]" by (simp add: row)
    moreover have "?r ! n = t ! n" using Suc.IH [of n] Suc.prems by simp
    moreover have "?r ! m = (if i \<le> m \<and> m < i + n then crc XOR t ! (m - i) else t ! m)"
      using Suc.IH [of m] Suc.prems by simp
    ultimately show ?case using Suc.prems by (cases "m = i + n") simp_all
  qed auto
qed

lemma init_rows_entries:
  assumes "k + length ks = 8" "ks = map ((^) 2) [k..<8]" "length t = 256" "\<forall>n<2 ^ k. t ! n = entry n" "n < 256"
  shows "init_rows ks ((be_bit ^^ k) 0x80000000) t ! n = entry n"
  using assms
proof (induction ks arbitrary: k t)
  case Nil
  then show ?case by simp
next
  case (Cons i ks)
  have k: "k < 8" using Cons.prems(1) by simp
  have i: "i = 2 ^ k" and ks: "ks = map ((^) 2) [Suc k..<8]"
    using Cons.prems(2) upt_conv_Cons [OF k] by simp_all
  let ?t = "init_row ((be_bit ^^ Suc k) 0x80000000) i [0..<i] t"
  have "(2 :: nat) ^ Suc k \<le> 2 ^ 8" using k by (intro power_increasing) simp_all
  then have le: "i + i \<le> length t" using Cons.prems(3) i by simp
  have "?t ! m = entry m" if "m < 2 ^ Suc k" for m
  proof (cases "m < i")
    case True
    then show ?thesis using init_row_nth [OF le, of m] le Cons.prems(4) i by simp
  next
    case False
    then have "m - i < 2 ^ k" using that i by simp
    then have "entry m = entry i XOR entry (m - i)" using entry_add [of "m - i" k] False i by simp
    then show ?thesis
      using init_row_nth [OF le, of m] le False that i Cons.prems(4) entry_power [OF k] by simp
  qed
  then have "init_rows ks ((be_bit ^^ Suc k) 0x80000000) ?t ! n = entry n"
    using Cons.prems(1,3,5) ks by (intro Cons.IH) simp_all
  moreover have "init_rows (i # ks) c t = init_rows ks (be_bit c) (init_row (be_bit c) i [0..<i] t)" for c
    by (simp add: Let_def)
  ultimately show ?case by (simp only: funpow.simps o_apply)
qed

lemma crc32table_be_nth:
  assumes "n < 256"
  shows "crc32table_be ! n = entry n"
proof -
  have "entry 0 = 0" by code_simp
  then have first: "\<forall>n<2 ^ 0. replicate 256 0 ! n = entry n" by simp
  have "init_rows [1, 2, 4, 8, 16, 32, 64, 128] ((be_bit ^^ 0) 0x80000000) (replicate 256 0) ! n = entry n"
  proof (rule init_rows_entries [OF _ _ _ first assms])
    show "[1, 2, 4, 8, 16, 32, 64, 128] = map ((^) (2 :: nat)) [0..<8]" by code_simp
  qed simp_all
  then show ?thesis by (simp only: crc32table_be_def funpow_0)
qed

section \<open>Equivalence\<close>

lemma bit_htonl:
  "bit (htonl w) n \<longleftrightarrow>
     (if n < 8 then bit w (24 + n) else if n < 16 then bit w (n + 8) else if n < 24 then bit w (n - 8)
      else n < 32 \<and> bit w (n - 24))"
  unfolding htonl_def le32_def by (simp add: bit_simps) (auto simp: add.commute)

lemma htonl_xor: "htonl (a XOR b) = htonl a XOR htonl b"
  by (rule bit_word_eqI) (simp add: bit_htonl bit_xor_iff)

lemma htonl_shift: "htonl (push_bit 8 w) = drop_bit 8 (htonl w)"
proof (rule bit_word_eqI)
  fix n
  have "\<not> bit w (n + 8)" if "24 \<le> n" using that bit_imp_le_length [of w "n + 8"] by auto
  then show "bit (htonl (push_bit 8 w)) n = bit (drop_bit 8 (htonl w)) n"
    by (auto simp: bit_htonl bit_drop_bit_eq bit_push_bit_iff)
qed

lemma bit_255: "bit (255 :: u32) n \<longleftrightarrow> n < 8"
proof -
  have m: "(255 :: u32) = mask 8" by (simp add: mask_eq_exp_minus_1)
  show ?thesis unfolding m by (simp only: bit_mask_iff) auto
qed

lemma htonl_low: "htonl w AND 255 = drop_bit 24 w"
proof (rule bit_word_eqI)
  fix n
  have "bit w (24 + n) \<Longrightarrow> n < 8" using bit_imp_le_length [of w "24 + n"] by auto
  then show "bit (htonl w AND 255) n = bit (drop_bit 24 w) n"
    by (simp only: bit_htonl bit_and_iff bit_255 bit_drop_bit_eq) auto
qed

lemma drop_bit_24_bound: "unat (drop_bit 24 (w :: u32)) < 256"
  by (simp add: drop_bit_eq_div unat_div_distrib) (use unsigned_less [of w, where 'a = nat] in simp)

lemma be_byte_entry: "be_byte crc b = entry (unat (drop_bit 24 (crc XOR push_bit 24 (ucast b)))) XOR push_bit 8 crc"
proof -
  let ?w = "crc XOR push_bit 24 (ucast b) :: u32"
  let ?hi = "push_bit 24 (drop_bit 24 ?w)" and ?lo = "take_bit 24 ?w"
  have "?w = ?hi XOR ?lo" by (rule bit_word_eqI) (auto simp: bit_simps)
  then have "be_byte crc b = (be_bit ^^ 8) ?hi XOR (be_bit ^^ 8) ?lo"
    unfolding be_byte_def using be_bits_xor by metis
  moreover have "(be_bit ^^ 8) ?lo = push_bit 8 ?lo" by (rule be_bits_low) (auto simp: bit_simps)
  moreover have "push_bit 8 ?lo = push_bit 8 crc" by (rule bit_word_eqI) (auto simp: bit_simps)
  moreover have "(be_bit ^^ 8) ?hi = entry (unat (drop_bit 24 ?w))" by (simp add: entry_def)
  ultimately show ?thesis by simp
qed

text \<open>One byte of the table-driven version, on the swapped register.\<close>

lemma do_crc_byte: "do_crc (htonl crc) (ucast b) = htonl (be_byte crc b)"
proof -
  have b: "htonl (push_bit 24 (ucast b)) = ucast b"
    by (rule bit_word_eqI) (auto simp: bit_htonl bit_push_bit_iff bit_ucast_iff dest: byte_bit_bound)
  have "(htonl crc XOR ucast b) AND 255 = drop_bit 24 (crc XOR push_bit 24 (ucast b))"
    using htonl_low [of "crc XOR push_bit 24 (ucast b)"] by (simp only: htonl_xor b)
  then show ?thesis
    using drop_bit_24_bound [of "crc XOR push_bit 24 (ucast b)"]
    unfolding do_crc_def tab_def be_byte_entry by (simp only: crc32table_be_nth htonl_xor htonl_shift)
qed

text \<open>Adding a word before a table step is adding its low byte in the step and the rest after.\<close>

lemma do_crc_xor_word: "do_crc (crc XOR w) 0 = do_crc crc (w AND 255) XOR drop_bit 8 w"
proof -
  have "(crc XOR w) AND 255 = (crc XOR (w AND 255)) AND 255"
    by (rule bit_word_eqI) (simp only: bit_and_iff bit_xor_iff bit_255, blast)
  then show ?thesis by (simp add: do_crc_def drop_bit_xor xor.assoc)
qed

lemma le32_bytes:
  "le32 b0 b1 b2 b3 AND 255 = ucast b0" "drop_bit 8 (le32 b0 b1 b2 b3) = le32 b1 b2 b3 0" "le32 0 0 0 0 = 0"
proof -
  show "le32 b0 b1 b2 b3 AND 255 = ucast b0"
    unfolding le32_def
    by (rule bit_word_eqI) (simp only: bit_and_iff bit_255 bit_or_iff bit_push_bit_iff bit_ucast_iff,
        auto dest: byte_bit_bound)
  show "drop_bit 8 (le32 b0 b1 b2 b3) = le32 b1 b2 b3 0"
    unfolding le32_def
    by (rule bit_word_eqI) (auto simp: bit_drop_bit_eq bit_or_iff bit_push_bit_iff bit_ucast_iff dest: byte_bit_bound)
qed (simp add: le32_def)

lemma do_crc_word:
  "do_crc (do_crc (do_crc (do_crc (crc XOR le32 b0 b1 b2 b3) 0) 0) 0) 0 =
     do_crc (do_crc (do_crc (do_crc crc (ucast b0)) (ucast b1)) (ucast b2)) (ucast b3)"
  by (simp only: do_crc_xor_word le32_bytes xor.right_neutral)

lemma crc_tail_swapped: "crc_tail (htonl crc) p = htonl (crc32_be crc p)"
  by (induction p arbitrary: crc) (simp_all add: crc_tail_def crc32_be_def do_crc_byte)

lemma crc_tail_append: "crc_tail crc (p @ q) = crc_tail (crc_tail crc p) q"
  by (simp add: crc_tail_def)

lemma crc_align_tail: "crc_align a crc p = (crc', p') \<Longrightarrow> crc_tail crc' p' = crc_tail crc p"
  by (induction a crc p rule: crc_align.induct) (auto simp: crc_tail_def split: if_splits)

lemma crc_words_tail: "crc_words crc p = (crc', p') \<Longrightarrow> crc_tail crc' p' = crc_tail crc p"
  by (induction crc p rule: crc_words.induct) (auto simp: crc_tail_def do_crc_word)

text \<open>
  C16. The compiled CRC is the bitwise one: for every seed, buffer and alignment of the buffer, the
  table-driven \<open>crc32_be\<close> with the generated table computes the value of the bit-by-bit loop.
\<close>

theorem crc32_be_table_correct: "crc32_be_table a crc p = crc32_be crc p"
proof -
  obtain crc1 p1 where al: "crc_align a (htonl crc) p = (crc1, p1)" by fastforce
  obtain crc2 p2 where w: "(if 4 \<le> length p1 then crc_words crc1 p1 else (crc1, p1)) = (crc2, p2)" by fastforce
  have "crc_tail crc2 p2 = crc_tail crc1 p1" using w crc_words_tail by (auto split: if_splits)
  also have "\<dots> = htonl (crc32_be crc p)" using crc_align_tail [OF al] crc_tail_swapped by simp
  finally show ?thesis by (simp add: crc32_be_table_def al w htonl_htonl)
qed

text \<open>The register can be carried from one buffer to the next.\<close>

lemma crc32_be_append: "crc32_be crc (p @ q) = crc32_be (crc32_be crc p) q"
  by (simp add: crc32_be_def)

section \<open>Error detection\<close>

lemma be_bit_inj: "be_bit a = be_bit b \<longleftrightarrow> a = b"
proof
  assume "be_bit a = be_bit b"
  then have z: "be_bit (a XOR b) = 0" by (simp add: be_bit_xor)
  let ?x = "a XOR b"
  have "bit (be_bit ?x) 0 \<longleftrightarrow> bit ?x 31"
    unfolding be_bit_def top_bit_u32 bit_xor_iff [of "push_bit 1 _"] bit_shift_1 by simp
  then have top: "\<not> bit ?x 31" using z by simp
  then have s: "push_bit 1 ?x = 0" using z be_bit_low by simp
  have "?x = 0"
  proof (rule bit_word_eqI)
    fix n
    assume "n < LENGTH(32)"
    then show "bit ?x n = bit 0 n"
      using top bit_shift_1 [of ?x "Suc n"] unfolding s by (cases "n = 31") auto
  qed
  then show "a = b" by (metis xor.assoc xor.right_neutral xor_self_eq)
qed simp

lemma be_bits_inj: "(be_bit ^^ n) a = (be_bit ^^ n) b \<longleftrightarrow> a = b"
  by (induction n) (simp_all add: be_bit_inj)

lemma xor_cancel: "a XOR c = b XOR c \<longleftrightarrow> a = (b :: u32)"
  by (metis xor.assoc xor.right_neutral xor_self_eq)

lemma be_byte_inj: "be_byte a b = be_byte c b \<longleftrightarrow> a = c" "be_byte a b = be_byte a d \<longleftrightarrow> b = d"
proof -
  show "be_byte a b = be_byte c b \<longleftrightarrow> a = c" by (simp only: be_byte_def be_bits_inj xor_cancel)
  have "be_byte a b = be_byte a d \<longleftrightarrow> push_bit 24 (ucast b) = (push_bit 24 (ucast d) :: u32)"
    by (simp only: be_byte_def be_bits_inj xor.commute [of a] xor_cancel)
  also have "\<dots> \<longleftrightarrow> b = d"
  proof
    assume eq: "push_bit 24 (ucast b) = (push_bit 24 (ucast d) :: u32)"
    show "b = d"
    proof (rule bit_word_eqI)
      fix n
      assume "n < LENGTH(8)"
      then show "bit b n = bit d n"
        using arg_cong [OF eq, of "\<lambda>w. bit w (n + 24)"] by (simp add: bit_push_bit_iff bit_ucast_iff)
    qed
  qed simp
  finally show "be_byte a b = be_byte a d \<longleftrightarrow> b = d" .
qed

lemma crc32_be_inj: "crc32_be a p = crc32_be b p \<longleftrightarrow> a = b"
  by (induction p arbitrary: a b) (simp_all add: crc32_be_def be_byte_inj)

text \<open>
  C29. Every change of a single byte changes the CRC, and equal buffers after different prefixes keep
  different registers apart: a transaction with one damaged byte never passes its checksum.
\<close>

theorem crc32_be_detects_byte:
  assumes "i < length p" "v \<noteq> p ! i"
  shows "crc32_be crc (p[i := v]) \<noteq> crc32_be crc p"
proof -
  have p: "p = take i p @ p ! i # drop (Suc i) p" using assms(1) by (rule id_take_nth_drop)
  have pv: "p[i := v] = take i p @ v # drop (Suc i) p" using assms(1) by (simp add: upd_conv_take_nth_drop)
  have cons: "crc32_be c (b # q) = crc32_be (be_byte c b) q" for c b q by (simp add: crc32_be_def)
  show ?thesis
    using assms(2)
    by (subst (2) p) (simp only: pv crc32_be_append cons crc32_be_inj be_byte_inj not_False_eq_True)
qed

theorem crc32_be_detects_byte_witness:
  "crc32_be 0xFFFFFFFF ([1, 2, 3, 4, 5][2 := 9]) \<noteq> crc32_be 0xFFFFFFFF [1, 2, 3, 4, 5]"
  by (rule crc32_be_detects_byte) simp_all

end
