(* ===== verification/Revoke.thy ===== *)
theory Revoke
  imports Prelude
begin

text \<open>
  The revoke table of journal recovery, \<open>external/e2fsprogs/e2fsck/revoke.c\<close> without its
  kernel-only half, and the transaction-id comparisons of \<open>kernel-jbd.h\<close>. A table is a hash
  table of records; the locale \<open>revoke_spec\<close> states what recovery relies on, is interpreted on
  the hash table, and carries the lemma that a block counts as revoked exactly when the log
  revokes it in the same or a later transaction.
\<close>

section \<open>Transaction ids\<close>

type_synonym tid = u32

definition tid_gt :: "tid \<Rightarrow> tid \<Rightarrow> bool" where
  "tid_gt x y \<longleftrightarrow> 0 < sint (x - y)"

definition tid_geq :: "tid \<Rightarrow> tid \<Rightarrow> bool" where
  "tid_geq x y \<longleftrightarrow> 0 \<le> sint (x - y)"

text \<open>
  Distance from a first id; within a window of \<open>2 ^ 31\<close> ids after it the comparisons are those of
  the distances, across the wrap-around.
\<close>

definition tid_off :: "tid \<Rightarrow> tid \<Rightarrow> nat" where
  "tid_off s0 s = unat (s - s0)"

lemma sint_diff:
  assumes "tid_off s0 x < 2 ^ 31" "tid_off s0 y < 2 ^ 31"
  shows "sint (x - y) = int (tid_off s0 x) - int (tid_off s0 y)"
proof -
  have "x - y = (x - s0) - (y - s0)" by simp
  also have "\<dots> = of_int (int (tid_off s0 x) - int (tid_off s0 y))" by (simp add: tid_off_def)
  finally have "sint (x - y) = signed_take_bit 31 (int (tid_off s0 x) - int (tid_off s0 y))"
    by (simp add: signed_of_int del: of_int_diff of_int_of_nat_eq)
  also have "\<dots> = int (tid_off s0 x) - int (tid_off s0 y)"
    using assms by (intro signed_take_bit_int_eq_self) auto
  finally show ?thesis .
qed

lemma tid_gt_off: "tid_off s0 x < 2 ^ 31 \<Longrightarrow> tid_off s0 y < 2 ^ 31 \<Longrightarrow> tid_gt x y \<longleftrightarrow> tid_off s0 y < tid_off s0 x"
  by (simp add: tid_gt_def sint_diff)

lemma tid_geq_off: "tid_off s0 x < 2 ^ 31 \<Longrightarrow> tid_off s0 y < 2 ^ 31 \<Longrightarrow> tid_geq x y \<longleftrightarrow> tid_off s0 y \<le> tid_off s0 x"
  by (simp add: tid_geq_def sint_diff)

lemma tid_off_add: "k < 2 ^ 32 \<Longrightarrow> tid_off s0 (s0 + of_nat k) = k"
  by (simp add: tid_off_def unat_of_nat)

section \<open>The hash table\<close>

record revoke_record =
  sequence :: tid
  blocknr :: u64

record revoke_table =
  hash_size :: nat
  hash_shift :: nat
  hash_table :: "revoke_record list list"

text \<open>
  \<open>hash_shift - 12\<close> is negative for every table of fewer than 4096 buckets, and the value of a shift
  by it is undefined: it is the parameter \<open>ub\<close>.
\<close>

type_synonym ub_shift = "u64 \<Rightarrow> int \<Rightarrow> u64"

definition shl :: "ub_shift \<Rightarrow> u64 \<Rightarrow> int \<Rightarrow> u64" where
  "shl ub w k = (if 0 \<le> k \<and> k < 64 then push_bit (nat k) w else ub w k)"

definition hash :: "ub_shift \<Rightarrow> revoke_table \<Rightarrow> u64 \<Rightarrow> nat" where
  "hash ub t block =
     unat ((shl ub block (int (hash_shift t) - 6) XOR drop_bit 13 block XOR
            shl ub block (int (hash_shift t) - 12)) AND of_nat (hash_size t - 1))"

abbreviation ENOMEM :: int where "ENOMEM \<equiv> 12"

text \<open>\<open>insert_revoke_hash\<close>; \<open>mem\<close> says whether the allocation succeeds.\<close>

definition insert_revoke_hash :: "ub_shift \<Rightarrow> bool \<Rightarrow> revoke_table \<Rightarrow> u64 \<Rightarrow> tid \<Rightarrow> int \<times> revoke_table" where
  "insert_revoke_hash ub mem t block seq =
     (if \<not> mem then (- ENOMEM, t)
      else let h = hash ub t block
           in (0, t\<lparr>hash_table := (hash_table t)[h := \<lparr>sequence = seq, blocknr = block\<rparr> # hash_table t ! h]\<rparr>))"

definition find_revoke_record :: "ub_shift \<Rightarrow> revoke_table \<Rightarrow> u64 \<Rightarrow> revoke_record option" where
  "find_revoke_record ub t block = find (\<lambda>r. blocknr r = block) (hash_table t ! hash ub t block)"

text \<open>Assignment to the \<open>sequence\<close> of the first record for the block in its bucket.\<close>

fun set_sequence :: "u64 \<Rightarrow> tid \<Rightarrow> revoke_record list \<Rightarrow> revoke_record list" where
  "set_sequence block seq [] = []"
| "set_sequence block seq (r # rs) =
     (if blocknr r = block then r\<lparr>sequence := seq\<rparr> # rs else r # set_sequence block seq rs)"

definition journal_set_revoke :: "ub_shift \<Rightarrow> bool \<Rightarrow> revoke_table \<Rightarrow> u64 \<Rightarrow> tid \<Rightarrow> int \<times> revoke_table" where
  "journal_set_revoke ub mem t block seq =
     (case find_revoke_record ub t block of
        Some r \<Rightarrow>
          (0, if tid_gt seq (sequence r)
              then let h = hash ub t block
                   in t\<lparr>hash_table := (hash_table t)[h := set_sequence block seq (hash_table t ! h)]\<rparr>
              else t)
      | None \<Rightarrow> insert_revoke_hash ub mem t block seq)"

definition journal_test_revoke :: "ub_shift \<Rightarrow> revoke_table \<Rightarrow> u64 \<Rightarrow> tid \<Rightarrow> bool" where
  "journal_test_revoke ub t block seq =
     (case find_revoke_record ub t block of
        None \<Rightarrow> False
      | Some r \<Rightarrow> if tid_gt seq (sequence r) then False else True)"

definition journal_clear_revoke :: "revoke_table \<Rightarrow> revoke_table" where
  "journal_clear_revoke t = t\<lparr>hash_table := map (\<lambda>_. []) (hash_table t)\<rparr>"

text \<open>The loop that computes \<open>hash_shift\<close>.\<close>

fun shift_of :: "nat \<Rightarrow> nat" where
  "shift_of tmp = (if tmp div 2 \<noteq> 0 then Suc (shift_of (tmp div 2)) else 0)"

declare shift_of.simps [simp del]

text \<open>\<open>journal_init_revoke\<close>: \<open>None\<close> when the assertion on the size fails or an allocation does.\<close>

definition journal_init_revoke :: "bool \<Rightarrow> nat \<Rightarrow> revoke_table option" where
  "journal_init_revoke mem size0 =
     (if \<not> mem then None
      else if (of_nat size0 AND of_nat (size0 - 1) :: u32) \<noteq> 0 then None
      else Some \<lparr>hash_size = size0, hash_shift = shift_of size0, hash_table = replicate size0 []\<rparr>)"

text \<open>\<open>journal_destroy_revoke\<close> asserts that every bucket is empty.\<close>

definition journal_destroy_revoke :: "revoke_table \<Rightarrow> bool" where
  "journal_destroy_revoke t = list_all (\<lambda>b. b = []) (hash_table t)"

section \<open>What recovery relies on\<close>

locale revoke_spec =
  fixes set_revoke :: "'t \<Rightarrow> u64 \<Rightarrow> tid \<Rightarrow> 't"
    and test_revoke :: "'t \<Rightarrow> u64 \<Rightarrow> tid \<Rightarrow> bool"
    and clear :: "'t \<Rightarrow> 't"
    and lookup :: "'t \<Rightarrow> u64 \<Rightarrow> tid option"
    and inv :: "'t \<Rightarrow> bool"
  assumes inv_set: "inv t \<Longrightarrow> inv (set_revoke t b s)"
    and inv_clear: "inv t \<Longrightarrow> inv (clear t)"
    and lookup_set: "inv t \<Longrightarrow> lookup (set_revoke t b s) b' =
      (if b' = b then Some (case lookup t b of None \<Rightarrow> s | Some s' \<Rightarrow> if tid_gt s s' then s else s') else lookup t b')"
    and lookup_clear: "inv t \<Longrightarrow> lookup (clear t) b = None"
    and test_iff: "inv t \<Longrightarrow> test_revoke t b s = (case lookup t b of None \<Rightarrow> False | Some s' \<Rightarrow> \<not> tid_gt s s')"
begin

definition set_all :: "(u64 \<times> tid) list \<Rightarrow> 't \<Rightarrow> 't" where
  "set_all rs t = fold (\<lambda>(b, s) t. set_revoke t b s) rs t"

lemma inv_set_all: "inv t \<Longrightarrow> inv (set_all rs t)"
  by (induction rs arbitrary: t) (auto simp: set_all_def inv_set)

lemma lookup_set_all:
  assumes "inv t" "\<forall>b. lookup t b = None" "\<forall>(b, s) \<in> set rs. tid_off s0 s < 2 ^ 31"
  shows "(case lookup (set_all rs t) b of
       None \<Rightarrow> (\<forall>s. (b, s) \<notin> set rs)
     | Some s' \<Rightarrow> (b, s') \<in> set rs \<and> (\<forall>s. (b, s) \<in> set rs \<longrightarrow> tid_off s0 s \<le> tid_off s0 s'))"
  using assms(3)
proof (induction rs rule: rev_induct)
  case Nil
  then show ?case using assms(2) by (simp add: set_all_def)
next
  case (snoc r rs)
  obtain b1 s1 where r: "r = (b1, s1)" by (cases r)
  have step: "set_all (rs @ [r]) t = set_revoke (set_all rs t) b1 s1" by (simp add: set_all_def r)
  have IH: "(case lookup (set_all rs t) b of None \<Rightarrow> (\<forall>s. (b, s) \<notin> set rs)
     | Some s' \<Rightarrow> (b, s') \<in> set rs \<and> (\<forall>s. (b, s) \<in> set rs \<longrightarrow> tid_off s0 s \<le> tid_off s0 s'))"
    using snoc by simp
  have off: "tid_off s0 s1 < 2 ^ 31" "\<And>s. (b, s) \<in> set rs \<Longrightarrow> tid_off s0 s < 2 ^ 31"
    using snoc.prems r by auto
  show ?case
    unfolding step lookup_set [OF inv_set_all [OF assms(1)]]
    using IH off by (cases "lookup (set_all rs t) b") (auto simp: r tid_gt_off [of s0])
qed

lemma test_set_all:
  assumes "inv t" "\<forall>b. lookup t b = None" "\<forall>(b, s) \<in> set rs. tid_off s0 s < 2 ^ 31" "tid_off s0 s < 2 ^ 31"
  shows "test_revoke (set_all rs t) b s \<longleftrightarrow> (\<exists>s'. (b, s') \<in> set rs \<and> tid_off s0 s \<le> tid_off s0 s')"
proof -
  have off: "tid_off s0 s' < 2 ^ 31" if "(b, s') \<in> set rs" for s' using assms(3) that by auto
  show ?thesis
    using lookup_set_all [OF assms(1-3), of b] off
    by (cases "lookup (set_all rs t) b") (auto simp: test_iff [OF inv_set_all [OF assms(1)]] tid_gt_off [OF assms(4)] not_less intro: order_trans)
qed

end

section \<open>The hash table implements it\<close>

definition bucket_ok :: "ub_shift \<Rightarrow> revoke_table \<Rightarrow> nat \<Rightarrow> bool" where
  "bucket_ok ub t i \<longleftrightarrow> (\<forall>r \<in> set (hash_table t ! i). hash ub t (blocknr r) = i) \<and>
     distinct (map blocknr (hash_table t ! i))"

definition revoke_inv :: "ub_shift \<Rightarrow> revoke_table \<Rightarrow> bool" where
  "revoke_inv ub t \<longleftrightarrow> 0 < hash_size t \<and> hash_size t < 2 ^ 31 \<and> length (hash_table t) = hash_size t \<and>
     (\<forall>i < hash_size t. bucket_ok ub t i)"

definition revoke_lookup :: "ub_shift \<Rightarrow> revoke_table \<Rightarrow> u64 \<Rightarrow> tid option" where
  "revoke_lookup ub t b = map_option sequence (find_revoke_record ub t b)"

lemma hash_bound:
  assumes "0 < hash_size t" "hash_size t < 2 ^ 31"
  shows "hash ub t b < hash_size t"
proof -
  have "hash ub t b \<le> unat (of_nat (hash_size t - 1) :: u64)"
    unfolding hash_def by (metis and.commute word_and_le1 word_le_nat_alt)
  also have "\<dots> = hash_size t - 1" using assms by (simp add: unat_of_nat del: of_nat_diff)
  finally show ?thesis using assms(1) by simp
qed

lemma hash_cong [simp]: "hash ub (t\<lparr>hash_table := x\<rparr>) b = hash ub t b"
  by (simp add: hash_def)

lemma find_cons_other: "P x \<Longrightarrow> find P (x # xs) = Some x" "\<not> P x \<Longrightarrow> find P (x # xs) = find P xs"
  by simp_all

lemma find_set_sequence:
  "find (\<lambda>r. blocknr r = b') (set_sequence b s rs) =
     (if b' = b then map_option (\<lambda>r. r\<lparr>sequence := s\<rparr>) (find (\<lambda>r. blocknr r = b) rs)
      else find (\<lambda>r. blocknr r = b') rs)"
  by (induction b s rs rule: set_sequence.induct) auto

lemma set_sequence_blocks: "map blocknr (set_sequence b s rs) = map blocknr rs"
  by (induction b s rs rule: set_sequence.induct) auto

lemma set_sequence_ok:
  "(\<forall>r \<in> set (set_sequence b s rs). P (blocknr r)) \<longleftrightarrow> (\<forall>r \<in> set rs. P (blocknr r))"
  by (induction b s rs rule: set_sequence.induct) auto

text \<open>Replacing one bucket by one that is fit for it keeps the invariant.\<close>

lemma revoke_inv_update:
  assumes "revoke_inv ub t" "i < hash_size t" "\<forall>r \<in> set rs. hash ub t (blocknr r) = i" "distinct (map blocknr rs)"
  shows "revoke_inv ub (t\<lparr>hash_table := (hash_table t)[i := rs]\<rparr>)"
  using assms by (auto simp: revoke_inv_def bucket_ok_def nth_list_update)

lemma find_update:
  assumes "revoke_inv ub t"
  shows "find_revoke_record ub (t\<lparr>hash_table := (hash_table t)[hash ub t b := rs]\<rparr>) b' =
    (if hash ub t b' = hash ub t b then find (\<lambda>r. blocknr r = b') rs else find_revoke_record ub t b')"
  using assms hash_bound [of t ub] by (auto simp: find_revoke_record_def revoke_inv_def)

lemma find_none_distinct: "find (\<lambda>r. blocknr r = b) rs = None \<longleftrightarrow> b \<notin> blocknr ` set rs"
  by (auto simp: find_None_iff)

lemma revoke_set_inv:
  assumes inv: "revoke_inv ub t"
  shows "revoke_inv ub (snd (journal_set_revoke ub True t b s))"
proof -
  let ?h = "hash ub t b"
  have h: "?h < hash_size t" using inv hash_bound by (simp add: revoke_inv_def)
  then have ok: "bucket_ok ub t ?h" using inv by (simp add: revoke_inv_def)
  show ?thesis
  proof (cases "find_revoke_record ub t b")
    case None
    then have "b \<notin> blocknr ` set (hash_table t ! ?h)"
      by (simp add: find_revoke_record_def find_none_distinct)
    then show ?thesis
      using None ok by (auto simp: journal_set_revoke_def insert_revoke_hash_def Let_def bucket_ok_def
          intro!: revoke_inv_update [OF inv h])
  next
    case (Some r)
    then show ?thesis
      using inv ok set_sequence_ok [of b s "hash_table t ! ?h" "\<lambda>x. hash ub t x = ?h"]
      by (auto simp: journal_set_revoke_def Let_def bucket_ok_def set_sequence_blocks
          intro!: revoke_inv_update [OF inv h])
  qed
qed

lemma revoke_set_lookup:
  assumes inv: "revoke_inv ub t"
  shows "revoke_lookup ub (snd (journal_set_revoke ub True t b s)) b' =
    (if b' = b then Some (case revoke_lookup ub t b of None \<Rightarrow> s | Some s' \<Rightarrow> if tid_gt s s' then s else s')
     else revoke_lookup ub t b')"
proof (cases "find_revoke_record ub t b")
  case None
  then show ?thesis
    by (auto simp: journal_set_revoke_def insert_revoke_hash_def Let_def revoke_lookup_def find_update [OF inv])
      (auto simp: find_revoke_record_def)
next
  case (Some r)
  then show ?thesis
    by (auto simp: journal_set_revoke_def Let_def revoke_lookup_def find_update [OF inv] find_set_sequence)
      (auto simp: find_revoke_record_def)
qed

interpretation rv: revoke_spec "\<lambda>t b s. snd (journal_set_revoke ub True t b s)" "journal_test_revoke ub"
    journal_clear_revoke "revoke_lookup ub" "revoke_inv ub" for ub
proof unfold_locales
  fix t b s b'
  assume inv: "revoke_inv ub t"
  show "revoke_inv ub (snd (journal_set_revoke ub True t b s))" using inv by (rule revoke_set_inv)
  show "revoke_inv ub (journal_clear_revoke t)"
    using inv by (simp add: revoke_inv_def journal_clear_revoke_def bucket_ok_def)
  show "revoke_lookup ub (snd (journal_set_revoke ub True t b s)) b' =
      (if b' = b then Some (case revoke_lookup ub t b of None \<Rightarrow> s | Some s' \<Rightarrow> if tid_gt s s' then s else s')
       else revoke_lookup ub t b')"
    using inv by (rule revoke_set_lookup)
  have "hash ub t b < length (hash_table t)" using inv hash_bound by (simp add: revoke_inv_def)
  then show "revoke_lookup ub (journal_clear_revoke t) b = None"
    by (simp add: revoke_lookup_def find_revoke_record_def journal_clear_revoke_def)
  show "journal_test_revoke ub t b s = (case revoke_lookup ub t b of None \<Rightarrow> False | Some s' \<Rightarrow> \<not> tid_gt s s')"
    by (simp add: journal_test_revoke_def revoke_lookup_def split: option.split)
qed

lemma journal_init_revoke_inv:
  assumes "journal_init_revoke mem n = Some t" "0 < n" "n < 2 ^ 31"
  shows "revoke_inv ub t" "revoke_lookup ub t b = None"
proof -
  have t: "hash_size t = n" "hash_table t = replicate n []"
    using assms(1) by (auto simp: journal_init_revoke_def split: if_splits)
  show inv: "revoke_inv ub t" using assms t by (simp add: revoke_inv_def bucket_ok_def)
  have "hash ub t b < n" using hash_bound [of t ub b] assms t by simp
  then show "revoke_lookup ub t b = None" by (simp add: revoke_lookup_def find_revoke_record_def t)
qed

text \<open>
  C4. The revoke table answers exactly: after any sequence of revokes with ids in a window of
  \<open>2 ^ 31\<close>, in any order and with repetitions, a block of a transaction tests as revoked iff the
  log revokes it in that or a later transaction; afterwards the cleared table is empty, as its
  destruction asserts. The values of the undefined shifts in the hash do not matter.
\<close>

theorem revoke_table_exact:
  assumes "journal_init_revoke True n = Some t" "0 < n" "n < 2 ^ 31"
    and "\<forall>(b, s) \<in> set rs. tid_off s0 s < 2 ^ 31" "tid_off s0 seq < 2 ^ 31"
  shows "let t' = fold (\<lambda>(b, s) t. snd (journal_set_revoke ub True t b s)) rs t
    in (journal_test_revoke ub t' block seq \<longleftrightarrow> (\<exists>s'. (block, s') \<in> set rs \<and> tid_geq s' seq)) \<and>
       journal_destroy_revoke (journal_clear_revoke t')"
proof -
  have off: "tid_geq s' seq \<longleftrightarrow> tid_off s0 seq \<le> tid_off s0 s'" if "(block, s') \<in> set rs" for s'
  proof -
    have "tid_off s0 s' < 2 ^ 31" using assms(4) that by fastforce
    then show ?thesis using assms(5) by (rule tid_geq_off)
  qed
  have "\<forall>b. revoke_lookup ub t b = None" using journal_init_revoke_inv(2) [OF assms(1-3)] by blast
  from rv.test_set_all [OF journal_init_revoke_inv(1) [OF assms(1-3)] this assms(4,5)]
  show ?thesis
    using off by (auto simp: rv.set_all_def Let_def journal_destroy_revoke_def journal_clear_revoke_def list_all_iff)
qed

theorem revoke_table_exact_witness:
  "\<exists>t. journal_init_revoke True 1024 = Some t \<and>
     \<not> journal_test_revoke (\<lambda>_ _. 0) (fold (\<lambda>(b, s) t. snd (journal_set_revoke (\<lambda>_ _. 0) True t b s))
         [(7, 0xFFFFFFFF), (9, 1), (7, 0)] t) 7 1"
proof -
  have pow2: "(1024 AND 1023 :: u32) = 0" by simp
  then obtain t where t: "journal_init_revoke True 1024 = Some t" by (simp add: journal_init_revoke_def)
  have off: "tid_off 0xFFFFFFFF 0xFFFFFFFF = 0" "tid_off 0xFFFFFFFF 0 = 1" "tid_off 0xFFFFFFFF 1 = 2"
    by code_simp+
  have "\<not> tid_geq 0xFFFFFFFF 1" "\<not> tid_geq 0 1" by code_simp+
  then show ?thesis
    using revoke_table_exact [OF t, of "[(7, 0xFFFFFFFF), (9, 1), (7, 0)]" "0xFFFFFFFF" 1 "\<lambda>_ _. 0" 7] t off
    by (auto simp: Let_def)
qed

end
