(* ===== verification/Recovery.thy ===== *)
theory Recovery
  imports Revoke Crc32
begin

text \<open>
  Journal recovery, \<open>external/e2fsprogs/e2fsck/recovery.c\<close>: the three passes over the log, the
  parsing of descriptor and revoke blocks, transaction checksums and the replay. The devices are
  a parameter: what reading a log block yields, and whether buffers can be allocated. The passes
  are iterations of a step function with fuel. The lemmas describe logs that a journal writes
  and show that recovery copies exactly the blocks of complete transactions that are not
  revoked, in order; and that a damaged log can keep a pass from ending or make it read outside
  a block.
\<close>

section \<open>The journal\<close>

record journal =
  j_maxlen :: nat
  j_blocksize :: nat
  j_first :: nat
  j_last :: nat
  s_start :: u32
  s_sequence :: u32
  has_checksum :: bool
  has_async_commit :: bool
  has_64bit :: bool
  j_failed_commit :: tid
  j_transaction_sequence :: tid
  j_tail :: nat
  j_revoke :: revoke_table

text \<open>
  The devices: a log block or the error of \<open>journal_bmap\<close> or of the read; whether \<open>getblk\<close>
  finds a buffer for a file system block; whether the allocation of the n-th revoke record
  succeeds; and the values of undefined shifts.
\<close>

record devices =
  dev_log :: "nat \<Rightarrow> int + bytes"
  dev_getblk :: "u64 \<Rightarrow> bool"
  dev_mem :: "nat \<Rightarrow> bool"
  dev_ub :: ub_shift

record recovery_info =
  start_transaction :: tid
  end_transaction :: tid
  nr_replays :: nat
  nr_revokes :: nat
  nr_revoke_hits :: nat

datatype passtype = PASS_SCAN | PASS_REVOKE | PASS_REPLAY

abbreviation (input) EIO :: int where "EIO \<equiv> 5"
abbreviation (input) JFS_MAGIC_NUMBER :: u32 where "JFS_MAGIC_NUMBER \<equiv> 0xc03b3998"
abbreviation (input) JFS_DESCRIPTOR_BLOCK :: u32 where "JFS_DESCRIPTOR_BLOCK \<equiv> 1"
abbreviation (input) JFS_COMMIT_BLOCK :: u32 where "JFS_COMMIT_BLOCK \<equiv> 2"
abbreviation (input) JFS_REVOKE_BLOCK :: u32 where "JFS_REVOKE_BLOCK \<equiv> 5"
abbreviation (input) JFS_FLAG_ESCAPE :: u32 where "JFS_FLAG_ESCAPE \<equiv> 1"
abbreviation (input) JFS_FLAG_SAME_UUID :: u32 where "JFS_FLAG_SAME_UUID \<equiv> 2"
abbreviation (input) JFS_FLAG_LAST_TAG :: u32 where "JFS_FLAG_LAST_TAG \<equiv> 8"

definition be32 :: "bytes \<Rightarrow> nat \<Rightarrow> u32" where
  "be32 b i = ntohl (load32 b i)"

definition journal_tag_bytes :: "journal \<Rightarrow> nat" where
  "journal_tag_bytes j = (if has_64bit j then 12 else 8)"

section \<open>Reading the log\<close>

text \<open>The offset of \<open>jread\<close> is an \<open>unsigned int\<close>.\<close>

definition jread :: "devices \<Rightarrow> journal \<Rightarrow> nat \<Rightarrow> int + bytes" where
  "jread d j block =
     (let offset = block mod 2 ^ 32
      in if j_maxlen j \<le> offset then Inl (- EIO) else dev_log d offset)"

definition wrap :: "journal \<Rightarrow> nat \<Rightarrow> nat" where
  "wrap j var = (if j_last j \<le> var then nat (int var - (int (j_last j) - int (j_first j))) else var)"

text \<open>The tags of a descriptor block from \<open>tagp\<close> on: the loop of \<open>count_tags\<close>.\<close>

function count_loop :: "journal \<Rightarrow> bytes \<Rightarrow> nat \<Rightarrow> nat" where
  "count_loop j b tagp =
     (if tagp + journal_tag_bytes j \<le> j_blocksize j then
        let flags = be32 b (tagp + 4);
            tagp' = tagp + journal_tag_bytes j + (if flags AND JFS_FLAG_SAME_UUID = 0 then 16 else 0)
        in if flags AND JFS_FLAG_LAST_TAG \<noteq> 0 then 1 else 1 + count_loop j b tagp'
      else 0)"
  by pat_completeness auto
termination
  by (relation "measure (\<lambda>(j, b, tagp). j_blocksize j - tagp)") (auto simp: journal_tag_bytes_def)

declare count_loop.simps [simp del]

definition count_tags :: "journal \<Rightarrow> bytes \<Rightarrow> nat" where
  "count_tags j b = count_loop j b 12"

definition read_tag_block :: "nat \<Rightarrow> bytes \<Rightarrow> nat \<Rightarrow> u64" where
  "read_tag_block tag_bytes b tagp =
     (let block = ucast (be32 b tagp)
      in if 8 < tag_bytes then block OR push_bit 32 (ucast (be32 b (tagp + 8))) else block)"

text \<open>\<open>calc_chksums\<close> for the \<open>n\<close> blocks that are left: the result, the next block and the sum.\<close>

fun chksum_loop :: "devices \<Rightarrow> journal \<Rightarrow> nat \<Rightarrow> nat \<Rightarrow> u32 \<Rightarrow> bool \<times> nat \<times> u32" where
  "chksum_loop d j 0 next crc = (False, next, crc)"
| "chksum_loop d j (Suc n) next crc =
     (case jread d j next of
        Inl err \<Rightarrow> (True, wrap j (next + 1), crc)
      | Inr obh \<Rightarrow> chksum_loop d j n (wrap j (next + 1)) (crc32_be crc obh))"

definition calc_chksums :: "devices \<Rightarrow> journal \<Rightarrow> bytes \<Rightarrow> nat \<Rightarrow> u32 \<Rightarrow> bool \<times> nat \<times> u32" where
  "calc_chksums d j bh next crc = chksum_loop d j (count_tags j bh) next (crc32_be crc bh)"

section \<open>State of a pass\<close>

text \<open>The file system is a function from block numbers to contents.\<close>

record pstate =
  next_commit_ID :: tid
  next_log_block :: nat
  success :: int
  crc32_sum :: u32
  p_info :: recovery_info
  p_journal :: journal
  p_fs :: "u64 \<Rightarrow> bytes"

text \<open>
  How an iteration of the \<open>while (1)\<close> ends: with the next one, at \<open>done\<close>, at \<open>failed\<close>, or in a read
  outside the block.
\<close>

datatype outcome = Next pstate | Done pstate | Fail int pstate | Undef

definition set_end :: "tid \<Rightarrow> pstate \<Rightarrow> pstate" where
  "set_end t st = st\<lparr>p_info := (p_info st)\<lparr>end_transaction := t\<rparr>\<rparr>"

definition set_failed_commit :: "tid \<Rightarrow> pstate \<Rightarrow> pstate" where
  "set_failed_commit t st = st\<lparr>p_journal := (p_journal st)\<lparr>j_failed_commit := t\<rparr>\<rparr>"

section \<open>Revoke blocks\<close>

definition record_at :: "bytes \<Rightarrow> nat \<Rightarrow> nat \<Rightarrow> u64" where
  "record_at b record_len offset =
     (if record_len = 4 then ucast (be32 b offset)
      else push_bit 32 (ucast (be32 b offset)) OR ucast (be32 b (offset + 4)))"

text \<open>The loop of \<open>scan_revoke_records\<close>; the bound is read from the block.\<close>

function scan_revoke_loop :: "devices \<Rightarrow> bytes \<Rightarrow> nat \<Rightarrow> nat \<Rightarrow> int \<Rightarrow> tid \<Rightarrow> pstate \<Rightarrow> outcome" where
  "scan_revoke_loop d b record_len offset maxo seq st =
     (if 0 < record_len \<and> int offset < maxo then
        if length b < offset + record_len then Undef
        else
          let block = record_at b record_len offset;
              j = p_journal st;
              (err, t) = journal_set_revoke (dev_ub d) (dev_mem d (nr_revokes (p_info st))) (j_revoke j) block seq;
              st = st\<lparr>p_journal := j\<lparr>j_revoke := t\<rparr>\<rparr>
          in if err \<noteq> 0 then Fail err st
             else scan_revoke_loop d b record_len (offset + record_len) maxo seq
                    (st\<lparr>p_info := (p_info st)\<lparr>nr_revokes := nr_revokes (p_info st) + 1\<rparr>\<rparr>)
      else Next st)"
  by pat_completeness auto
termination
  by (relation "measure (\<lambda>(d, b, record_len, offset, maxo, seq, st). nat (maxo - int offset))") auto

declare scan_revoke_loop.simps [simp del]

definition scan_revoke_records :: "devices \<Rightarrow> bytes \<Rightarrow> tid \<Rightarrow> pstate \<Rightarrow> outcome" where
  "scan_revoke_records d b seq st =
     scan_revoke_loop d b (if has_64bit (p_journal st) then 8 else 4) 16 (sint (be32 b 12)) seq st"

section \<open>Replay of a descriptor block\<close>

text \<open>The copy of one log block, with the magic number restored if it was escaped.\<close>

definition restore_block :: "u32 \<Rightarrow> bytes \<Rightarrow> bytes" where
  "restore_block flags obh =
     (if flags AND JFS_FLAG_ESCAPE \<noteq> 0 then splice obh 0 (bytes32 (htonl JFS_MAGIC_NUMBER)) else obh)"

definition replay_tag :: "devices \<Rightarrow> bytes \<Rightarrow> nat \<Rightarrow> pstate \<Rightarrow> outcome" where
  "replay_tag d b tagp st =
     (let j = p_journal st;
          flags = be32 b (tagp + 4);
          io_block = next_log_block st;
          st = st\<lparr>next_log_block := wrap j (io_block + 1)\<rparr>
      in case jread d j io_block of
           Inl err \<Rightarrow> Next (st\<lparr>success := err\<rparr>)
         | Inr obh \<Rightarrow>
             let block = read_tag_block (journal_tag_bytes j) b tagp
             in if journal_test_revoke (dev_ub d) (j_revoke j) block (next_commit_ID st)
                then Next (st\<lparr>p_info := (p_info st)\<lparr>nr_revoke_hits := nr_revoke_hits (p_info st) + 1\<rparr>\<rparr>)
                else if \<not> dev_getblk d block then Fail (- ENOMEM) st
                else Next (st\<lparr>p_fs := (p_fs st)(block := restore_block flags obh),
                             p_info := (p_info st)\<lparr>nr_replays := nr_replays (p_info st) + 1\<rparr>\<rparr>))"

function replay_loop :: "devices \<Rightarrow> bytes \<Rightarrow> nat \<Rightarrow> pstate \<Rightarrow> outcome" where
  "replay_loop d b tagp st =
     (let j = p_journal st; flags = be32 b (tagp + 4)
      in if tagp + journal_tag_bytes j \<le> j_blocksize j then
           (case replay_tag d b tagp st of
              Next st' \<Rightarrow>
                if flags AND JFS_FLAG_LAST_TAG \<noteq> 0 then Next st'
                else replay_loop d b (tagp + journal_tag_bytes j + (if flags AND JFS_FLAG_SAME_UUID = 0 then 16 else 0)) st'
            | other \<Rightarrow> other)
         else Next st)"
  by pat_completeness auto
termination
  by (relation "measure (\<lambda>(d, b, tagp, st). j_blocksize (p_journal st) - tagp)")
    (auto simp: journal_tag_bytes_def replay_tag_def Let_def split: sum.splits if_splits)

declare replay_loop.simps [simp del]

section \<open>One iteration of a pass\<close>

definition descriptor_block :: "devices \<Rightarrow> passtype \<Rightarrow> bytes \<Rightarrow> pstate \<Rightarrow> outcome" where
  "descriptor_block d pass b st =
     (let j = p_journal st
      in if pass \<noteq> PASS_REPLAY then
           if pass = PASS_SCAN \<and> has_checksum j \<and> end_transaction (p_info st) = 0 then
             let (failed, next, crc) = calc_chksums d j b (next_log_block st) (crc32_sum st)
             in Next (st\<lparr>next_log_block := next, crc32_sum := crc\<rparr>)
           else Next (st\<lparr>next_log_block := wrap j (next_log_block st + count_tags j b)\<rparr>)
         else replay_loop d b 12 st)"

text \<open>
  Leaving the \<open>switch\<close> by \<open>break\<close> goes on with the loop: at a commit block that fails its checksum the
  transaction id stays, and the next block ends the pass by its sequence number.
\<close>

definition commit_block :: "passtype \<Rightarrow> bytes \<Rightarrow> pstate \<Rightarrow> outcome" where
  "commit_block pass b st =
     (let j = p_journal st; ID = next_commit_ID st
      in if pass = PASS_SCAN \<and> has_checksum j then
           let found_chksum = be32 b 16
           in if end_transaction (p_info st) \<noteq> 0 then
                Next (set_failed_commit (end_transaction (p_info st)) st)
              else
                let chksum_seen = (crc32_sum st = found_chksum \<and> b ! 12 = 1 \<and> b ! 13 = 4);
                    chksum_err = (\<not> chksum_seen \<and> \<not> (b ! 12 = 0 \<and> b ! 13 = 0 \<and> found_chksum = 0))
                in if chksum_err \<and> \<not> has_async_commit j then
                     Next (set_failed_commit ID (set_end ID st))
                   else Next ((if chksum_err then set_end ID st else st)\<lparr>crc32_sum := - 1, next_commit_ID := ID + 1\<rparr>)
         else Next (st\<lparr>next_commit_ID := ID + 1\<rparr>))"

definition revoke_block :: "devices \<Rightarrow> passtype \<Rightarrow> bytes \<Rightarrow> pstate \<Rightarrow> outcome" where
  "revoke_block d pass b st =
     (if pass \<noteq> PASS_REVOKE then Next st else scan_revoke_records d b (next_commit_ID st) st)"

definition pass_step :: "devices \<Rightarrow> passtype \<Rightarrow> pstate \<Rightarrow> outcome" where
  "pass_step d pass st =
     (let j = p_journal st
      in if pass \<noteq> PASS_SCAN \<and> tid_geq (next_commit_ID st) (end_transaction (p_info st)) then Done st
         else case jread d j (next_log_block st) of
           Inl err \<Rightarrow> Fail err st
         | Inr bh \<Rightarrow>
             let st = st\<lparr>next_log_block := wrap j (next_log_block st + 1)\<rparr>
             in if be32 bh 0 \<noteq> JFS_MAGIC_NUMBER then Done st
                else
                  let blocktype = be32 bh 4; seq = be32 bh 8
                  in if seq \<noteq> next_commit_ID st then Done st
                     else if blocktype = JFS_DESCRIPTOR_BLOCK then descriptor_block d pass bh st
                     else if blocktype = JFS_COMMIT_BLOCK then commit_block pass bh st
                     else if blocktype = JFS_REVOKE_BLOCK then revoke_block d pass bh st
                     else Done st)"

section \<open>The passes\<close>

text \<open>What a function returns, with the state it leaves; or that it read outside a block.\<close>

datatype result = Returned int pstate | Undefined

definition finish :: "passtype \<Rightarrow> pstate \<Rightarrow> result" where
  "finish pass st =
     (if pass = PASS_SCAN then
        Returned (success st)
          (if end_transaction (p_info st) = 0 then set_end (next_commit_ID st) st else st)
      else if end_transaction (p_info st) \<noteq> next_commit_ID st then
        Returned (if success st = 0 then - EIO else success st) st
      else Returned (success st) st)"

text \<open>The loop with fuel; \<open>None\<close> when the fuel runs out.\<close>

fun pass_loop :: "devices \<Rightarrow> passtype \<Rightarrow> nat \<Rightarrow> pstate \<Rightarrow> result option" where
  "pass_loop d pass 0 st = None"
| "pass_loop d pass (Suc n) st =
     (case pass_step d pass st of
        Next st' \<Rightarrow> pass_loop d pass n st'
      | Done st' \<Rightarrow> Some (finish pass st')
      | Fail err st' \<Rightarrow> Some (Returned err st')
      | Undef \<Rightarrow> Some Undefined)"

definition start_pass :: "passtype \<Rightarrow> pstate \<Rightarrow> pstate" where
  "start_pass pass st =
     (let j = p_journal st
      in st\<lparr>next_commit_ID := s_sequence j, next_log_block := unat (s_start j), success := 0, crc32_sum := - 1,
            p_info := (if pass = PASS_SCAN then (p_info st)\<lparr>start_transaction := s_sequence j\<rparr> else p_info st)\<rparr>)"

definition do_one_pass :: "devices \<Rightarrow> nat \<Rightarrow> passtype \<Rightarrow> pstate \<Rightarrow> result option" where
  "do_one_pass d fuel pass st = pass_loop d pass fuel (start_pass pass st)"

definition no_info :: recovery_info where
  "no_info = \<lparr>start_transaction = 0, end_transaction = 0, nr_replays = 0, nr_revokes = 0, nr_revoke_hits = 0\<rparr>"

text \<open>A pass that follows another one if that returned 0.\<close>

definition then_pass :: "devices \<Rightarrow> nat \<Rightarrow> passtype \<Rightarrow> result option \<Rightarrow> result option" where
  "then_pass d fuel pass r =
     (case r of
        Some (Returned err st) \<Rightarrow> if err = 0 then do_one_pass d fuel pass st else r
      | _ \<Rightarrow> r)"

definition enter :: "journal \<Rightarrow> (u64 \<Rightarrow> bytes) \<Rightarrow> pstate" where
  "enter j fs = \<lparr>next_commit_ID = 0, next_log_block = 0, success = 0, crc32_sum = 0, p_info = no_info,
                 p_journal = j, p_fs = fs\<rparr>"

definition next_transaction :: "pstate \<Rightarrow> pstate" where
  "next_transaction st =
     (let t = end_transaction (p_info st) + 1
      in set_end t (st\<lparr>p_journal := (p_journal st)\<lparr>j_transaction_sequence := t\<rparr>\<rparr>))"

definition journal_recover :: "devices \<Rightarrow> nat \<Rightarrow> journal \<Rightarrow> (u64 \<Rightarrow> bytes) \<Rightarrow> result option" where
  "journal_recover d fuel j fs =
     (if s_start j = 0 then
        Some (Returned 0 (enter (j\<lparr>j_transaction_sequence := s_sequence j + 1\<rparr>) fs))
      else
        case then_pass d fuel PASS_REPLAY (then_pass d fuel PASS_REVOKE (do_one_pass d fuel PASS_SCAN (enter j fs))) of
          Some (Returned err st) \<Rightarrow>
            let st = next_transaction st; j = p_journal st
            in Some (Returned err (st\<lparr>p_journal := j\<lparr>j_revoke := journal_clear_revoke (j_revoke j)\<rparr>\<rparr>))
        | r \<Rightarrow> r)"

definition journal_skip_recovery :: "devices \<Rightarrow> nat \<Rightarrow> journal \<Rightarrow> (u64 \<Rightarrow> bytes) \<Rightarrow> result option" where
  "journal_skip_recovery d fuel j fs =
     (case do_one_pass d fuel PASS_SCAN (enter j fs) of
        Some (Returned err st) \<Rightarrow>
          let st = (if err \<noteq> 0
                    then st\<lparr>p_journal := (p_journal st)\<lparr>j_transaction_sequence := j_transaction_sequence (p_journal st) + 1\<rparr>\<rparr>
                    else next_transaction st)
          in Some (Returned err (st\<lparr>p_journal := (p_journal st)\<lparr>j_tail := 0\<rparr>\<rparr>))
      | r \<Rightarrow> r)"

section \<open>Logs\<close>

text \<open>The tags of a descriptor block as a list of flags and block numbers.\<close>

function parse_tags :: "journal \<Rightarrow> bytes \<Rightarrow> nat \<Rightarrow> (u32 \<times> u64) list" where
  "parse_tags j b tagp =
     (if tagp + journal_tag_bytes j \<le> j_blocksize j then
        let flags = be32 b (tagp + 4)
        in (flags, read_tag_block (journal_tag_bytes j) b tagp) #
           (if bit flags 3 then [] else parse_tags j b (tagp + journal_tag_bytes j + (if bit flags 1 then 0 else 16)))
      else [])"
  by pat_completeness auto
termination
  by (relation "measure (\<lambda>(j, b, tagp). j_blocksize j - tagp)") (auto simp: journal_tag_bytes_def)

declare parse_tags.simps [simp del]

lemma and_flag: "(x AND JFS_FLAG_LAST_TAG = 0) \<longleftrightarrow> \<not> bit x 3" "(x AND JFS_FLAG_SAME_UUID = 0) \<longleftrightarrow> \<not> bit x 1"
  for x :: u32
  using and_exp_eq_0_iff_not_bit [of x 3] and_exp_eq_0_iff_not_bit [of x 1] by simp_all

lemma count_loop_parse: "count_loop j b tagp = length (parse_tags j b tagp)"
  by (induction j b tagp rule: count_loop.induct)
    (subst count_loop.simps, subst parse_tags.simps, simp add: Let_def and_flag)

definition advance :: "journal \<Rightarrow> nat \<Rightarrow> nat \<Rightarrow> nat" where
  "advance j n pos = ((\<lambda>p. wrap j (p + 1)) ^^ n) pos"

fun data_blocks :: "devices \<Rightarrow> journal \<Rightarrow> nat \<Rightarrow> (u32 \<times> u64) list \<Rightarrow> (u64 \<times> bytes) list option" where
  "data_blocks d j pos [] = Some []"
| "data_blocks d j pos ((flags, block) # tags) =
     (case jread d j pos of
        Inl err \<Rightarrow> None
      | Inr obh \<Rightarrow> map_option (Cons (block, restore_block flags obh)) (data_blocks d j (wrap j (pos + 1)) tags))"

function revoke_entries :: "bytes \<Rightarrow> nat \<Rightarrow> nat \<Rightarrow> int \<Rightarrow> u64 list option" where
  "revoke_entries b record_len offset maxo =
     (if 0 < record_len \<and> int offset < maxo then
        if length b < offset + record_len then None
        else map_option (Cons (record_at b record_len offset)) (revoke_entries b record_len (offset + record_len) maxo)
      else Some [])"
  by pat_completeness auto
termination
  by (relation "measure (\<lambda>(b, record_len, offset, maxo). nat (maxo - int offset))") auto

declare revoke_entries.simps [simp del]

definition header :: "u32 \<Rightarrow> tid \<Rightarrow> bytes \<Rightarrow> bool" where
  "header blocktype seq b \<longleftrightarrow> be32 b 0 = JFS_MAGIC_NUMBER \<and> be32 b 4 = blocktype \<and> be32 b 8 = seq"

text \<open>
  A complete transaction \<open>seq\<close> from block \<open>pos\<close> of the log: revoke and descriptor blocks, the latter
  followed by the blocks they describe, up to a commit block; with the blocks it revokes, what it
  writes, and the block after it.
\<close>

inductive transaction :: "devices \<Rightarrow> journal \<Rightarrow> tid \<Rightarrow> nat \<Rightarrow> u64 list \<Rightarrow> (u64 \<times> bytes) list \<Rightarrow> nat \<Rightarrow> bool"
  for d :: devices and j :: journal and seq :: tid where
  tx_commit: "jread d j pos = Inr b \<Longrightarrow> header JFS_COMMIT_BLOCK seq b \<Longrightarrow>
    transaction d j seq pos [] [] (wrap j (pos + 1))"
| tx_revoke: "jread d j pos = Inr b \<Longrightarrow> header JFS_REVOKE_BLOCK seq b \<Longrightarrow>
    revoke_entries b (if has_64bit j then 8 else 4) 16 (sint (be32 b 12)) = Some rs \<Longrightarrow>
    transaction d j seq (wrap j (pos + 1)) rs' ws pos' \<Longrightarrow>
    transaction d j seq pos (rs @ rs') ws pos'"
| tx_descriptor: "jread d j pos = Inr b \<Longrightarrow> header JFS_DESCRIPTOR_BLOCK seq b \<Longrightarrow>
    data_blocks d j (wrap j (pos + 1)) (parse_tags j b 12) = Some ws \<Longrightarrow>
    length (parse_tags j b 12) \<le> j_last j - j_first j \<Longrightarrow>
    transaction d j seq (advance j (length (parse_tags j b 12)) (wrap j (pos + 1))) rs ws' pos' \<Longrightarrow>
    transaction d j seq pos rs (ws @ ws') pos'"

text \<open>
  Where the log ends: blocks of a transaction \<open>seq\<close> whose commit was not written, and a block that
  does not belong to it.
\<close>

inductive unfinished :: "devices \<Rightarrow> journal \<Rightarrow> tid \<Rightarrow> nat \<Rightarrow> bool"
  for d :: devices and j :: journal and seq :: tid where
  un_end: "jread d j pos = Inr b \<Longrightarrow> be32 b 0 \<noteq> JFS_MAGIC_NUMBER \<or> be32 b 8 \<noteq> seq \<or> be32 b 4 \<notin> {1, 2, 5} \<Longrightarrow>
    unfinished d j seq pos"
| un_revoke: "jread d j pos = Inr b \<Longrightarrow> header JFS_REVOKE_BLOCK seq b \<Longrightarrow>
    unfinished d j seq (wrap j (pos + 1)) \<Longrightarrow> unfinished d j seq pos"
| un_descriptor: "jread d j pos = Inr b \<Longrightarrow> header JFS_DESCRIPTOR_BLOCK seq b \<Longrightarrow>
    length (parse_tags j b 12) \<le> j_last j - j_first j \<Longrightarrow>
    unfinished d j seq (advance j (length (parse_tags j b 12)) (wrap j (pos + 1))) \<Longrightarrow> unfinished d j seq pos"

type_synonym txs = "(u64 list \<times> (u64 \<times> bytes) list) list"

inductive transactions :: "devices \<Rightarrow> journal \<Rightarrow> tid \<Rightarrow> nat \<Rightarrow> txs \<Rightarrow> nat \<Rightarrow> bool"
  for d :: devices and j :: journal where
  txs_none: "transactions d j seq pos [] pos"
| txs_one: "transaction d j seq pos rs ws pos' \<Longrightarrow> transactions d j (seq + 1) pos' txs pos'' \<Longrightarrow>
    transactions d j seq pos ((rs, ws) # txs) pos''"

definition log :: "devices \<Rightarrow> journal \<Rightarrow> tid \<Rightarrow> nat \<Rightarrow> txs \<Rightarrow> bool" where
  "log d j seq pos txs \<longleftrightarrow>
     (\<exists>pos'. transactions d j seq pos txs pos' \<and> unfinished d j (seq + of_nat (length txs)) pos')"

text \<open>
  What recovery is for: every write of every complete transaction, in order, except for the blocks
  that the same or a later transaction revokes.
\<close>

definition revoked_in :: "txs \<Rightarrow> u64 \<Rightarrow> bool" where
  "revoked_in txs block \<longleftrightarrow> list_ex (\<lambda>(rs, ws). block \<in> set rs) txs"

fun replay :: "txs \<Rightarrow> (u64 \<Rightarrow> bytes) \<Rightarrow> u64 \<Rightarrow> bytes" where
  "replay [] fs = fs"
| "replay ((rs, ws) # txs) fs =
     replay txs (foldl (\<lambda>fs (b, x). if revoked_in ((rs, ws) # txs) b then fs else fs(b := x)) fs ws)"

section \<open>Positions in the ring\<close>

definition ring :: "journal \<Rightarrow> bool" where
  "ring j \<longleftrightarrow> j_first j < j_last j"

lemma advance_0 [simp]: "advance j 0 pos = pos"
  by (simp add: advance_def)

lemma advance_Suc: "advance j (Suc n) pos = advance j n (wrap j (pos + 1))"
  by (simp only: advance_def funpow_Suc_right o_apply)

lemma wrap_less: "ring j \<Longrightarrow> pos < j_last j \<Longrightarrow> wrap j (Suc pos) < j_last j"
  by (auto simp: wrap_def ring_def)

lemma advance_less: "ring j \<Longrightarrow> pos < j_last j \<Longrightarrow> advance j n pos < j_last j"
  by (induction n arbitrary: pos) (auto simp: advance_Suc wrap_less)

lemma wrap_add:
  assumes "ring j" "pos < j_last j" "n \<le> j_last j - j_first j"
  shows "wrap j (pos + n) = advance j n pos"
  using assms(3)
proof (induction n)
  case 0
  then show ?case using assms(2) by (simp add: wrap_def)
next
  case (Suc n)
  have "advance j (Suc n) pos = wrap j (advance j n pos + 1)" by (simp add: advance_def)
  also have "advance j n pos = wrap j (pos + n)" using Suc by simp
  also have "wrap j (wrap j (pos + n) + 1) = wrap j (pos + Suc n)"
    using assms(1,2) Suc.prems by (auto simp: wrap_def ring_def nat_diff_distrib)
  finally show ?case by simp
qed

section \<open>What the passes keep of the journal\<close>

lemma geometry_revoke [simp]:
  "wrap (j\<lparr>j_revoke := t\<rparr>) = wrap j" "journal_tag_bytes (j\<lparr>j_revoke := t\<rparr>) = journal_tag_bytes j"
  "jread d (j\<lparr>j_revoke := t\<rparr>) = jread d j" "ring (j\<lparr>j_revoke := t\<rparr>) = ring j"
  by (auto simp: wrap_def journal_tag_bytes_def jread_def ring_def fun_eq_iff)

lemma geometry_failed_commit [simp]:
  "wrap (j\<lparr>j_failed_commit := f\<rparr>) = wrap j" "journal_tag_bytes (j\<lparr>j_failed_commit := f\<rparr>) = journal_tag_bytes j"
  "jread d (j\<lparr>j_failed_commit := f\<rparr>) = jread d j" "ring (j\<lparr>j_failed_commit := f\<rparr>) = ring j"
  by (auto simp: wrap_def journal_tag_bytes_def jread_def ring_def fun_eq_iff)

lemma parse_tags_failed_commit [simp]: "parse_tags (j\<lparr>j_failed_commit := f\<rparr>) b tagp = parse_tags j b tagp"
  by (induction j b tagp rule: parse_tags.induct)
    (subst (1 2) parse_tags.simps, simp add: Let_def)

lemma advance_keeps [simp]: "advance (j\<lparr>j_revoke := t\<rparr>) = advance j" "advance (j\<lparr>j_failed_commit := f\<rparr>) = advance j"
  by (simp_all add: advance_def fun_eq_iff)

lemma parse_tags_revoke [simp]: "parse_tags (j\<lparr>j_revoke := t\<rparr>) b tagp = parse_tags j b tagp"
  by (induction j b tagp rule: parse_tags.induct)
    (subst (1 2) parse_tags.simps, simp add: Let_def)

lemma count_tags_parse: "count_tags j b = length (parse_tags j b 12)"
  by (simp add: count_tags_def count_loop_parse)

section \<open>Passes with enough fuel\<close>

definition runs :: "devices \<Rightarrow> passtype \<Rightarrow> pstate \<Rightarrow> result \<Rightarrow> bool" where
  "runs d pass st r \<longleftrightarrow> (\<exists>n. \<forall>fuel \<ge> n. pass_loop d pass fuel st = Some r)"

lemma runs_step:
  assumes "pass_step d pass st = Next st'" "runs d pass st' r"
  shows "runs d pass st r"
proof -
  obtain n where n: "\<forall>fuel \<ge> n. pass_loop d pass fuel st' = Some r" using assms(2) by (auto simp: runs_def)
  have "pass_loop d pass fuel st = Some r" if "Suc n \<le> fuel" for fuel
    using that n assms(1) by (cases fuel) auto
  then show ?thesis unfolding runs_def by blast
qed

lemma runs_done:
  assumes "pass_step d pass st = Done st'"
  shows "runs d pass st (finish pass st')"
proof -
  have "pass_loop d pass fuel st = Some (finish pass st')" if "1 \<le> fuel" for fuel
    using that assms by (cases fuel) auto
  then show ?thesis unfolding runs_def by blast
qed

text \<open>A state at block \<open>pos\<close> of the log that expects transaction \<open>seq\<close>.\<close>

definition at :: "nat \<Rightarrow> tid \<Rightarrow> pstate \<Rightarrow> pstate" where
  "at pos seq st = st\<lparr>next_log_block := pos, next_commit_ID := seq\<rparr>"

lemma at_simps [simp]:
  "next_log_block (at pos seq st) = pos" "next_commit_ID (at pos seq st) = seq"
  "p_journal (at pos seq st) = p_journal st" "p_info (at pos seq st) = p_info st"
  "p_fs (at pos seq st) = p_fs st" "success (at pos seq st) = success st"
  "(at pos seq st)\<lparr>next_log_block := pos'\<rparr> = at pos' seq st"
  "(at pos seq st)\<lparr>next_commit_ID := seq'\<rparr> = at pos seq' st"
  by (simp_all add: at_def)

definition going :: "passtype \<Rightarrow> tid \<Rightarrow> pstate \<Rightarrow> bool" where
  "going pass seq st \<longleftrightarrow> pass = PASS_SCAN \<or> \<not> tid_geq seq (end_transaction (p_info st))"

lemma step_header:
  assumes "jread d (p_journal st) pos = Inr b" "going pass seq st"
  shows "header JFS_COMMIT_BLOCK seq b \<Longrightarrow>
      pass_step d pass (at pos seq st) = commit_block pass b (at (wrap (p_journal st) (pos + 1)) seq st)"
    and "header JFS_REVOKE_BLOCK seq b \<Longrightarrow>
      pass_step d pass (at pos seq st) = revoke_block d pass b (at (wrap (p_journal st) (pos + 1)) seq st)"
    and "header JFS_DESCRIPTOR_BLOCK seq b \<Longrightarrow>
      pass_step d pass (at pos seq st) = descriptor_block d pass b (at (wrap (p_journal st) (pos + 1)) seq st)"
  using assms by (auto simp: pass_step_def header_def going_def Let_def)

lemma step_commit:
  assumes "jread d (p_journal st) pos = Inr b" "going pass seq st" "header JFS_COMMIT_BLOCK seq b"
    and "pass = PASS_SCAN \<longrightarrow> \<not> has_checksum (p_journal st)"
  shows "pass_step d pass (at pos seq st) = Next (at (wrap (p_journal st) (pos + 1)) (seq + 1) st)"
  using assms by (auto simp: step_header commit_block_def Let_def)

lemma step_revoke_skip:
  assumes "jread d (p_journal st) pos = Inr b" "going pass seq st" "header JFS_REVOKE_BLOCK seq b" "pass \<noteq> PASS_REVOKE"
  shows "pass_step d pass (at pos seq st) = Next (at (wrap (p_journal st) (pos + 1)) seq st)"
  using assms by (simp add: step_header revoke_block_def)

lemma step_descriptor_skip:
  assumes "jread d (p_journal st) pos = Inr b" "going pass seq st" "header JFS_DESCRIPTOR_BLOCK seq b" "pass \<noteq> PASS_REPLAY"
    and "pass = PASS_SCAN \<longrightarrow> \<not> has_checksum (p_journal st)" "ring (p_journal st)" "pos < j_last (p_journal st)"
    and "length (parse_tags (p_journal st) b 12) \<le> j_last (p_journal st) - j_first (p_journal st)"
  shows "pass_step d pass (at pos seq st) =
    Next (at (advance (p_journal st) (length (parse_tags (p_journal st) b 12)) (wrap (p_journal st) (pos + 1))) seq st)"
  using assms by (auto simp: step_header descriptor_block_def count_tags_parse Let_def wrap_less wrap_add)

section \<open>The first pass\<close>

lemma transaction_less:
  "transaction d j seq pos rs ws pos' \<Longrightarrow> ring j \<Longrightarrow> pos < j_last j \<Longrightarrow> pos' < j_last j"
  by (induction rule: transaction.induct) (auto simp: wrap_less advance_less)

lemma scan_transaction:
  assumes "transaction d j seq pos rs ws pos'" "j = p_journal st" "\<not> has_checksum j" "ring j" "pos < j_last j"
  shows "\<forall>r. runs d PASS_SCAN (at pos' (seq + 1) st) r \<longrightarrow> runs d PASS_SCAN (at pos seq st) r"
  using assms
proof (induction rule: transaction.induct)
  case (tx_commit pos b)
  then show ?case using step_commit [of d st pos b PASS_SCAN seq] by (auto simp: going_def wrap_less intro: runs_step)
next
  case (tx_revoke pos b rs rs' ws pos')
  then show ?case
    using step_revoke_skip [of d st pos b PASS_SCAN seq] by (auto simp: going_def wrap_less intro: runs_step)
next
  case (tx_descriptor pos b ws rs ws' pos')
  then show ?case
    using step_descriptor_skip [of d st pos b PASS_SCAN seq]
    by (auto simp: going_def wrap_less advance_less intro: runs_step)
qed

lemma scan_unfinished:
  assumes "unfinished d j seq pos" "j = p_journal st" "\<not> has_checksum j" "ring j" "pos < j_last j"
  shows "\<exists>pos'. runs d PASS_SCAN (at pos seq st) (finish PASS_SCAN (at pos' seq st))"
  using assms
proof (induction rule: unfinished.induct)
  case (un_end pos b)
  then have "pass_step d PASS_SCAN (at pos seq st) = Done (at (wrap j (pos + 1)) seq st)"
    by (auto simp: pass_step_def Let_def)
  then show ?case using runs_done by blast
next
  case (un_revoke pos b)
  then show ?case
    using step_revoke_skip [of d st pos b PASS_SCAN seq] by (auto simp: going_def wrap_less intro: runs_step)
next
  case (un_descriptor pos b)
  then show ?case
    using step_descriptor_skip [of d st pos b PASS_SCAN seq]
    by (fastforce simp: going_def wrap_less advance_less intro: runs_step)
qed

lemma scan_transactions:
  assumes "transactions d j seq pos txs pos'" "j = p_journal st" "\<not> has_checksum j" "ring j" "pos < j_last j"
  shows "pos' < j_last j \<and> (\<forall>r. runs d PASS_SCAN (at pos' (seq + of_nat (length txs)) st) r \<longrightarrow>
    runs d PASS_SCAN (at pos seq st) r)"
  using assms
proof (induction rule: transactions.induct)
  case (txs_one seq pos rs ws pos' txs pos'')
  then show ?case
    using scan_transaction [OF txs_one.hyps(1), of st] transaction_less [OF txs_one.hyps(1)] by (auto simp: add.assoc)
qed simp

lemma scan_log:
  assumes "log d j seq pos txs" "j = p_journal st" "\<not> has_checksum j" "ring j" "pos < j_last j"
  shows "\<exists>pos'. runs d PASS_SCAN (at pos seq st) (finish PASS_SCAN (at pos' (seq + of_nat (length txs)) st))"
  using assms(1) scan_transactions [OF _ assms(2-5)] scan_unfinished [OF _ assms(2-4)] unfolding log_def by blast

section \<open>The second pass\<close>

text \<open>The records of a revoke block entered in the table, and counted.\<close>

definition revoked :: "devices \<Rightarrow> (u64 \<times> tid) list \<Rightarrow> pstate \<Rightarrow> pstate" where
  "revoked d rs st =
     st\<lparr>p_journal := (p_journal st)\<lparr>j_revoke := rv.set_all (dev_ub d) rs (j_revoke (p_journal st))\<rparr>,
        p_info := (p_info st)\<lparr>nr_revokes := nr_revokes (p_info st) + length rs\<rparr>\<rparr>"

lemma revoked_append: "revoked d (rs @ rs') st = revoked d rs' (revoked d rs st)"
  by (simp add: revoked_def rv.set_all_def add.assoc)

lemma revoked_nil: "revoked d [] st = st"
  by (simp add: revoked_def rv.set_all_def)

lemma set_revoke_ok: "fst (journal_set_revoke ub True t b s) = 0"
  by (simp add: journal_set_revoke_def insert_revoke_hash_def Let_def split: option.split)

lemma scan_revoke_records_loop:
  assumes "revoke_entries b record_len offset maxo = Some rs" "\<forall>n. dev_mem d n"
  shows "scan_revoke_loop d b record_len offset maxo seq st = Next (revoked d (map (\<lambda>r. (r, seq)) rs) st)"
  using assms(1)
proof (induction b record_len offset maxo arbitrary: rs st rule: revoke_entries.induct)
  case (1 b record_len offset maxo)
  show ?case
  proof (cases "0 < record_len \<and> int offset < maxo")
    case False
    then show ?thesis
      using "1.prems" scan_revoke_loop.simps [of d b record_len offset maxo seq st]
      unfolding revoke_entries.simps [of b record_len offset maxo] by (auto simp: revoked_nil)
  next
    case True
    define r where "r = record_at b record_len offset"
    from "1.prems" True obtain rs' where ok: "\<not> length b < offset + record_len"
      and rs: "rs = r # rs'" "revoke_entries b record_len (offset + record_len) maxo = Some rs'"
      unfolding revoke_entries.simps [of b record_len offset maxo] by (auto simp: r_def split: if_splits)
    obtain t where t: "journal_set_revoke (dev_ub d) True (j_revoke (p_journal st)) r seq = (0, t)"
      using set_revoke_ok [of "dev_ub d" "j_revoke (p_journal st)" r seq] by (metis prod.collapse)
    then have one: "revoked d [(r, seq)] st = st\<lparr>p_journal := (p_journal st)\<lparr>j_revoke := t\<rparr>,
        p_info := (p_info st)\<lparr>nr_revokes := nr_revokes (p_info st) + 1\<rparr>\<rparr>"
      by (simp add: revoked_def rv.set_all_def)
    have "scan_revoke_loop d b record_len offset maxo seq st =
        scan_revoke_loop d b record_len (offset + record_len) maxo seq (revoked d [(r, seq)] st)"
      using True ok t assms(2) one
      by (subst scan_revoke_loop.simps) (simp add: Let_def r_def [symmetric] split: prod.split)
    also have "\<dots> = Next (revoked d (map (\<lambda>r. (r, seq)) rs') (revoked d [(r, seq)] st))"
      using "1.IH" [OF True ok rs(2)] .
    finally show ?thesis using revoked_append [of d "[(r, seq)]" "map (\<lambda>r. (r, seq)) rs'" st] rs(1) by simp
  qed
qed

lemma step_revoke:
  assumes "jread d (p_journal st) pos = Inr b" "going PASS_REVOKE seq st" "header JFS_REVOKE_BLOCK seq b"
    and "revoke_entries b (if has_64bit (p_journal st) then 8 else 4) 16 (sint (be32 b 12)) = Some rs" "\<forall>n. dev_mem d n"
  shows "pass_step d PASS_REVOKE (at pos seq st) =
    Next (at (wrap (p_journal st) (pos + 1)) seq (revoked d (map (\<lambda>r. (r, seq)) rs) st))"
  using assms scan_revoke_records_loop [OF assms(4,5)]
  by (simp add: step_header revoke_block_def scan_revoke_records_def) (simp add: at_def revoked_def)

text \<open>What recovery does not change of the journal.\<close>

definition same_log :: "journal \<Rightarrow> pstate \<Rightarrow> bool" where
  "same_log j st \<longleftrightarrow> (\<exists>f t. p_journal st = j\<lparr>j_failed_commit := f, j_revoke := t\<rparr>)"

lemma same_logI: "p_journal st = j\<lparr>j_failed_commit := f, j_revoke := t\<rparr> \<Longrightarrow> same_log j st"
  unfolding same_log_def by blast

lemma same_log_revoked:
  assumes "same_log j st"
  shows "same_log j (revoked d rs st)"
proof -
  obtain f t where "p_journal st = j\<lparr>j_failed_commit := f, j_revoke := t\<rparr>" using assms by (auto simp: same_log_def)
  then show ?thesis
    by (intro same_logI [where f = f and t = "rv.set_all (dev_ub d) rs t"]) (simp add: revoked_def)
qed

lemma going_revoked [simp]: "going pass seq (revoked d rs st) = going pass seq st"
  by (simp add: going_def revoked_def)

lemma revoke_transaction:
  assumes "transaction d j seq pos rs ws pos'" "same_log j st" "ring j" "pos < j_last j"
    and "going PASS_REVOKE seq st" "\<forall>n. dev_mem d n"
  shows "\<forall>r. runs d PASS_REVOKE (at pos' (seq + 1) (revoked d (map (\<lambda>r. (r, seq)) rs) st)) r \<longrightarrow>
    runs d PASS_REVOKE (at pos seq st) r"
  using assms
proof (induction arbitrary: st rule: transaction.induct)
  case (tx_commit pos b)
  then show ?case
    using step_commit [of d st pos b PASS_REVOKE seq] by (auto simp: same_log_def revoked_nil intro: runs_step)
next
  case (tx_revoke pos b rs rs' ws pos')
  then have "pass_step d PASS_REVOKE (at pos seq st) =
      Next (at (wrap j (pos + 1)) seq (revoked d (map (\<lambda>r. (r, seq)) rs) st))"
    using step_revoke [of d st pos b seq rs] by (auto simp: same_log_def)
  then show ?case
    using tx_revoke.IH [of "revoked d (map (\<lambda>r. (r, seq)) rs) st"] tx_revoke.prems
    by (auto simp: revoked_append same_log_revoked wrap_less intro: runs_step)
next
  case (tx_descriptor pos b ws rs ws' pos')
  obtain f t where t: "p_journal st = j\<lparr>j_failed_commit := f, j_revoke := t\<rparr>"
    using tx_descriptor.prems by (auto simp: same_log_def)
  have "pass_step d PASS_REVOKE (at pos seq st) =
      Next (at (advance j (length (parse_tags j b 12)) (wrap j (pos + 1))) seq st)"
    using step_descriptor_skip [of d st pos b PASS_REVOKE seq] tx_descriptor t by simp
  then show ?case
    using tx_descriptor by (auto simp: wrap_less advance_less intro: runs_step)
qed

lemma tid_step: "Suc n < 2 ^ 31 \<Longrightarrow> \<not> tid_geq seq (seq + of_nat (Suc n))"
  using tid_geq_off [of seq seq "seq + of_nat (Suc n)"] tid_off_add [of "Suc n" seq] tid_off_add [of 0 seq] by simp

lemma tid_geq_refl [simp]: "tid_geq seq seq"
  by (simp add: tid_geq_def)

text \<open>All revokes of a log, with the transactions they are in.\<close>

fun revokes :: "tid \<Rightarrow> txs \<Rightarrow> (u64 \<times> tid) list" where
  "revokes seq [] = []"
| "revokes seq ((rs, ws) # txs) = map (\<lambda>r. (r, seq)) rs @ revokes (seq + 1) txs"

lemma runs_end:
  assumes "pass \<noteq> PASS_SCAN" "end_transaction (p_info st) = seq"
  shows "runs d pass (at pos seq st) (Returned (success st) (at pos seq st))"
proof -
  have "pass_step d pass (at pos seq st) = Done (at pos seq st)" using assms by (simp add: pass_step_def Let_def)
  from runs_done [OF this] show ?thesis using assms by (simp add: finish_def)
qed

lemma revoke_transactions:
  assumes "transactions d j seq pos txs pos'" "same_log j st" "ring j" "pos < j_last j" "\<forall>n. dev_mem d n"
    and "end_transaction (p_info st) = seq + of_nat (length txs)" "length txs < 2 ^ 31"
  shows "\<exists>pos'. runs d PASS_REVOKE (at pos seq st)
    (Returned (success st) (at pos' (seq + of_nat (length txs)) (revoked d (revokes seq txs) st)))"
  using assms
proof (induction arbitrary: st rule: transactions.induct)
  case (txs_none seq pos)
  then show ?case using runs_end [of PASS_REVOKE st seq d pos] by (auto simp: revoked_nil)
next
  case (txs_one seq pos rs ws pos' txs pos'')
  let ?st = "revoked d (map (\<lambda>r. (r, seq)) rs) st"
  have "going PASS_REVOKE seq st" using txs_one.prems tid_step [of "length txs" seq] by (simp add: going_def)
  then have "runs d PASS_REVOKE (at pos' (seq + 1) ?st) r \<Longrightarrow> runs d PASS_REVOKE (at pos seq st) r" for r
    using revoke_transaction [OF txs_one.hyps(1)] txs_one.prems by blast
  moreover have "pos' < j_last j"
    using transaction_less [OF txs_one.hyps(1)] txs_one.prems by simp
  moreover have "end_transaction (p_info ?st) = seq + 1 + of_nat (length txs)" "success ?st = success st"
    using txs_one.prems by (simp_all add: revoked_def add.assoc)
  ultimately show ?case
    using txs_one.IH [of ?st] txs_one.prems
    by (fastforce simp: revoked_append same_log_revoked add.assoc)
qed

section \<open>The third pass\<close>

text \<open>One log block replayed in transaction \<open>seq\<close>.\<close>

definition replayed :: "devices \<Rightarrow> tid \<Rightarrow> u64 \<times> bytes \<Rightarrow> pstate \<Rightarrow> pstate" where
  "replayed d seq w st =
     (if journal_test_revoke (dev_ub d) (j_revoke (p_journal st)) (fst w) seq
      then st\<lparr>p_info := (p_info st)\<lparr>nr_revoke_hits := nr_revoke_hits (p_info st) + 1\<rparr>\<rparr>
      else st\<lparr>p_fs := (p_fs st)(fst w := snd w), p_info := (p_info st)\<lparr>nr_replays := nr_replays (p_info st) + 1\<rparr>\<rparr>)"

lemma replayed_keeps [simp]:
  "p_journal (replayed d seq w st) = p_journal st" "success (replayed d seq w st) = success st"
  "end_transaction (p_info (replayed d seq w st)) = end_transaction (p_info st)"
  "replayed d seq w (at pos seq' st) = at pos seq' (replayed d seq w st)"
  by (simp_all add: replayed_def at_def)

lemma replayed_fs:
  "p_fs (replayed d seq w st) = (if journal_test_revoke (dev_ub d) (j_revoke (p_journal st)) (fst w) seq
     then p_fs st else (p_fs st)(fst w := snd w))"
  by (simp add: replayed_def)

lemma fold_replayed_keeps [simp]:
  "p_journal (fold (replayed d seq) ws st) = p_journal st" "success (fold (replayed d seq) ws st) = success st"
  "end_transaction (p_info (fold (replayed d seq) ws st)) = end_transaction (p_info st)"
  "fold (replayed d seq) ws (at pos seq' st) = at pos seq' (fold (replayed d seq) ws st)"
  by (induction ws arbitrary: st) simp_all

lemma replay_loop_data:
  assumes "data_blocks d (p_journal st) pos (parse_tags (p_journal st) b tagp) = Some ws" "\<forall>n. dev_getblk d n"
  shows "replay_loop d b tagp (at pos seq st) =
    Next (at (advance (p_journal st) (length ws) pos) seq (fold (replayed d seq) ws st))"
  using assms(1)
proof (induction "p_journal st" b tagp arbitrary: pos ws st rule: parse_tags.induct)
  case (1 b tagp)
  let ?j = "p_journal st" and ?f = "be32 b (tagp + 4)"
  let ?next = "tagp + journal_tag_bytes ?j + (if bit ?f 1 then 0 else 16)"
  note unfold = replay_loop.simps [of d b tagp] parse_tags.simps [of ?j b tagp]
  show ?case
  proof (cases "tagp + journal_tag_bytes ?j \<le> j_blocksize ?j")
    case False
    then show ?thesis using "1.prems" unfold by (simp add: Let_def)
  next
    case True
    let ?w = "read_tag_block (journal_tag_bytes ?j) b tagp"
    let ?rest = "if bit ?f 3 then [] else parse_tags ?j b ?next"
    obtain obh ws' where obh: "jread d ?j pos = Inr obh" and ws: "ws = (?w, restore_block ?f obh) # ws'"
      and rest: "data_blocks d ?j (wrap ?j (pos + 1)) ?rest = Some ws'"
      using "1.prems" True unfolding unfold(2) by (auto simp: Let_def split: sum.splits)
    let ?st = "replayed d seq (?w, restore_block ?f obh) st"
    have one: "replay_tag d b tagp (at pos seq st) = Next (at (wrap ?j (pos + 1)) seq ?st)"
      using obh assms(2) by (simp add: replay_tag_def Let_def replayed_def at_def)
    show ?thesis
    proof (cases "bit ?f 3")
      case last: True
      then show ?thesis using True one rest ws unfold(1) by (simp add: Let_def and_flag advance_Suc)
    next
      case more: False
      have "replay_loop d b ?next (at (wrap ?j (pos + 1)) seq ?st) =
          Next (at (advance ?j (length ws') (wrap ?j (pos + 1))) seq (fold (replayed d seq) ws' ?st))"
        using "1.hyps" [of ?f ?st "wrap ?j (pos + 1)" ws'] True more rest by simp
      then show ?thesis using True one more ws unfold(1)
        by (cases "bit ?f 1") (simp_all add: Let_def and_flag advance_Suc)
    qed
  qed
qed

lemma data_blocks_length: "data_blocks d j pos tags = Some ws \<Longrightarrow> length ws = length tags"
  by (induction d j pos tags arbitrary: ws rule: data_blocks.induct) (auto split: sum.splits)

lemma data_blocks_revoke [simp]:
  "data_blocks d (j\<lparr>j_revoke := t\<rparr>) pos tags = data_blocks d j pos tags"
  "data_blocks d (j\<lparr>j_failed_commit := f\<rparr>) pos tags = data_blocks d j pos tags"
  by (induction d j pos tags rule: data_blocks.induct) (simp_all split: sum.split)

lemma replay_transaction:
  assumes "transaction d j seq pos rs ws pos'" "same_log j st"
    and "going PASS_REPLAY seq st" "\<forall>n. dev_getblk d n"
  shows "\<forall>r. runs d PASS_REPLAY (at pos' (seq + 1) (fold (replayed d seq) ws st)) r \<longrightarrow>
    runs d PASS_REPLAY (at pos seq st) r"
  using assms
proof (induction arbitrary: st rule: transaction.induct)
  case (tx_commit pos b)
  then show ?case
    using step_commit [of d st pos b PASS_REPLAY seq] by (auto simp: same_log_def intro: runs_step)
next
  case (tx_revoke pos b rs rs' ws pos')
  then have "pass_step d PASS_REPLAY (at pos seq st) = Next (at (wrap j (pos + 1)) seq st)"
    using step_revoke_skip [of d st pos b PASS_REPLAY seq] by (auto simp: same_log_def)
  then show ?case using tx_revoke.IH [of st] tx_revoke.prems by (auto intro: runs_step)
next
  case (tx_descriptor pos b ws rs ws' pos')
  let ?st = "fold (replayed d seq) ws st"
  obtain f t where t: "p_journal st = j\<lparr>j_failed_commit := f, j_revoke := t\<rparr>"
    using tx_descriptor.prems by (auto simp: same_log_def)
  have "pass_step d PASS_REPLAY (at pos seq st) = descriptor_block d PASS_REPLAY b (at (wrap j (pos + 1)) seq st)"
    using step_header(3) [of d st pos b PASS_REPLAY seq] tx_descriptor.hyps tx_descriptor.prems t by simp
  also have "\<dots> = Next (at (advance j (length (parse_tags j b 12)) (wrap j (pos + 1))) seq ?st)"
    using replay_loop_data [of d st "wrap j (pos + 1)" b 12 ws seq] tx_descriptor.hyps(3) tx_descriptor.prems t
    by (simp add: descriptor_block_def data_blocks_length)
  finally show ?case
    using tx_descriptor.IH [of ?st] tx_descriptor.prems by (auto simp: same_log_def going_def intro: runs_step)
qed

fun replayed_all :: "devices \<Rightarrow> tid \<Rightarrow> txs \<Rightarrow> pstate \<Rightarrow> pstate" where
  "replayed_all d seq [] st = st"
| "replayed_all d seq ((rs, ws) # txs) st = replayed_all d (seq + 1) txs (fold (replayed d seq) ws st)"

lemma replay_transactions:
  assumes "transactions d j seq pos txs pos'" "same_log j st" "\<forall>n. dev_getblk d n"
    and "end_transaction (p_info st) = seq + of_nat (length txs)" "length txs < 2 ^ 31"
  shows "\<exists>pos'. runs d PASS_REPLAY (at pos seq st)
    (Returned (success st) (at pos' (seq + of_nat (length txs)) (replayed_all d seq txs st)))"
  using assms
proof (induction arbitrary: st rule: transactions.induct)
  case (txs_none seq pos)
  then show ?case using runs_end [of PASS_REPLAY st seq d pos] by auto
next
  case (txs_one seq pos rs ws pos' txs pos'')
  let ?st = "fold (replayed d seq) ws st"
  have "going PASS_REPLAY seq st" using txs_one.prems tid_step [of "length txs" seq] by (simp add: going_def)
  then have "runs d PASS_REPLAY (at pos' (seq + 1) ?st) r \<Longrightarrow> runs d PASS_REPLAY (at pos seq st) r" for r
    using replay_transaction [OF txs_one.hyps(1)] txs_one.prems by blast
  moreover have "end_transaction (p_info ?st) = seq + 1 + of_nat (length txs)" "same_log j ?st"
    using txs_one.prems by (simp_all add: add.assoc same_log_def)
  ultimately show ?case
    using txs_one.IH [of ?st] txs_one.prems by (fastforce simp: add.assoc)
qed

section \<open>The replay is the specification\<close>

text \<open>What the table answers after the second pass.\<close>

definition table_of :: "ub_shift \<Rightarrow> revoke_table \<Rightarrow> tid \<Rightarrow> (u64 \<times> tid) list \<Rightarrow> bool" where
  "table_of ub t s0 rs \<longleftrightarrow>
     (\<forall>block seq. tid_off s0 seq < 2 ^ 31 \<longrightarrow>
        journal_test_revoke ub t block seq = (\<exists>s'. (block, s') \<in> set rs \<and> tid_off s0 seq \<le> tid_off s0 s'))"

lemma revokes_offsets:
  assumes "k + length txs < 2 ^ 31"
  shows "(b, s) \<in> set (revokes (s0 + of_nat k) txs) \<longleftrightarrow>
    (\<exists>i < length txs. s = s0 + of_nat (k + i) \<and> b \<in> set (fst (txs ! i)))"
  using assms
proof (induction txs arbitrary: k)
  case (Cons tx txs)
  obtain rs ws where tx: "tx = (rs, ws)" by (cases tx)
  have "revokes (s0 + of_nat k) (tx # txs) = map (\<lambda>r. (r, s0 + of_nat k)) rs @ revokes (s0 + of_nat (Suc k)) txs"
    by (simp add: tx ac_simps)
  moreover have "(b, s) \<in> set (revokes (s0 + of_nat (Suc k)) txs) \<longleftrightarrow>
      (\<exists>i < length txs. s = s0 + of_nat (k + Suc i) \<and> b \<in> set (fst (txs ! i)))"
    using Cons.IH [of "Suc k"] Cons.prems by (simp only: add_Suc add_Suc_right list.size)
  ultimately show ?case by (auto simp: tx Ex_less_Suc2)
qed simp

lemma replayed_all_fs:
  assumes "table_of (dev_ub d) (j_revoke (p_journal st)) s0 (revokes s0 (before @ txs))"
    and "length before + length txs < 2 ^ 31"
  shows "p_fs (replayed_all d (s0 + of_nat (length before)) txs st) = replay txs (p_fs st)"
  using assms
proof (induction txs arbitrary: before st)
  case (Cons tx txs)
  obtain rs ws where tx: "tx = (rs, ws)" by (cases tx)
  let ?n = "length before" and ?t = "j_revoke (p_journal st)"
  have test: "journal_test_revoke (dev_ub d) ?t b (s0 + of_nat ?n) = revoked_in (tx # txs) b" for b
  proof -
    have all: "(b, s) \<in> set (revokes s0 (before @ tx # txs)) \<longleftrightarrow>
        (\<exists>i < ?n + Suc (length txs). s = s0 + of_nat i \<and> b \<in> set (fst ((before @ tx # txs) ! i)))" for s
      using revokes_offsets [of 0 "before @ tx # txs" b s s0] Cons.prems(2) by simp
    have off: "tid_off s0 (s0 + of_nat i) = i" if "i < ?n + Suc (length txs)" for i
      using that Cons.prems(2) by (intro tid_off_add) simp
    have "journal_test_revoke (dev_ub d) ?t b (s0 + of_nat ?n) \<longleftrightarrow>
        (\<exists>i. ?n \<le> i \<and> i < ?n + Suc (length txs) \<and> b \<in> set (fst ((before @ tx # txs) ! i)))"
    proof -
      have "journal_test_revoke (dev_ub d) ?t b (s0 + of_nat ?n) \<longleftrightarrow>
          (\<exists>s'. (b, s') \<in> set (revokes s0 (before @ tx # txs)) \<and> ?n \<le> tid_off s0 s')"
        using Cons.prems off [of ?n] by (simp add: table_of_def)
      then show ?thesis unfolding all using off by auto
    qed
    also have "\<dots> \<longleftrightarrow> (\<exists>i < Suc (length txs). b \<in> set (fst ((tx # txs) ! i)))"
    proof safe
      fix i assume "?n \<le> i" "i < ?n + Suc (length txs)" "b \<in> set (fst ((before @ tx # txs) ! i))"
      then show "\<exists>i < Suc (length txs). b \<in> set (fst ((tx # txs) ! i))"
        by (intro exI [of _ "i - ?n"]) (auto simp: nth_append)
    next
      fix i assume "i < Suc (length txs)" "b \<in> set (fst ((tx # txs) ! i))"
      then show "\<exists>i. ?n \<le> i \<and> i < ?n + Suc (length txs) \<and> b \<in> set (fst ((before @ tx # txs) ! i))"
        by (intro exI [of _ "?n + i"]) (auto simp: nth_append)
    qed
    also have "\<dots> \<longleftrightarrow> revoked_in (tx # txs) b"
      by (auto simp: revoked_in_def list_ex_length split_beta)
    finally show ?thesis .
  qed
  have fs: "p_fs (fold (replayed d (s0 + of_nat ?n)) ws' st) =
      foldl (\<lambda>fs (b, x). if revoked_in (tx # txs) b then fs else fs(b := x)) (p_fs st) ws'" for ws'
    by (induction ws' rule: rev_induct) (auto simp: replayed_fs test)
  let ?st = "fold (replayed d (s0 + of_nat ?n)) ws st"
  have "s0 + of_nat ?n + 1 = s0 + of_nat (length (before @ [tx]))" by simp
  moreover have "p_fs (replayed_all d (s0 + of_nat (length (before @ [tx]))) txs ?st) = replay txs (p_fs ?st)"
    using Cons.IH [of ?st "before @ [tx]"] Cons.prems by simp
  ultimately show ?case using fs [of ws] by (simp only: tx replayed_all.simps replay.simps)
qed simp

lemma replayed_all_keeps [simp]:
  "end_transaction (p_info (replayed_all d seq txs st)) = end_transaction (p_info st)"
  "p_journal (replayed_all d seq txs st) = p_journal st"
  by (induction txs arbitrary: seq st) auto

lemma revokes_table:
  assumes "journal_init_revoke True n = Some t" "0 < n" "n < 2 ^ 31" "length txs < 2 ^ 31"
  shows "table_of ub (rv.set_all ub (revokes s0 txs) t) s0 (revokes s0 txs)"
proof -
  have "tid_off s0 s < 2 ^ 31" if "(b, s) \<in> set (revokes s0 txs)" for b s
    using that revokes_offsets [of 0 txs b s s0] assms(4) tid_off_add [of _ s0] by auto
  then show ?thesis
    unfolding table_of_def using journal_init_revoke_inv(2) [OF assms(1-3)]
    by (intro allI impI rv.test_set_all [OF journal_init_revoke_inv(1) [OF assms(1-3)]]) auto
qed

lemma start_pass_at:
  "start_pass pass st = at (unat (s_start (p_journal st))) (s_sequence (p_journal st))
     (st\<lparr>success := 0, crc32_sum := - 1,
         p_info := (if pass = PASS_SCAN then (p_info st)\<lparr>start_transaction := s_sequence (p_journal st)\<rparr> else p_info st)\<rparr>)"
  by (simp add: start_pass_def at_def Let_def)

lemma start_pass_later:
  "pass \<noteq> PASS_SCAN \<Longrightarrow> start_pass pass st =
     at (unat (s_start (p_journal st))) (s_sequence (p_journal st)) (st\<lparr>success := 0, crc32_sum := - 1\<rparr>)"
  by (cases st) (simp add: start_pass_def at_def)

lemma recover_runs:
  assumes scan: "runs d PASS_SCAN (start_pass PASS_SCAN (enter j fs)) (Returned 0 st1)"
    and revoke: "runs d PASS_REVOKE (start_pass PASS_REVOKE st1) (Returned 0 st2)"
    and replay: "runs d PASS_REPLAY (start_pass PASS_REPLAY st2) (Returned 0 st3)"
    and start: "s_start j \<noteq> 0"
  shows "\<exists>n. \<forall>fuel \<ge> n. \<exists>st. journal_recover d fuel j fs = Some (Returned 0 st) \<and> p_fs st = p_fs st3 \<and>
    j_transaction_sequence (p_journal st) = end_transaction (p_info st3) + 1 \<and>
    j_failed_commit (p_journal st) = j_failed_commit (p_journal st3) \<and>
    journal_destroy_revoke (j_revoke (p_journal st))"
proof -
  obtain a b c where
    "\<forall>fuel \<ge> a. pass_loop d PASS_SCAN fuel (start_pass PASS_SCAN (enter j fs)) = Some (Returned 0 st1)"
    "\<forall>fuel \<ge> b. pass_loop d PASS_REVOKE fuel (start_pass PASS_REVOKE st1) = Some (Returned 0 st2)"
    "\<forall>fuel \<ge> c. pass_loop d PASS_REPLAY fuel (start_pass PASS_REPLAY st2) = Some (Returned 0 st3)"
    using scan revoke replay unfolding runs_def by blast
  then show ?thesis
    using start
    by (intro exI [of _ "a + b + c"])
      (simp add: journal_recover_def do_one_pass_def then_pass_def next_transaction_def set_end_def Let_def
        journal_destroy_revoke_def journal_clear_revoke_def list_all_iff)
qed

text \<open>The last two passes, after a scan that found the end of \<open>txs\<close>.\<close>

lemma recover_transactions:
  assumes txs: "transactions d j (s_sequence j) (unat (s_start j)) txs pos'" "length txs < 2 ^ 31"
    and j: "s_start j \<noteq> 0" "ring j" "unat (s_start j) < j_last j"
    and d: "\<forall>n. dev_mem d n" "\<forall>b. dev_getblk d b"
    and init: "journal_init_revoke True n = Some (j_revoke j)" "0 < n" "n < 2 ^ 31"
    and scan: "runs d PASS_SCAN (start_pass PASS_SCAN (enter j fs)) (Returned 0 A)"
    and A: "p_journal A = j\<lparr>j_failed_commit := f\<rparr>" "p_fs A = fs"
      "end_transaction (p_info A) = s_sequence j + of_nat (length txs)"
  shows "\<exists>n. \<forall>fuel \<ge> n. \<exists>st. journal_recover d fuel j fs = Some (Returned 0 st) \<and> p_fs st = replay txs fs \<and>
    j_transaction_sequence (p_journal st) = s_sequence j + of_nat (length txs) + 1 \<and>
    j_failed_commit (p_journal st) = f \<and> journal_destroy_revoke (j_revoke (p_journal st))"
proof -
  let ?s = "s_sequence j" and ?e = "s_sequence j + of_nat (length txs)"
  define T where "T = A\<lparr>success := 0, crc32_sum := - 1\<rparr>"
  have T: "start_pass PASS_REVOKE A = at (unat (s_start j)) ?s T" "success T = 0" "end_transaction (p_info T) = ?e"
    using A by (simp_all add: T_def start_pass_later)
  have "p_journal T = j\<lparr>j_failed_commit := f, j_revoke := j_revoke j\<rparr>" using A by (simp add: T_def)
  then have "same_log j T" by (rule same_logI)
  from revoke_transactions [OF txs(1) this j(2,3) d(1) T(3) txs(2)] obtain p2
    where p2: "runs d PASS_REVOKE (at (unat (s_start j)) ?s T) (Returned 0 (at p2 ?e (revoked d (revokes ?s txs) T)))"
    unfolding T(2) by blast
  define B where "B = at p2 ?e (revoked d (revokes ?s txs) T)"
  define U where "U = B\<lparr>success := 0, crc32_sum := - 1\<rparr>"
  have U: "start_pass PASS_REPLAY B = at (unat (s_start j)) ?s U" "p_fs U = fs" "success U = 0"
      "p_journal U = j\<lparr>j_failed_commit := f, j_revoke := rv.set_all (dev_ub d) (revokes ?s txs) (j_revoke j)\<rparr>"
      "end_transaction (p_info U) = ?e"
    using A by (simp_all add: U_def B_def T_def start_pass_later revoked_def)
  have "same_log j U" using U(4) by (rule same_logI)
  from replay_transactions [OF txs(1) this d(2) U(5) txs(2)] obtain p3
    where p3: "runs d PASS_REPLAY (at (unat (s_start j)) ?s U) (Returned 0 (at p3 ?e (replayed_all d ?s txs U)))"
    unfolding U(3) by blast
  have "p_fs (replayed_all d ?s txs U) = replay txs fs"
    using replayed_all_fs [of d U ?s "[]" txs] revokes_table [OF init txs(2)] txs(2) U(2,4) by simp
  then show ?thesis
    using recover_runs [OF scan, of B "at p3 ?e (replayed_all d ?s txs U)"] p2 p3 T(1) U(1,4,5) j(1)
    by (simp add: B_def)
qed

text \<open>The state in which the first pass starts.\<close>

definition scan_state :: "journal \<Rightarrow> (u64 \<Rightarrow> bytes) \<Rightarrow> pstate" where
  "scan_state j fs = (enter j fs)\<lparr>crc32_sum := - 1, p_info := no_info\<lparr>start_transaction := s_sequence j\<rparr>\<rparr>"

lemma scan_state_simps [simp]:
  "p_journal (scan_state j fs) = j" "p_fs (scan_state j fs) = fs" "success (scan_state j fs) = 0"
  "crc32_sum (scan_state j fs) = - 1" "end_transaction (p_info (scan_state j fs)) = 0"
  by (simp_all add: scan_state_def enter_def no_info_def)

lemma start_scan: "start_pass PASS_SCAN (enter j fs) = at (unat (s_start j)) (s_sequence j) (scan_state j fs)"
  by (simp add: scan_state_def start_pass_def at_def enter_def)

text \<open>
  C1. Recovery replays the log: let the log from \<open>s_start\<close> on hold complete transactions and then at
  most an unfinished one, laid out around the ring of blocks. With memory for its buffers and
  records, \<open>journal_recover\<close> returns 0, and the file system is the one that the abstract replay
  gives: every block of every complete transaction is written, in log order, unless the same
  or a later complete transaction revokes it; nothing of the unfinished transaction takes
  effect. The next transaction id is past all of them and the revoke table is empty again.
\<close>

theorem journal_recover_replays:
  assumes "log d j (s_sequence j) (unat (s_start j)) txs" "length txs < 2 ^ 31"
    and "s_start j \<noteq> 0" "j_first j < j_last j" "unat (s_start j) < j_last j" "\<not> has_checksum j"
    and "\<forall>n. dev_mem d n" "\<forall>b. dev_getblk d b"
    and "journal_init_revoke True n = Some (j_revoke j)" "0 < n" "n < 2 ^ 31"
  shows "\<exists>n. \<forall>fuel \<ge> n. \<exists>st. journal_recover d fuel j fs = Some (Returned 0 st) \<and> p_fs st = replay txs fs \<and>
    j_transaction_sequence (p_journal st) = s_sequence j + of_nat (length txs) + 1 \<and>
    journal_destroy_revoke (j_revoke (p_journal st))"
proof -
  let ?e = "s_sequence j + of_nat (length txs)" and ?S = "scan_state j fs"
  have ring: "ring j" using assms(4) by (simp add: ring_def)
  obtain p1 where p1: "runs d PASS_SCAN (start_pass PASS_SCAN (enter j fs)) (finish PASS_SCAN (at p1 ?e ?S))"
    using scan_log [OF assms(1) _ assms(6) ring assms(5), of ?S] by (auto simp: start_scan)
  obtain pos' where "transactions d j (s_sequence j) (unat (s_start j)) txs pos'" using assms(1) by (auto simp: log_def)
  note rest = recover_transactions [OF this assms(2,3) ring assms(5,7-11), of fs "set_end ?e (at p1 ?e ?S)" "j_failed_commit j"]
  then show ?thesis using p1 by (fastforce simp: finish_def set_end_def)
qed

text \<open>
  A log of five blocks whose transaction starts in block 4 and goes on in block 1: a descriptor of
  one escaped block, its data, a revoke block and a commit.
\<close>

definition sample_header :: "u8 \<Rightarrow> u8 \<Rightarrow> bytes" where
  "sample_header blocktype seq = [0xc0, 0x3b, 0x39, 0x98, 0, 0, 0, blocktype, 0, 0, 0, seq]"

definition sample_block :: "nat \<Rightarrow> bytes" where
  "sample_block n =
     (if n = 4 then sample_header 1 7 @ [0, 0, 0, 100, 0, 0, 0, 11] @ replicate 16 0
      else if n = 5 then [0, 0, 0, 0, 1, 2, 3, 4] @ replicate 28 9
      else if n = 1 then sample_header 5 7 @ [0, 0, 0, 20] @ [0, 0, 0, 200] @ replicate 16 0
      else sample_header 2 7 @ replicate 24 0)"

text \<open>Block 3 comes after the transaction; the journal is with or without checksums.\<close>

definition sample_devices :: "bytes \<Rightarrow> devices" where
  "sample_devices b3 = \<lparr>dev_log = \<lambda>n. Inr (if n = 3 then b3 else sample_block n), dev_getblk = \<lambda>_. True,
                        dev_mem = \<lambda>_. True, dev_ub = \<lambda>_ _. 0\<rparr>"

definition sample_journal :: "bool \<Rightarrow> journal" where
  "sample_journal sums = \<lparr>j_maxlen = 6, j_blocksize = 36, j_first = 1, j_last = 6, s_start = 4, s_sequence = 7,
     has_checksum = sums, has_async_commit = False, has_64bit = False, j_failed_commit = 0,
     j_transaction_sequence = 0, j_tail = 0,
     j_revoke = \<lparr>hash_size = 16, hash_shift = 4, hash_table = replicate 16 []\<rparr>\<rparr>"

definition sample_txs :: txs where
  "sample_txs = [([200], [(100, [0xc0, 0x3b, 0x39, 0x98, 1, 2, 3, 4] @ replicate 28 9)])]"

lemma sample_journal_fields:
  "j_first (sample_journal c) = 1" "j_last (sample_journal c) = 6" "s_start (sample_journal c) = 4"
  "s_sequence (sample_journal c) = 7" "has_checksum (sample_journal c) = c" "has_64bit (sample_journal c) = False"
  "has_async_commit (sample_journal c) = False"
  by (simp_all add: sample_journal_def)

lemma sample_devices_fields: "dev_mem (sample_devices b3) n" "dev_getblk (sample_devices b3) b"
  by (simp_all add: sample_devices_def)

lemma sample_reads:
  "n < 6 \<Longrightarrow> jread (sample_devices b3) (sample_journal c) n = Inr (if n = 3 then b3 else sample_block n)"
  by (simp add: jread_def sample_devices_def sample_journal_def)

lemma sample_ring: "n < 6 \<Longrightarrow> wrap (sample_journal c) n = n" "wrap (sample_journal c) 6 = 1"
  by (simp_all add: wrap_def sample_journal_def)

lemma sample_headers:
  "header JFS_DESCRIPTOR_BLOCK 7 (sample_block 4)" "header JFS_REVOKE_BLOCK 7 (sample_block 1)"
  "header JFS_COMMIT_BLOCK 7 (sample_block 2)"
  by code_simp+

lemma sample_contents:
  "revoke_entries (sample_block 1) 4 16 (sint (be32 (sample_block 1) 12)) = Some [200]"
  "restore_block 11 (sample_block 5) = [0xc0, 0x3b, 0x39, 0x98, 1, 2, 3, 4] @ replicate 28 9"
  by code_simp+

lemma sample_tags: "parse_tags (sample_journal c) (sample_block 4) 12 = [(11, 100)]"
  by (cases c; code_simp)

lemma sample_init: "journal_init_revoke True 16 = Some (j_revoke (sample_journal c))"
  by (cases c; code_simp)

lemma sample_transaction:
  "transaction (sample_devices b3) (sample_journal c) 7 4 [200] (snd (hd sample_txs)) 3"
proof -
  let ?d = "sample_devices b3" and ?j = "sample_journal c"
  have "transaction ?d ?j 7 2 [] [] 3"
    using tx_commit [of ?d ?j 2 "sample_block 2" 7] by (simp add: sample_reads sample_headers sample_ring)
  then have "transaction ?d ?j 7 1 [200] [] 3"
    using tx_revoke [of ?d ?j 1 "sample_block 1" 7 "[200]" "[]" "[]" 3] sample_headers(2) sample_contents(1)
    by (simp add: sample_reads sample_ring sample_journal_fields numeral_2_eq_2 [symmetric])
  then show ?thesis
    using tx_descriptor [of ?d ?j 4 "sample_block 4" 7 "snd (hd sample_txs)" "[200]" "[]" 3]
    by (simp add: sample_reads sample_headers sample_contents sample_tags sample_ring advance_Suc sample_txs_def sample_journal_fields)
qed

lemma sample_log: "log (sample_devices (replicate 36 0)) (sample_journal False) 7 4 sample_txs"
proof -
  have "be32 (replicate 36 0) 0 \<noteq> JFS_MAGIC_NUMBER" by code_simp
  then have "unfinished (sample_devices (replicate 36 0)) (sample_journal False) 8 3"
    by (intro un_end [where b = "replicate 36 0"]) (simp_all add: sample_reads)
  moreover have "transactions (sample_devices (replicate 36 0)) (sample_journal False) 7 4 sample_txs 3"
    using txs_one [OF sample_transaction txs_none] by (simp add: sample_txs_def)
  ultimately show ?thesis by (auto simp: log_def sample_txs_def)
qed

theorem journal_recover_replays_witness:
  "\<exists>n. \<forall>fuel \<ge> n. \<exists>st.
     journal_recover (sample_devices (replicate 36 0)) fuel (sample_journal False) (\<lambda>_. []) = Some (Returned 0 st) \<and>
     p_fs st = (\<lambda>_. [])(100 := [0xc0, 0x3b, 0x39, 0x98, 1, 2, 3, 4] @ replicate 28 9) \<and>
     j_transaction_sequence (p_journal st) = 9 \<and> journal_destroy_revoke (j_revoke (p_journal st))"
proof -
  have "\<not> revoked_in sample_txs 100" by code_simp
  then show ?thesis
    using journal_recover_replays [of "sample_devices (replicate 36 0)" "sample_journal False" sample_txs 16 "\<lambda>_. []"]
      sample_log sample_init [of False]
    by (simp add: sample_journal_fields sample_devices_fields sample_txs_def)
qed

section \<open>Damaged logs\<close>

lemma ring_of_revokes:
  assumes "\<forall>pos. j_first j \<le> pos \<and> pos < j_last j \<longrightarrow> (\<exists>b. jread d j pos = Inr b \<and> header JFS_REVOKE_BLOCK seq b)"
    and "j_first j \<le> pos" "pos < j_last j" "p_journal st = j"
  shows "pass_loop d PASS_SCAN fuel (at pos seq st) = None"
  using assms(2,3)
proof (induction fuel arbitrary: pos)
  case (Suc fuel)
  obtain b where "jread d j pos = Inr b" "header JFS_REVOKE_BLOCK seq b" using assms(1) Suc.prems by blast
  then have "pass_step d PASS_SCAN (at pos seq st) = Next (at (wrap j (pos + 1)) seq st)"
    using step_revoke_skip [of d st pos b PASS_SCAN seq] assms(4) by (simp add: going_def)
  then show ?case using Suc by (auto simp: wrap_def)
qed simp

text \<open>
  C34. Recovery of a damaged log need not end: if every block of the ring is a revoke block of the
  first transaction, \<open>journal_recover\<close> does not return, whatever the number of iterations allowed.
\<close>

theorem journal_recover_diverges:
  assumes "\<forall>pos. j_first j \<le> pos \<and> pos < j_last j \<longrightarrow>
      (\<exists>b. jread d j pos = Inr b \<and> header JFS_REVOKE_BLOCK (s_sequence j) b)"
    and "s_start j \<noteq> 0" "j_first j \<le> unat (s_start j)" "unat (s_start j) < j_last j"
  shows "journal_recover d fuel j fs = None"
proof -
  have j: "p_journal (enter j fs) = j" by (simp add: enter_def)
  have "do_one_pass d fuel PASS_SCAN (enter j fs) = None"
    unfolding do_one_pass_def start_pass_at j by (rule ring_of_revokes [OF assms(1,3,4)]) (simp add: enter_def)
  then show ?thesis using assms(2) by (simp add: journal_recover_def then_pass_def)
qed

theorem journal_recover_diverges_witness:
  "\<forall>fuel. journal_recover ((sample_devices [])\<lparr>dev_log := \<lambda>_. Inr (sample_block 1)\<rparr>) fuel (sample_journal False) (\<lambda>_. []) = None"
proof -
  let ?d = "(sample_devices [])\<lparr>dev_log := \<lambda>_. Inr (sample_block 1)\<rparr>" and ?j = "sample_journal False"
  have "jread ?d ?j pos = Inr (sample_block 1)" if "pos < 6" for pos
    using that by (simp add: jread_def sample_journal_def)
  then have "\<forall>pos. j_first ?j \<le> pos \<and> pos < j_last ?j \<longrightarrow>
      (\<exists>b. jread ?d ?j pos = Inr b \<and> header JFS_REVOKE_BLOCK (s_sequence ?j) b)"
    unfolding sample_journal_fields using sample_headers(2) by blast
  from journal_recover_diverges [OF this] show ?thesis by (simp add: sample_journal_fields)
qed

lemma scan_revoke_overrun:
  assumes "int (length b) < maxo" "int offset < maxo" "0 < record_len" "\<forall>n. dev_mem d n"
  shows "scan_revoke_loop d b record_len offset maxo seq st = Undef"
  using assms(2)
proof (induction "length b - offset" arbitrary: offset st rule: less_induct)
  case less
  let ?st = "revoked d [(record_at b record_len offset, seq)] st"
  obtain t where t: "journal_set_revoke (dev_ub d) True (j_revoke (p_journal st)) (record_at b record_len offset) seq = (0, t)"
    using set_revoke_ok [of "dev_ub d" "j_revoke (p_journal st)" "record_at b record_len offset" seq] by (metis prod.collapse)
  show ?case
  proof (cases "length b < offset + record_len")
    case True
    then show ?thesis using less.prems assms(3) by (subst scan_revoke_loop.simps) simp
  next
    case False
    then have "scan_revoke_loop d b record_len (offset + record_len) maxo seq ?st = Undef"
      using less.hyps [of "offset + record_len" ?st] assms(1,3) by simp
    moreover have "scan_revoke_loop d b record_len offset maxo seq st =
        scan_revoke_loop d b record_len (offset + record_len) maxo seq ?st"
      using False less.prems assms(3,4) t
      by (subst scan_revoke_loop.simps) (simp add: Let_def revoked_def rv.set_all_def)
    ultimately show ?thesis by simp
  qed
qed

text \<open>
  The length in a revoke block is trusted: with a byte count larger than the block,
  \<open>scan_revoke_records\<close> always ends up reading records outside the block.
\<close>

theorem scan_revoke_records_overrun:
  assumes "16 \<le> length b" "int (length b) < sint (be32 b 12)" "\<forall>n. dev_mem d n"
  shows "scan_revoke_records d b seq st = Undef"
  unfolding scan_revoke_records_def using assms by (intro scan_revoke_overrun) auto

theorem scan_revoke_records_overrun_witness:
  "scan_revoke_records (sample_devices []) (sample_header 5 7 @ [0, 0, 4, 0] @ replicate 20 0) 7
     (scan_state (sample_journal False) (\<lambda>_. [])) = Undef"
proof (rule scan_revoke_records_overrun)
  show "int (length (sample_header 5 7 @ [0, 0, 4, 0] @ replicate 20 0)) < sint (be32 (sample_header 5 7 @ [0, 0, 4, 0] @ replicate 20 0) 12)"
    by code_simp
qed (simp_all add: sample_header_def sample_devices_def)

section \<open>Transaction checksums\<close>

text \<open>
  The blocks that the first pass adds up on its way through revoke and descriptor blocks of a
  transaction: each descriptor block with the blocks it describes.
\<close>

fun read_blocks :: "devices \<Rightarrow> journal \<Rightarrow> nat \<Rightarrow> nat \<Rightarrow> bytes list option" where
  "read_blocks d j 0 pos = Some []"
| "read_blocks d j (Suc n) pos =
     (case jread d j pos of
        Inl err \<Rightarrow> None
      | Inr b \<Rightarrow> map_option (Cons b) (read_blocks d j n (wrap j (pos + 1))))"

inductive summed :: "devices \<Rightarrow> journal \<Rightarrow> tid \<Rightarrow> nat \<Rightarrow> bytes list \<Rightarrow> nat \<Rightarrow> bool"
  for d :: devices and j :: journal and seq :: tid where
  sum_none: "summed d j seq pos [] pos"
| sum_revoke: "jread d j pos = Inr b \<Longrightarrow> header JFS_REVOKE_BLOCK seq b \<Longrightarrow>
    summed d j seq (wrap j (pos + 1)) bs pos' \<Longrightarrow> summed d j seq pos bs pos'"
| sum_descriptor: "jread d j pos = Inr b \<Longrightarrow> header JFS_DESCRIPTOR_BLOCK seq b \<Longrightarrow>
    read_blocks d j (length (parse_tags j b 12)) (wrap j (pos + 1)) = Some obs \<Longrightarrow>
    summed d j seq (advance j (length (parse_tags j b 12)) (wrap j (pos + 1))) bs pos' \<Longrightarrow>
    summed d j seq pos (b # obs @ bs) pos'"

text \<open>A commit block agrees with the sum, or was written without one.\<close>

definition commit_agrees :: "bytes list \<Rightarrow> bytes \<Rightarrow> bool" where
  "commit_agrees bs b \<longleftrightarrow>
     (be32 b 16 = crc32_be (- 1) (concat bs) \<and> b ! 12 = 1 \<and> b ! 13 = 4) \<or> (be32 b 16 = 0 \<and> b ! 12 = 0 \<and> b ! 13 = 0)"

definition checked :: "devices \<Rightarrow> journal \<Rightarrow> tid \<Rightarrow> nat \<Rightarrow> (bool \<Rightarrow> bool) \<Rightarrow> nat \<Rightarrow> bool" where
  "checked d j seq pos P pos' \<longleftrightarrow>
     (\<exists>bs c b. summed d j seq pos bs c \<and> jread d j c = Inr b \<and> header JFS_COMMIT_BLOCK seq b \<and>
        P (commit_agrees bs b) \<and> pos' = wrap j (c + 1))"

inductive checked_transactions :: "devices \<Rightarrow> journal \<Rightarrow> tid \<Rightarrow> nat \<Rightarrow> txs \<Rightarrow> nat \<Rightarrow> bool"
  for d :: devices and j :: journal where
  ck_none: "checked_transactions d j seq pos [] pos"
| ck_one: "transaction d j seq pos rs ws pos' \<Longrightarrow> checked d j seq pos id pos' \<Longrightarrow>
    checked_transactions d j (seq + 1) pos' txs pos'' \<Longrightarrow> checked_transactions d j seq pos ((rs, ws) # txs) pos''"

lemma checked_transactions_transactions:
  "checked_transactions d j seq pos txs pos' \<Longrightarrow> transactions d j seq pos txs pos'"
  by (induction rule: checked_transactions.induct) (auto intro: transactions.intros)

lemma crc32_be_twice: "crc32_be (crc32_be c a) b = crc32_be c (a @ b)"
  by (simp add: crc32_be_def)

lemma chksum_loop_read:
  "read_blocks d j n pos = Some obs \<Longrightarrow>
   chksum_loop d j n pos crc = (False, advance j n pos, crc32_be crc (concat obs))"
proof (induction d j n pos arbitrary: obs crc rule: read_blocks.induct)
  case (2 d j n pos)
  then show ?case by (auto simp: advance_Suc crc32_be_twice split: sum.splits)
qed (simp add: crc32_be_def)

lemma with_crc [simp]:
  "p_journal (st\<lparr>crc32_sum := c\<rparr>) = p_journal st" "(at pos seq st)\<lparr>crc32_sum := c\<rparr> = at pos seq (st\<lparr>crc32_sum := c\<rparr>)"
  by (simp_all add: at_def)

lemma scan_summed:
  assumes "summed d j seq pos bs pos'" "p_journal st = j" "has_checksum j" "end_transaction (p_info st) = 0"
    and "runs d PASS_SCAN (at pos' seq (st\<lparr>crc32_sum := crc32_be c (concat bs)\<rparr>)) r"
  shows "runs d PASS_SCAN (at pos seq (st\<lparr>crc32_sum := c\<rparr>)) r"
  using assms
proof (induction arbitrary: c rule: summed.induct)
  case (sum_none pos)
  then show ?case by (simp add: crc32_be_def)
next
  case (sum_revoke pos b bs pos')
  then have "pass_step d PASS_SCAN (at pos seq (st\<lparr>crc32_sum := c\<rparr>)) = Next (at (wrap j (pos + 1)) seq (st\<lparr>crc32_sum := c\<rparr>))"
    using step_revoke_skip [of d "st\<lparr>crc32_sum := c\<rparr>" pos b PASS_SCAN seq] by (simp add: going_def)
  then show ?case using sum_revoke by (blast intro: runs_step)
next
  case (sum_descriptor pos b obs bs pos')
  let ?n = "length (parse_tags j b 12)"
  have "pass_step d PASS_SCAN (at pos seq (st\<lparr>crc32_sum := c\<rparr>)) =
      descriptor_block d PASS_SCAN b (at (wrap j (pos + 1)) seq (st\<lparr>crc32_sum := c\<rparr>))"
    using step_header(3) [of d "st\<lparr>crc32_sum := c\<rparr>" pos b PASS_SCAN seq] sum_descriptor by (simp add: going_def)
  also have "\<dots> = Next (at (advance j ?n (wrap j (pos + 1))) seq (st\<lparr>crc32_sum := crc32_be c (b @ concat obs)\<rparr>))"
    using chksum_loop_read [OF sum_descriptor.hyps(3)] sum_descriptor.prems
    by (simp add: descriptor_block_def Let_def calc_chksums_def count_tags_parse crc32_be_twice at_def)
  finally show ?case
    using sum_descriptor.IH [of "crc32_be c (b @ concat obs)"] sum_descriptor.prems
    by (auto simp: crc32_be_twice intro: runs_step)
qed

text \<open>The commit block at the end of a transaction, with a sum that agrees or does not.\<close>

lemma scan_checked:
  assumes "checked d j seq pos id pos'" "p_journal st = j" "has_checksum j" "end_transaction (p_info st) = 0"
    and "runs d PASS_SCAN (at pos' (seq + 1) (st\<lparr>crc32_sum := - 1\<rparr>)) r"
  shows "runs d PASS_SCAN (at pos seq (st\<lparr>crc32_sum := - 1\<rparr>)) r"
proof -
  obtain bs p b where ck: "summed d j seq pos bs p" "jread d j p = Inr b" "header JFS_COMMIT_BLOCK seq b"
      "commit_agrees bs b" "pos' = wrap j (p + 1)"
    using assms(1) by (auto simp: checked_def)
  let ?st = "st\<lparr>crc32_sum := crc32_be (- 1) (concat bs)\<rparr>"
  have "pass_step d PASS_SCAN (at p seq ?st) = commit_block PASS_SCAN b (at pos' seq ?st)"
    using step_header(1) [of d ?st p b PASS_SCAN seq] ck assms(2) by (simp add: going_def)
  also have "\<dots> = Next (at pos' (seq + 1) (st\<lparr>crc32_sum := - 1\<rparr>))"
    using assms(2-4) ck(4) by (auto simp: commit_block_def commit_agrees_def Let_def at_def)
  finally have "runs d PASS_SCAN (at p seq ?st) r" using assms(5) by (rule runs_step)
  from scan_summed [OF ck(1) assms(2-4) this] show ?thesis .
qed

lemma scan_bad_commit:
  assumes "checked d j seq pos Not pos'" "p_journal st = j" "has_checksum j" "\<not> has_async_commit j"
    and "end_transaction (p_info st) = 0" "jread d j pos' = Inr b'" "be32 b' 0 \<noteq> JFS_MAGIC_NUMBER \<or> be32 b' 8 \<noteq> seq"
  shows "\<exists>A. runs d PASS_SCAN (at pos seq (st\<lparr>crc32_sum := - 1\<rparr>)) (Returned (success st) A) \<and>
    p_journal A = j\<lparr>j_failed_commit := seq\<rparr> \<and> p_fs A = p_fs st \<and> end_transaction (p_info A) = seq"
proof -
  obtain bs p b where ck: "summed d j seq pos bs p" "jread d j p = Inr b" "header JFS_COMMIT_BLOCK seq b"
      "\<not> commit_agrees bs b" "pos' = wrap j (p + 1)"
    using assms(1) by (auto simp: checked_def)
  let ?st = "st\<lparr>crc32_sum := crc32_be (- 1) (concat bs)\<rparr>"
  let ?bad = "set_failed_commit seq (set_end seq (at pos' seq ?st))"
  let ?A = "set_end seq (?bad\<lparr>next_log_block := wrap j (pos' + 1)\<rparr>)"
  have "pass_step d PASS_SCAN (at p seq ?st) = commit_block PASS_SCAN b (at pos' seq ?st)"
    using step_header(1) [of d ?st p b PASS_SCAN seq] ck assms(2) by (simp add: going_def)
  also have "\<dots> = Next ?bad"
    using assms(2-5) ck(4) by (auto simp: commit_block_def commit_agrees_def Let_def at_def)
  finally have one: "pass_step d PASS_SCAN (at p seq ?st) = Next ?bad" .
  have "pass_step d PASS_SCAN ?bad = Done (?bad\<lparr>next_log_block := wrap j (pos' + 1)\<rparr>)"
    using assms(2,6,7) by (auto simp: pass_step_def Let_def set_failed_commit_def set_end_def at_def)
  moreover have "finish PASS_SCAN (?bad\<lparr>next_log_block := wrap j (pos' + 1)\<rparr>) = Returned (success st) ?A"
    by (simp add: finish_def set_failed_commit_def set_end_def at_def)
  ultimately have "runs d PASS_SCAN ?bad (Returned (success st) ?A)" by (metis runs_done)
  from runs_step [OF one this] have "runs d PASS_SCAN (at pos seq (st\<lparr>crc32_sum := - 1\<rparr>)) (Returned (success st) ?A)"
    by (rule scan_summed [OF ck(1) assms(2,3,5)])
  moreover have "p_journal ?A = j\<lparr>j_failed_commit := seq\<rparr>" "p_fs ?A = p_fs st" "end_transaction (p_info ?A) = seq"
    using assms(2) by (simp_all add: set_failed_commit_def set_end_def at_def)
  ultimately show ?thesis by blast
qed

lemma scan_checked_transactions:
  assumes "checked_transactions d j seq pos txs pos'" "p_journal st = j" "has_checksum j" "end_transaction (p_info st) = 0"
    and "runs d PASS_SCAN (at pos' (seq + of_nat (length txs)) (st\<lparr>crc32_sum := - 1\<rparr>)) r"
  shows "runs d PASS_SCAN (at pos seq (st\<lparr>crc32_sum := - 1\<rparr>)) r"
  using assms
proof (induction rule: checked_transactions.induct)
  case (ck_one seq pos rs ws pos' txs pos'')
  then show ?case using scan_checked [OF ck_one.hyps(2)] by (simp add: add.assoc)
qed simp

text \<open>
  C12. A transaction that fails its checksum is not replayed: in a journal with checksums and
  synchronous commits, let the log hold transactions whose commit blocks agree with the CRC of
  their blocks, then one whose commit block does not, and then a block that does not belong to
  it. Recovery replays exactly the former, and reports the latter as the failed commit.
\<close>

theorem journal_recover_bad_checksum:
  assumes "checked_transactions d j (s_sequence j) (unat (s_start j)) txs pos"
    and "checked d j (s_sequence j + of_nat (length txs)) pos Not pos'"
    and "jread d j pos' = Inr b'" "be32 b' 0 \<noteq> JFS_MAGIC_NUMBER \<or> be32 b' 8 \<noteq> s_sequence j + of_nat (length txs)"
    and "length txs < 2 ^ 31" "s_start j \<noteq> 0" "j_first j < j_last j" "unat (s_start j) < j_last j"
    and "has_checksum j" "\<not> has_async_commit j" "\<forall>n. dev_mem d n" "\<forall>b. dev_getblk d b"
    and "journal_init_revoke True n = Some (j_revoke j)" "0 < n" "n < 2 ^ 31"
  shows "\<exists>n. \<forall>fuel \<ge> n. \<exists>st. journal_recover d fuel j fs = Some (Returned 0 st) \<and> p_fs st = replay txs fs \<and>
    j_failed_commit (p_journal st) = s_sequence j + of_nat (length txs)"
proof -
  let ?e = "s_sequence j + of_nat (length txs)" and ?S = "scan_state j fs"
  have ring: "ring j" using assms(7) by (simp add: ring_def)
  have S: "?S\<lparr>crc32_sum := - 1\<rparr> = ?S" by (simp add: scan_state_def)
  obtain A where A: "runs d PASS_SCAN (at pos ?e (?S\<lparr>crc32_sum := - 1\<rparr>)) (Returned (success ?S) A)"
      "p_journal A = j\<lparr>j_failed_commit := ?e\<rparr>" "p_fs A = fs" "end_transaction (p_info A) = ?e"
    using scan_bad_commit [OF assms(2) _ assms(9,10) _ assms(3,4), of ?S] by auto
  have "runs d PASS_SCAN (start_pass PASS_SCAN (enter j fs)) (Returned 0 A)"
    using scan_checked_transactions [OF assms(1) _ assms(9) _ A(1)] by (simp add: start_scan S)
  from recover_transactions [OF checked_transactions_transactions [OF assms(1)] assms(5,6) ring assms(8,11-15) this A(2-4)]
  show ?thesis by blast
qed

text \<open>The sample log with a second transaction in block 3, whose checksum has an unknown type.\<close>

definition bad_commit :: bytes where
  "bad_commit = sample_header 2 8 @ [2, 4, 0, 0] @ replicate 20 0"

theorem journal_recover_bad_checksum_witness:
  "\<exists>n. \<forall>fuel \<ge> n. \<exists>st.
     journal_recover (sample_devices bad_commit) fuel (sample_journal True) (\<lambda>_. []) = Some (Returned 0 st) \<and>
     p_fs st = replay sample_txs (\<lambda>_. []) \<and> j_failed_commit (p_journal st) = 8"
proof -
  let ?d = "sample_devices bad_commit" and ?j = "sample_journal True"
  have "summed ?d ?j 7 1 [] 2"
    using sum_revoke [of ?d ?j 1 "sample_block 1" 7 "[]" 2] sum_none [of ?d ?j 7 2] sample_headers(2)
    by (simp add: sample_reads sample_ring numeral_2_eq_2 [symmetric])
  then have "summed ?d ?j 7 4 [sample_block 4, sample_block 5] 2"
    using sum_descriptor [of ?d ?j 4 "sample_block 4" 7 "[sample_block 5]" "[]" 2]
    by (simp add: sample_reads sample_headers sample_tags sample_ring advance_Suc)
  moreover have "commit_agrees bs (sample_block 2)" for bs
  proof -
    have "be32 (sample_block 2) 16 = 0" "sample_block 2 ! 12 = 0" "sample_block 2 ! 13 = 0" by code_simp+
    then show ?thesis by (simp add: commit_agrees_def)
  qed
  ultimately have "checked ?d ?j 7 4 id 3"
    unfolding checked_def
    by (intro exI [of _ "[sample_block 4, sample_block 5]"] exI [of _ 2] exI [of _ "sample_block 2"])
      (simp add: sample_reads sample_headers sample_ring)
  from ck_one [OF sample_transaction this ck_none] have good: "checked_transactions ?d ?j 7 4 sample_txs 3"
    by (simp add: sample_txs_def)
  have commit: "header JFS_COMMIT_BLOCK 8 bad_commit" "bad_commit ! 12 = 2" by code_simp+
  have bad: "checked ?d ?j 8 3 Not 4"
    unfolding checked_def
    by (intro exI [of _ "[]"] exI [of _ 3] exI [of _ bad_commit] conjI sum_none)
      (simp_all add: sample_reads sample_ring commit commit_agrees_def)
  have "be32 (sample_block 4) 8 \<noteq> 8" by code_simp
  then show ?thesis
    using journal_recover_bad_checksum [of ?d ?j sample_txs 3 4 "sample_block 4" 16 "\<lambda>_. []"] good bad sample_init [of True]
    by (simp add: sample_journal_fields sample_devices_fields sample_reads)
      (simp add: sample_txs_def)
qed

end
