(* ===== verification/Bitops.thy ===== *)
theory Bitops
  imports Prelude
begin

text \<open>
  Bit arrays in memory, \<open>external/e2fsprogs/lib/ext2fs/bitops.c\<close>, and what the bitmap back ends of
  that library share: error codes, 64-bit arithmetic on block numbers, and the contract of
  \<open>struct ext2_bitmap_ops\<close> as a locale. Block and inode numbers are natural numbers; the places
  where the code adds or subtracts 64-bit values use \<open>add64\<close> and \<open>sub64\<close>, which wrap.
\<close>

section \<open>Error codes and 64-bit arithmetic\<close>

datatype errcode = Success | EINVAL | ENOENT | EXT2_ET_NO_MEMORY | EXT2_ET_INVALID_ARGUMENT | EXT2_ET_CANT_USE_LEGACY_BITMAPS
  | EXT2_ET_MAGIC_BADBLOCKS_LIST | EXT2_ET_DIR_CORRUPTED | EXT2_ET_DIR_NO_SPACE | EXT2_ET_FILE_NOT_FOUND
  | EXT2_ET_RO_FILSYS | EXT2_ET_SYMLINK_LOOP | EXT2_ET_DIR_EXISTS | Et nat

type_synonym blk64 = nat

definition add64 :: "blk64 \<Rightarrow> blk64 \<Rightarrow> blk64" where
  "add64 a b = (a + b) mod 2 ^ 64"

definition sub64 :: "blk64 \<Rightarrow> blk64 \<Rightarrow> blk64" where
  "sub64 a b = (a + 2 ^ 64 - b) mod 2 ^ 64"

lemma add64_small [simp]: "a + b < 2 ^ 64 \<Longrightarrow> add64 a b = a + b"
  by (simp add: add64_def)

lemma sub64_small [simp]: "b \<le> a \<Longrightarrow> a < 2 ^ 64 \<Longrightarrow> sub64 a b = a - b"
  by (simp add: sub64_def mod_if)

section \<open>Single bits\<close>

definition ext2fs_set_bit64 :: "nat \<Rightarrow> bytes \<Rightarrow> u8 \<times> bytes" where
  "ext2fs_set_bit64 nr addr =
     (let m = push_bit (nr mod 8) 1; c = addr ! (nr div 8)
      in (m AND c, addr[nr div 8 := c OR m]))"

definition ext2fs_clear_bit64 :: "nat \<Rightarrow> bytes \<Rightarrow> u8 \<times> bytes" where
  "ext2fs_clear_bit64 nr addr =
     (let m = push_bit (nr mod 8) 1; c = addr ! (nr div 8)
      in (m AND c, addr[nr div 8 := c AND NOT m]))"

definition ext2fs_test_bit64 :: "nat \<Rightarrow> bytes \<Rightarrow> u8" where
  "ext2fs_test_bit64 nr addr = push_bit (nr mod 8) 1 AND addr ! (nr div 8)"

text \<open>What the array means.\<close>

definition bit_at :: "bytes \<Rightarrow> nat \<Rightarrow> bool" where
  "bit_at addr n = bit (addr ! (n div 8)) (n mod 8)"

lemma mask_and: "2 ^ k AND c \<noteq> 0 \<longleftrightarrow> bit c k" for c :: u8
  using and_exp_eq_0_iff_not_bit [of c k] by (simp add: and.commute)

lemma test_bit64_iff: "ext2fs_test_bit64 nr addr \<noteq> 0 \<longleftrightarrow> bit_at addr nr"
  by (simp add: ext2fs_test_bit64_def bit_at_def mask_and)

lemma set_bit64_old: "fst (ext2fs_set_bit64 nr addr) \<noteq> 0 \<longleftrightarrow> bit_at addr nr"
  by (simp add: ext2fs_set_bit64_def bit_at_def mask_and Let_def)

lemma clear_bit64_old: "fst (ext2fs_clear_bit64 nr addr) \<noteq> 0 \<longleftrightarrow> bit_at addr nr"
  by (simp add: ext2fs_clear_bit64_def bit_at_def mask_and Let_def)

lemma same_position: "n div 8 = m div 8 \<Longrightarrow> n mod 8 = m mod 8 \<Longrightarrow> n = (m :: nat)"
  by (metis div_mult_mod_eq)

lemma bit_single: "n < 8 \<Longrightarrow> bit (2 ^ k :: u8) n \<longleftrightarrow> n = k"
  by (auto simp: bit_exp_iff)

lemma bit_at_set:
  assumes "nr div 8 < length addr"
  shows "bit_at (snd (ext2fs_set_bit64 nr addr)) n \<longleftrightarrow> n = nr \<or> bit_at addr n"
proof (cases "n div 8 = nr div 8")
  case True
  then have "n = nr \<longleftrightarrow> n mod 8 = nr mod 8" using same_position by metis
  then show ?thesis
    using True assms by (simp add: bit_at_def ext2fs_set_bit64_def Let_def bit_or_iff bit_single) blast
next
  case False
  then show ?thesis by (auto simp: bit_at_def ext2fs_set_bit64_def Let_def)
qed

lemma bit_at_clear:
  assumes "nr div 8 < length addr"
  shows "bit_at (snd (ext2fs_clear_bit64 nr addr)) n \<longleftrightarrow> n \<noteq> nr \<and> bit_at addr n"
proof (cases "n div 8 = nr div 8")
  case True
  then have "n = nr \<longleftrightarrow> n mod 8 = nr mod 8" using same_position by metis
  then show ?thesis
    using True assms by (simp add: bit_at_def ext2fs_clear_bit64_def Let_def bit_and_iff bit_not_iff bit_single) blast
next
  case False
  then show ?thesis by (auto simp: bit_at_def ext2fs_clear_bit64_def Let_def)
qed

lemma length_set_bit64 [simp]: "length (snd (ext2fs_set_bit64 nr addr)) = length addr"
  by (simp add: ext2fs_set_bit64_def Let_def)

lemma length_clear_bit64 [simp]: "length (snd (ext2fs_clear_bit64 nr addr)) = length addr"
  by (simp add: ext2fs_clear_bit64_def Let_def)

lemmas bit64_specs = test_bit64_iff set_bit64_old clear_bit64_old bit_at_set bit_at_clear

lemma byte_zero_iff: "c = 0 \<longleftrightarrow> (\<forall>k < 8. \<not> bit c k)" for c :: u8
proof -
  have "\<not> bit c k" if "8 \<le> k" for k using bit_imp_le_length [of c k] that by auto
  then show ?thesis by (auto simp: bit_eq_iff not_le [symmetric])
qed

lemma byte_full_iff: "c = 0xff \<longleftrightarrow> (\<forall>k < 8. bit c k)" for c :: u8
proof -
  have "(0xff :: u8) = NOT 0" by simp
  then have "c = 0xff \<longleftrightarrow> NOT c = 0" by (metis bit.double_compl)
  then show ?thesis by (simp add: byte_zero_iff bit_not_iff)
qed

section \<open>Bitmaps and their back ends\<close>

text \<open>
  \<open>struct ext2fs_struct_generic_bitmap\<close>; the private part belongs to the back end. The field
  \<open>bitmap_ops\<close> is the argument of the operations of \<open>gen_bitmap64.c\<close>.
\<close>

record 'p bmap =
  bm_start :: blk64
  bm_end :: blk64
  bm_real_end :: blk64
  bm_cluster_bits :: nat
  bm_private :: 'p

text \<open>
  \<open>struct ext2_bitmap_ops\<close>. A boolean argument says whether memory can be allocated, and the last
  argument of \<open>op_get_bmap_range\<close> is the caller's buffer.
\<close>

record 'p bitmap_ops =
  op_new_bmap :: "bool \<Rightarrow> blk64 \<Rightarrow> blk64 \<Rightarrow> errcode + 'p"
  op_copy_bmap :: "bool \<Rightarrow> 'p bmap \<Rightarrow> (errcode + 'p) \<times> 'p bmap"
  op_resize_bmap :: "bool \<Rightarrow> 'p bmap \<Rightarrow> blk64 \<Rightarrow> blk64 \<Rightarrow> errcode \<times> 'p bmap"
  op_mark_bmap :: "'p bmap \<Rightarrow> blk64 \<Rightarrow> bool \<times> 'p bmap"
  op_unmark_bmap :: "'p bmap \<Rightarrow> blk64 \<Rightarrow> bool \<times> 'p bmap"
  op_test_bmap :: "'p bmap \<Rightarrow> blk64 \<Rightarrow> bool \<times> 'p bmap"
  op_mark_bmap_extent :: "'p bmap \<Rightarrow> blk64 \<Rightarrow> nat \<Rightarrow> 'p bmap"
  op_unmark_bmap_extent :: "'p bmap \<Rightarrow> blk64 \<Rightarrow> nat \<Rightarrow> 'p bmap"
  op_test_clear_bmap_extent :: "'p bmap \<Rightarrow> blk64 \<Rightarrow> nat \<Rightarrow> bool"
  op_set_bmap_range :: "'p bmap \<Rightarrow> blk64 \<Rightarrow> nat \<Rightarrow> bytes \<Rightarrow> 'p bmap"
  op_get_bmap_range :: "'p bmap \<Rightarrow> blk64 \<Rightarrow> nat \<Rightarrow> bytes \<Rightarrow> bytes"
  op_clear_bmap :: "'p bmap \<Rightarrow> 'p bmap"
  op_find_first_zero :: "('p bmap \<Rightarrow> blk64 \<Rightarrow> blk64 \<Rightarrow> errcode + blk64) option"

definition same_geometry :: "'p bmap \<Rightarrow> 'p bmap \<Rightarrow> bool" where
  "same_geometry b b' \<longleftrightarrow> bm_start b' = bm_start b \<and> bm_end b' = bm_end b \<and> bm_real_end b' = bm_real_end b \<and>
     bm_cluster_bits b' = bm_cluster_bits b"

lemma same_geometryD:
  "same_geometry b b' \<Longrightarrow> bm_start b' = bm_start b" "same_geometry b b' \<Longrightarrow> bm_end b' = bm_end b"
  "same_geometry b b' \<Longrightarrow> bm_real_end b' = bm_real_end b" "same_geometry b b' \<Longrightarrow> bm_cluster_bits b' = bm_cluster_bits b"
  by (simp_all add: same_geometry_def)

lemma same_geometry_refl [simp]: "same_geometry b b"
  by (simp add: same_geometry_def)

lemma same_geometry_trans: "same_geometry a b \<Longrightarrow> same_geometry b c \<Longrightarrow> same_geometry a c"
  by (simp add: same_geometry_def)

definition in_range :: "'p bmap \<Rightarrow> blk64 \<Rightarrow> bool" where
  "in_range b n \<longleftrightarrow> bm_start b \<le> n \<and> n \<le> bm_real_end b"

definition extent_in_range :: "'p bmap \<Rightarrow> blk64 \<Rightarrow> nat \<Rightarrow> bool" where
  "extent_in_range b n k \<longleftrightarrow> 0 < k \<and> bm_start b \<le> n \<and> n + k - 1 \<le> bm_real_end b"

text \<open>The calls a client makes, and what they answer on a set of numbers.\<close>

datatype bop =
    Mark blk64 | Unmark blk64 | Test blk64 | Mark_extent blk64 nat | Unmark_extent blk64 nat
  | Test_clear blk64 nat | Clear

fun exec :: "'p bitmap_ops \<Rightarrow> bop \<Rightarrow> 'p bmap \<Rightarrow> bool option \<times> 'p bmap" where
  "exec ops (Mark n) b = (let (r, b') = op_mark_bmap ops b n in (Some r, b'))"
| "exec ops (Unmark n) b = (None, snd (op_unmark_bmap ops b n))"
| "exec ops (Test n) b = (let (r, b') = op_test_bmap ops b n in (Some r, b'))"
| "exec ops (Mark_extent n k) b = (None, op_mark_bmap_extent ops b n k)"
| "exec ops (Unmark_extent n k) b = (None, op_unmark_bmap_extent ops b n k)"
| "exec ops (Test_clear n k) b = (Some (op_test_clear_bmap_extent ops b n k), b)"
| "exec ops Clear b = (None, op_clear_bmap ops b)"

fun exec_all :: "'p bitmap_ops \<Rightarrow> bop list \<Rightarrow> 'p bmap \<Rightarrow> bool option list" where
  "exec_all ops [] b = []"
| "exec_all ops (c # cs) b = (let (r, b') = exec ops c b in r # exec_all ops cs b')"

fun spec :: "bop \<Rightarrow> blk64 set \<Rightarrow> bool option \<times> blk64 set" where
  "spec (Mark n) A = (Some (n \<in> A), insert n A)"
| "spec (Unmark n) A = (None, A - {n})"
| "spec (Test n) A = (Some (n \<in> A), A)"
| "spec (Mark_extent n k) A = (None, A \<union> {n..<n + k})"
| "spec (Unmark_extent n k) A = (None, A - {n..<n + k})"
| "spec (Test_clear n k) A = (Some (A \<inter> {n..<n + k} = {}), A)"
| "spec Clear A = (None, {})"

fun spec_all :: "bop list \<Rightarrow> blk64 set \<Rightarrow> bool option list" where
  "spec_all [] A = []"
| "spec_all (c # cs) A = (let (r, A') = spec c A in r # spec_all cs A')"

fun bop_ok :: "'p bmap \<Rightarrow> bop \<Rightarrow> bool" where
  "bop_ok b (Mark n) = in_range b n"
| "bop_ok b (Unmark n) = in_range b n"
| "bop_ok b (Test n) = in_range b n"
| "bop_ok b (Mark_extent n k) = extent_in_range b n k"
| "bop_ok b (Unmark_extent n k) = extent_in_range b n k"
| "bop_ok b (Test_clear n k) = extent_in_range b n k"
| "bop_ok b Clear = True"

lemma bop_ok_geometry: "same_geometry b b' \<Longrightarrow> bop_ok b' c = bop_ok b c"
  by (cases c) (auto simp: same_geometry_def in_range_def extent_in_range_def)

text \<open>The contract of a back end: with its invariant, every call acts on the set it stands for.\<close>

locale bitmap_backend =
  fixes ops :: "'p bitmap_ops"
    and inv :: "'p bmap \<Rightarrow> bool"
    and bits :: "'p bmap \<Rightarrow> blk64 set"
  assumes exec_inv: "inv b \<Longrightarrow> bop_ok b c \<Longrightarrow> inv (snd (exec ops c b))"
    and exec_geometry: "inv b \<Longrightarrow> bop_ok b c \<Longrightarrow> same_geometry b (snd (exec ops c b))"
    and exec_bits: "inv b \<Longrightarrow> bop_ok b c \<Longrightarrow> bits (snd (exec ops c b)) = snd (spec c (bits b))"
    and exec_result: "inv b \<Longrightarrow> bop_ok b c \<Longrightarrow> fst (exec ops c b) = fst (spec c (bits b))"
begin

lemma exec_all_spec:
  assumes "inv b" "list_all (bop_ok b) cs"
  shows "exec_all ops cs b = spec_all cs (bits b)"
  using assms
proof (induction cs arbitrary: b)
  case (Cons c cs)
  let ?b = "snd (exec ops c b)"
  have ok: "bop_ok b c" using Cons.prems by simp
  have "list_all (bop_ok ?b) cs"
    using Cons.prems bop_ok_geometry [OF exec_geometry [OF Cons.prems(1) ok]] by (simp add: list_all_iff)
  then have "exec_all ops cs ?b = spec_all cs (snd (spec c (bits b)))"
    using Cons.IH exec_inv exec_bits Cons.prems(1) ok by metis
  then show ?case using exec_result [OF Cons.prems(1) ok] by (simp add: Let_def split_beta)
qed simp

lemma test_result: "inv b \<Longrightarrow> in_range b n \<Longrightarrow> fst (op_test_bmap ops b n) = (n \<in> bits b)"
  using exec_result [of b "Test n"] by (simp add: Let_def split_beta)

lemma test_keeps:
  assumes "inv b" "in_range b n"
  shows "inv (snd (op_test_bmap ops b n))" "bits (snd (op_test_bmap ops b n)) = bits b"
    "same_geometry b (snd (op_test_bmap ops b n))"
  using exec_inv [of b "Test n"] exec_bits [of b "Test n"] exec_geometry [of b "Test n"] assms
  by (simp_all add: Let_def split_beta)

lemma mark_result:
  assumes "inv b" "in_range b n"
  shows "fst (op_mark_bmap ops b n) = (n \<in> bits b)" "bits (snd (op_mark_bmap ops b n)) = insert n (bits b)"
    "inv (snd (op_mark_bmap ops b n))" "same_geometry b (snd (op_mark_bmap ops b n))"
  using exec_result [of b "Mark n"] exec_inv [of b "Mark n"] exec_bits [of b "Mark n"] exec_geometry [of b "Mark n"] assms
  by (simp_all add: Let_def split_beta)

end

end
