(* ===== verification/Blkmap_Ba.thy ===== *)
theory Blkmap_Ba
  imports Bitops
begin

text \<open>
  The bit array back end of the 64-bit bitmaps, \<open>external/e2fsprogs/lib/ext2fs/blkmap64_ba.c\<close>, and
  \<open>ext2fs_mem_is_zero\<close> of \<open>gen_bitmap.c\<close>. The lemmas show that the byte-wise test of an extent and
  the word-wise search for a zero bit agree with the bit-wise definitions, and that the table of
  operations satisfies the contract of a back end.
\<close>

section \<open>Operations\<close>

definition ba_size :: "blk64 \<Rightarrow> blk64 \<Rightarrow> nat" where
  "ba_size start real_end = sub64 real_end start div 8 + 1"

definition ba_new_bmap :: "bool \<Rightarrow> blk64 \<Rightarrow> blk64 \<Rightarrow> errcode + bytes" where
  "ba_new_bmap mem start real_end =
     (if \<not> mem then Inl EXT2_ET_NO_MEMORY else Inr (replicate (ba_size start real_end) 0))"

definition ba_copy_bmap :: "bool \<Rightarrow> bytes bmap \<Rightarrow> (errcode + bytes) \<times> bytes bmap" where
  "ba_copy_bmap mem src =
     (if \<not> mem then Inl EXT2_ET_NO_MEMORY
      else Inr (take (ba_size (bm_start src) (bm_real_end src)) (bm_private src)), src)"

text \<open>The loop that clears the bits from \<open>bitno\<close> down to the old end.\<close>

fun clear_down :: "nat \<Rightarrow> blk64 \<Rightarrow> blk64 \<Rightarrow> bytes \<Rightarrow> bytes" where
  "clear_down 0 old_end start a = a"
| "clear_down (Suc bitno) old_end start a =
     (if old_end < Suc bitno
      then clear_down bitno old_end start (snd (ext2fs_clear_bit64 (sub64 (Suc bitno) start) a)) else a)"

definition ba_resize_bmap :: "bool \<Rightarrow> bytes bmap \<Rightarrow> blk64 \<Rightarrow> blk64 \<Rightarrow> errcode \<times> bytes bmap" where
  "ba_resize_bmap mem b new_end new_real_end =
     (let b = (if bm_end b < new_end
               then b\<lparr>bm_private := clear_down (min (bm_real_end b) new_end) (bm_end b) (bm_start b) (bm_private b)\<rparr>
               else b)
      in if new_real_end = bm_real_end b then (Success, b\<lparr>bm_end := new_end\<rparr>)
         else
           let size = ba_size (bm_start b) (bm_real_end b);
               new_size = ba_size (bm_start b) new_real_end
           in if size \<noteq> new_size \<and> \<not> mem then (EXT2_ET_NO_MEMORY, b)
              else (Success, b\<lparr>bm_end := new_end, bm_real_end := new_real_end,
                               bm_private := take new_size (bm_private b) @ replicate (new_size - size) 0\<rparr>))"

definition ba_mark_bmap :: "bytes bmap \<Rightarrow> blk64 \<Rightarrow> bool \<times> bytes bmap" where
  "ba_mark_bmap b arg =
     (let (r, a) = ext2fs_set_bit64 (sub64 arg (bm_start b)) (bm_private b) in (r \<noteq> 0, b\<lparr>bm_private := a\<rparr>))"

definition ba_unmark_bmap :: "bytes bmap \<Rightarrow> blk64 \<Rightarrow> bool \<times> bytes bmap" where
  "ba_unmark_bmap b arg =
     (let (r, a) = ext2fs_clear_bit64 (sub64 arg (bm_start b)) (bm_private b) in (r \<noteq> 0, b\<lparr>bm_private := a\<rparr>))"

definition ba_test_bmap :: "bytes bmap \<Rightarrow> blk64 \<Rightarrow> bool \<times> bytes bmap" where
  "ba_test_bmap b arg = (ext2fs_test_bit64 (sub64 arg (bm_start b)) (bm_private b) \<noteq> 0, b)"

definition ba_mark_bmap_extent :: "bytes bmap \<Rightarrow> blk64 \<Rightarrow> nat \<Rightarrow> bytes bmap" where
  "ba_mark_bmap_extent b arg num =
     b\<lparr>bm_private := fold (\<lambda>i a. snd (ext2fs_set_bit64 (sub64 (add64 arg i) (bm_start b)) a)) [0..<num] (bm_private b)\<rparr>"

definition ba_unmark_bmap_extent :: "bytes bmap \<Rightarrow> blk64 \<Rightarrow> nat \<Rightarrow> bytes bmap" where
  "ba_unmark_bmap_extent b arg num =
     b\<lparr>bm_private := fold (\<lambda>i a. snd (ext2fs_clear_bit64 (sub64 (add64 arg i) (bm_start b)) a)) [0..<num] (bm_private b)\<rparr>"

text \<open>\<open>ext2fs_mem_is_zero\<close>: memory compared with a zero buffer of 256 bytes.\<close>

function ext2fs_mem_is_zero :: "bytes \<Rightarrow> nat \<Rightarrow> bool" where
  "ext2fs_mem_is_zero m len =
     (if 256 \<le> len then
        if take 256 m \<noteq> replicate 256 0 then False
        else ext2fs_mem_is_zero (drop 256 m) (len - 256)
      else if len \<noteq> 0 then take len m = replicate len 0 else True)"
  by pat_completeness auto
termination by (relation "measure (\<lambda>(m, len). len)") auto

declare ext2fs_mem_is_zero.simps [simp del]

text \<open>The loops that collect \<open>count\<close> bits in a mask, from \<open>bit\<close> downwards.\<close>

fun or_down :: "nat \<Rightarrow> nat \<Rightarrow> u8 \<Rightarrow> u8" where
  "or_down 0 mark_bit acc = acc"
| "or_down (Suc count) mark_bit acc = or_down count (mark_bit - 1) (acc OR push_bit mark_bit 1)"

text \<open>The second half of \<open>ba_test_clear_bmap_extent\<close>, from the first bit of a byte on.\<close>

definition test_clear_tail :: "bytes \<Rightarrow> nat \<Rightarrow> nat \<Rightarrow> nat \<Rightarrow> bool" where
  "test_clear_tail a start_byte len_bit len_byte =
     (if len_bit \<noteq> 0 then
        if or_down len_bit (len_bit - 1) 0 AND a ! (start_byte + len_byte) \<noteq> 0 then False
        else if len_byte = 0 then True
        else ext2fs_mem_is_zero (drop start_byte a) len_byte
      else ext2fs_mem_is_zero (drop start_byte a) len_byte)"

definition ba_test_clear_bmap_extent :: "bytes bmap \<Rightarrow> blk64 \<Rightarrow> nat \<Rightarrow> bool" where
  "ba_test_clear_bmap_extent b start len =
     (let a = bm_private b;
          start = sub64 start (bm_start b);
          start_byte = start div 8;
          start_bit = start mod 8
      in if start_bit \<noteq> 0 then
           let (mark_count, mark_bit) =
                 (if len < 8 - start_bit then (len, len + start_bit - 1) else (8 - start_bit, 7))
           in if or_down mark_count mark_bit 0 AND a ! start_byte \<noteq> 0 then False
              else if len \<le> 8 - start_bit then True
              else test_clear_tail a (start_byte + 1) ((len - mark_count) mod 8) ((len - mark_count) div 8)
         else test_clear_tail a start_byte (len mod 8) (len div 8))"

definition ba_set_bmap_range :: "bytes bmap \<Rightarrow> blk64 \<Rightarrow> nat \<Rightarrow> bytes \<Rightarrow> bytes bmap" where
  "ba_set_bmap_range b start num inp =
     b\<lparr>bm_private := splice (bm_private b) (start div 8) (take ((num + 7) div 8) inp)\<rparr>"

definition ba_get_bmap_range :: "bytes bmap \<Rightarrow> blk64 \<Rightarrow> nat \<Rightarrow> bytes \<Rightarrow> bytes" where
  "ba_get_bmap_range b start num out =
     splice out 0 (take ((num + 7) div 8) (drop (start div 8) (bm_private b)))"

definition ba_clear_bmap :: "bytes bmap \<Rightarrow> bytes bmap" where
  "ba_clear_bmap b =
     b\<lparr>bm_private := splice (bm_private b) 0 (replicate (ba_size (bm_start b) (bm_real_end b)) 0)\<rparr>"

section \<open>Searching for a zero bit\<close>

text \<open>The loops that test single bits: the first to a byte boundary, the last for what is left.\<close>

fun scan_to_byte :: "bytes \<Rightarrow> nat \<Rightarrow> nat \<Rightarrow> nat + nat \<times> nat" where
  "scan_to_byte a bitpos 0 = Inr (bitpos, 0)"
| "scan_to_byte a bitpos (Suc count) =
     (if bitpos mod 8 = 0 then Inr (bitpos, Suc count)
      else if ext2fs_test_bit64 bitpos a = 0 then Inl bitpos
      else scan_to_byte a (bitpos + 1) count)"

fun scan_bits :: "bytes \<Rightarrow> nat \<Rightarrow> nat \<Rightarrow> nat option" where
  "scan_bits a bitpos 0 = None"
| "scan_bits a bitpos (Suc count) =
     (if ext2fs_test_bit64 bitpos a = 0 then Some bitpos else scan_bits a (bitpos + 1) count)"

text \<open>
  Whole bytes up to an 8-byte boundary of the address; \<open>base\<close> is the address of the array. The
  result has the flag \<open>byte_found\<close>.
\<close>

function scan_align :: "nat \<Rightarrow> bytes \<Rightarrow> nat \<Rightarrow> nat \<Rightarrow> bool \<times> nat \<times> nat" where
  "scan_align base a bitpos count =
     (if 8 \<le> count \<and> (base + bitpos div 8) mod 8 \<noteq> 0 then
        if a ! (bitpos div 8) \<noteq> 0xff then (True, bitpos, count)
        else scan_align base a (bitpos + 8) (count - 8)
      else (False, bitpos, count))"
  by pat_completeness auto
termination by (relation "measure (\<lambda>(base, a, bitpos, count). count)") auto

declare scan_align.simps [simp del]

text \<open>Then \<open>i\<close> blocks of 8 bytes: what is left of \<open>i\<close>; and the same for single bytes.\<close>

fun scan_words :: "bytes \<Rightarrow> nat \<Rightarrow> nat \<Rightarrow> nat" where
  "scan_words a pos 0 = 0"
| "scan_words a pos (Suc i) =
     (if take 8 (drop pos a) \<noteq> replicate 8 0xff then Suc i else scan_words a (pos + 8) i)"

fun scan_bytes :: "bytes \<Rightarrow> nat \<Rightarrow> nat \<Rightarrow> nat" where
  "scan_bytes a pos 0 = 0"
| "scan_bytes a pos (Suc i) = (if a ! pos \<noteq> 0xff then Suc i else scan_bytes a (pos + 1) i)"

definition scan_blocks :: "bytes \<Rightarrow> nat \<Rightarrow> nat \<Rightarrow> nat \<times> nat" where
  "scan_blocks a bitpos count =
     (let n = count div 64; i = scan_words a (bitpos div 8) n;
          count = count - 64 * (n - i); bitpos = bitpos + 64 * (n - i);
          n = count div 8; i = scan_bytes a (bitpos div 8) n
      in (bitpos + 8 * (n - i), count - 8 * (n - i)))"

definition ba_find_first_zero :: "nat \<Rightarrow> bytes bmap \<Rightarrow> blk64 \<Rightarrow> blk64 \<Rightarrow> errcode + blk64" where
  "ba_find_first_zero base b start last_blk =
     (let a = bm_private b
      in if start < bm_start b \<or> bm_end b < last_blk \<or> last_blk < start then Inl EINVAL
         else if bm_cluster_bits b \<noteq> 0 then Inl EINVAL
         else case scan_to_byte a (sub64 start (bm_start b)) (add64 (sub64 last_blk start) 1) of
           Inl bitpos \<Rightarrow> Inr (add64 bitpos (bm_start b))
         | Inr (bitpos, count) \<Rightarrow>
             if count = 0 then Inl ENOENT
             else
               let (byte_found, bitpos, count) = scan_align base a bitpos count;
                   (bitpos, count) = (if byte_found then (bitpos, count) else scan_blocks a bitpos count)
               in case scan_bits a bitpos count of
                    None \<Rightarrow> Inl ENOENT
                  | Some bitpos \<Rightarrow> Inr (add64 bitpos (bm_start b)))"

definition ext2fs_blkmap64_bitarray :: "nat \<Rightarrow> bytes bitmap_ops" where
  "ext2fs_blkmap64_bitarray base =
     \<lparr>op_new_bmap = ba_new_bmap, op_copy_bmap = ba_copy_bmap, op_resize_bmap = ba_resize_bmap,
      op_mark_bmap = ba_mark_bmap, op_unmark_bmap = ba_unmark_bmap, op_test_bmap = ba_test_bmap,
      op_mark_bmap_extent = ba_mark_bmap_extent, op_unmark_bmap_extent = ba_unmark_bmap_extent,
      op_test_clear_bmap_extent = ba_test_clear_bmap_extent,
      op_set_bmap_range = ba_set_bmap_range, op_get_bmap_range = ba_get_bmap_range,
      op_clear_bmap = ba_clear_bmap, op_find_first_zero = Some (ba_find_first_zero base)\<rparr>"

section \<open>Masks and bytes\<close>

lemma or_down_bit:
  assumes "count \<le> Suc mark_bit" "n < 8" "mark_bit < 8"
  shows "bit (or_down count mark_bit acc) n \<longleftrightarrow> bit acc n \<or> (Suc mark_bit - count \<le> n \<and> n \<le> mark_bit \<and> 0 < count)"
  using assms
proof (induction count mark_bit acc rule: or_down.induct)
  case (2 count mark_bit acc)
  then have "bit (or_down count (mark_bit - 1) (acc OR push_bit mark_bit 1)) n \<longleftrightarrow>
      bit (acc OR 2 ^ mark_bit) n \<or> (Suc (mark_bit - 1) - count \<le> n \<and> n \<le> mark_bit - 1 \<and> 0 < count)"
    by (cases "mark_bit = 0") auto
  then show ?case using 2 by (auto simp: bit_or_iff bit_single)
qed simp

lemma mask_clear:
  assumes "count \<le> Suc mark_bit" "mark_bit < 8"
  shows "or_down count mark_bit 0 AND c = 0 \<longleftrightarrow> (\<forall>n. Suc mark_bit - count \<le> n \<and> n \<le> mark_bit \<and> 0 < count \<longrightarrow> \<not> bit c n)"
  using assms by (auto simp: byte_zero_iff bit_and_iff or_down_bit)

lemma split_all_less: "k \<le> n \<Longrightarrow> (\<forall>i < n. P i) \<longleftrightarrow> (\<forall>i < k. P i) \<and> (\<forall>i < n - k. P (k + i))" for n :: nat
proof (intro iffI conjI allI impI)
  fix i assume "k \<le> n" "(\<forall>i < k. P i) \<and> (\<forall>i < n - k. P (k + i))" "i < n"
  then show "P i" by (cases "i < k") (auto dest: spec [of _ "i - k"])
qed auto

lemma mem_is_zero_iff:
  "len \<le> length m \<Longrightarrow> ext2fs_mem_is_zero m len \<longleftrightarrow> (\<forall>i < len. m ! i = 0)"
proof (induction m len rule: ext2fs_mem_is_zero.induct)
  case (1 m len)
  have short: "take k m = replicate k 0 \<longleftrightarrow> (\<forall>i < k. m ! i = 0)" if "k \<le> len" for k
    using that 1(2) by (auto simp: list_eq_iff_nth_eq)
  show ?case
  proof (cases "256 \<le> len")
    case True
    have "(\<forall>i < len. m ! i = 0) \<longleftrightarrow> (\<forall>i < 256. m ! i = 0) \<and> (\<forall>i < len - 256. m ! (256 + i) = 0)"
      using True split_all_less [of 256 len "\<lambda>i. m ! i = 0"] by simp
    then show ?thesis
      using 1 True short [of 256] ext2fs_mem_is_zero.simps [of m len] by (auto simp: add.commute)
  next
    case False
    then show ?thesis using short [of len] ext2fs_mem_is_zero.simps [of m len] by auto
  qed
qed

section \<open>Testing an extent\<close>

definition bits_clear :: "bytes \<Rightarrow> nat \<Rightarrow> nat \<Rightarrow> bool" where
  "bits_clear a pos len \<longleftrightarrow> (\<forall>i < len. \<not> bit_at a (pos + i))"

lemma bits_clear_append: "bits_clear a pos (m + n) \<longleftrightarrow> bits_clear a pos m \<and> bits_clear a (pos + m) n"
  unfolding bits_clear_def using split_all_less [of m "m + n" "\<lambda>i. \<not> bit_at a (pos + i)"] by (simp add: add.assoc)

lemma bits_clear_in_byte:
  assumes "k + len \<le> 8"
  shows "bits_clear a (8 * q + k) len \<longleftrightarrow> (\<forall>n. k \<le> n \<and> n < k + len \<longrightarrow> \<not> bit (a ! q) n)"
proof -
  have "bit_at a (8 * q + k + i) = bit (a ! q) (k + i)" if "i < len" for i
    using assms that by (simp add: bit_at_def add.assoc)
  then have "bits_clear a (8 * q + k) len \<longleftrightarrow> (\<forall>i < len. \<not> bit (a ! q) (k + i))" by (simp add: bits_clear_def)
  also have "\<dots> \<longleftrightarrow> (\<forall>n. k \<le> n \<and> n < k + len \<longrightarrow> \<not> bit (a ! q) n)"
    by (metis add_less_cancel_left le_add1 le_iff_add)
  finally show ?thesis .
qed

lemma mask_bits_clear:
  assumes "k + len \<le> 8"
  shows "or_down len (k + len - 1) 0 AND a ! q = 0 \<longleftrightarrow> bits_clear a (8 * q + k) len"
proof -
  have "(Suc (k + len - 1) - len \<le> n \<and> n \<le> k + len - 1 \<and> 0 < len) = (k \<le> n \<and> n < k + len)" for n
    by (cases len) auto
  then show ?thesis
    using assms by (simp only: bits_clear_in_byte [OF assms]) (subst mask_clear, auto)
qed

lemma bits_clear_bytes: "bits_clear a (8 * q) (8 * n) \<longleftrightarrow> (\<forall>i < n. a ! (q + i) = 0)"
proof (induction n)
  case (Suc n)
  have "bits_clear a (8 * q) (8 * Suc n) \<longleftrightarrow> bits_clear a (8 * q) (8 * n) \<and> bits_clear a (8 * (q + n) + 0) 8"
    using bits_clear_append [of a "8 * q" "8 * n" 8] by (simp add: algebra_simps)
  also have "bits_clear a (8 * (q + n) + 0) 8 \<longleftrightarrow> a ! (q + n) = 0"
    by (subst bits_clear_in_byte) (auto simp: byte_zero_iff)
  finally show ?case using Suc by (auto simp: less_Suc_eq)
qed (simp add: bits_clear_def)

lemma test_clear_tail_iff:
  assumes "len_bit < 8" "start_byte + len_byte + (if len_bit = 0 then 0 else 1) \<le> length a"
  shows "test_clear_tail a start_byte len_bit len_byte \<longleftrightarrow> bits_clear a (8 * start_byte) (8 * len_byte + len_bit)"
proof -
  have "ext2fs_mem_is_zero (drop start_byte a) len_byte \<longleftrightarrow> bits_clear a (8 * start_byte) (8 * len_byte)"
    using assms(2) by (subst mem_is_zero_iff) (auto simp: bits_clear_bytes)
  moreover have "or_down len_bit (len_bit - 1) 0 AND a ! (start_byte + len_byte) = 0 \<longleftrightarrow>
      bits_clear a (8 * (start_byte + len_byte) + 0) len_bit" if "len_bit \<noteq> 0"
    using assms(1) mask_bits_clear [of 0 len_bit a "start_byte + len_byte"] by simp
  ultimately show ?thesis
    unfolding test_clear_tail_def bits_clear_append
    by (cases "len_bit = 0"; cases "len_byte = 0") (auto simp: bits_clear_def algebra_simps)
qed

lemma bytes_needed: "8 * q + n \<le> 8 * l \<Longrightarrow> q + n div 8 + (if n mod 8 = 0 then 0 else 1) \<le> l" for n :: nat
  by presburger

lemma test_clear_iff:
  assumes "bm_start b \<le> start" "start < 2 ^ 64" "start - bm_start b + len \<le> 8 * length (bm_private b)"
  shows "ba_test_clear_bmap_extent b start len \<longleftrightarrow> bits_clear (bm_private b) (start - bm_start b) len"
proof -
  let ?a = "bm_private b"
  define s where "s = start - bm_start b"
  define q k where "q = s div 8" and "k = s mod 8"
  have s: "sub64 start (bm_start b) = s" "s = 8 * q + k" "k < 8" using assms by (simp_all add: s_def q_def k_def)
  have len: "s + len \<le> 8 * length ?a" using assms(3) by (simp add: s_def)
  note unfolded = ba_test_clear_bmap_extent_def [of b start len, unfolded s(1) Let_def, folded q_def k_def]
  show ?thesis
  proof (cases "k = 0")
    case True
    have "bits_clear ?a s len = bits_clear ?a (8 * q) (8 * (len div 8) + len mod 8)" using s True by simp
    moreover have "test_clear_tail ?a q (len mod 8) (len div 8) = \<dots>"
      using len s(2) True bytes_needed [of q len "length ?a"] by (intro test_clear_tail_iff) auto
    ultimately show ?thesis using True unfolded s_def by simp
  next
    case False
    show ?thesis
    proof (cases "len < 8 - k")
      case short: True
      have "(or_down len (len + k - 1) 0 AND ?a ! q = 0) = bits_clear ?a (8 * q + k) len"
        using short mask_bits_clear [of k len ?a q] by (simp add: add.commute)
      then show ?thesis using unfolded False short s(2) by (simp add: s_def)
    next
      case long: False
      let ?m = "8 - k"
      let ?r = "len - ?m"
      have first: "(or_down ?m 7 0 AND ?a ! q = 0) = bits_clear ?a (8 * q + k) ?m"
        using s(3) mask_bits_clear [of k ?m ?a q] by simp
      have after: "s + ?m = 8 * (q + 1)" "len = ?m + ?r" using s(2,3) long by simp_all
      then have "test_clear_tail ?a (q + 1) (?r mod 8) (?r div 8) = bits_clear ?a (8 * (q + 1)) (8 * (?r div 8) + ?r mod 8)"
        using len bytes_needed [of "q + 1" ?r "length ?a"] by (intro test_clear_tail_iff) simp_all
      moreover have "bits_clear ?a s len \<longleftrightarrow> bits_clear ?a (8 * q + k) ?m \<and> bits_clear ?a (8 * (q + 1)) ?r"
        using bits_clear_append [of ?a s ?m ?r] after s(2) by (simp only:)
      ultimately show ?thesis
        using unfolded False long first by (cases "len = ?m") (auto simp: s_def bits_clear_def)
    qed
  qed
qed

section \<open>The search agrees with a bit-wise scan\<close>

lemma test_bit64_zero: "ext2fs_test_bit64 n a = 0 \<longleftrightarrow> \<not> bit_at a n"
  using test_bit64_iff [of n a] by blast

lemma scan_bits_skip: "\<forall>i < k. bit_at a (pos + i) \<Longrightarrow> k \<le> n \<Longrightarrow> scan_bits a pos n = scan_bits a (pos + k) (n - k)"
proof (induction k arbitrary: pos n)
  case (Suc k)
  obtain m where n: "n = Suc m" using Suc.prems(2) by (cases n) auto
  have set: "bit_at a pos" using Suc.prems(1) by (auto dest: spec [of _ 0])
  have "\<forall>i < k. bit_at a (Suc pos + i)" using Suc.prems(1) by (metis Suc_mono add_Suc_shift)
  then show ?case using Suc.IH [of "Suc pos" m] Suc.prems(2) set n by (simp add: test_bit64_zero)
qed simp

lemma scan_to_byte_ok:
  "case scan_to_byte a pos n of
     Inl p \<Rightarrow> scan_bits a pos n = Some p
   | Inr (p, c) \<Rightarrow> scan_bits a pos n = scan_bits a p c \<and> (c \<noteq> 0 \<longrightarrow> p mod 8 = 0)"
  by (induction a pos n rule: scan_to_byte.induct) (auto split: sum.splits)

lemma full_byte: "a ! q = 0xff \<longleftrightarrow> (\<forall>i < 8. bit_at a (8 * q + i))"
  by (simp add: byte_full_iff bit_at_def)

lemma scan_align_ok:
  "pos mod 8 = 0 \<Longrightarrow>
   (case scan_align base a pos n of (f, p, c) \<Rightarrow> scan_bits a pos n = scan_bits a p c \<and> p mod 8 = 0)"
proof (induction base a pos n rule: scan_align.induct)
  case (1 base a pos n)
  show ?case
  proof (cases "8 \<le> n \<and> (base + pos div 8) mod 8 \<noteq> 0 \<and> a ! (pos div 8) = 0xff")
    case True
    have pos: "8 * (pos div 8) = pos" using "1.prems" by auto
    have "\<forall>i < 8. bit_at a (pos + i)" using True full_byte [of a "pos div 8"] pos by simp
    then have "scan_bits a pos n = scan_bits a (pos + 8) (n - 8)" using True by (intro scan_bits_skip) auto
    moreover have "(pos + 8) mod 8 = 0" using "1.prems" by simp
    moreover have "scan_align base a pos n = scan_align base a (pos + 8) (n - 8)"
      using True by (subst scan_align.simps) simp
    ultimately show ?thesis using "1.IH" True by simp
  next
    case False
    then show ?thesis using "1.prems" by (subst scan_align.simps) auto
  qed
qed

lemma full_words: "take 8 (drop q a) = replicate 8 0xff \<Longrightarrow> \<forall>i < 64. bit_at a (8 * q + i)"
proof safe
  fix i :: nat
  assume full: "take 8 (drop q a) = replicate 8 0xff" and i: "i < 64"
  have k: "i div 8 < 8" using i by simp
  have "length (take 8 (drop q a)) = 8" using full by simp
  then have len: "q + 8 \<le> length a" by simp
  have "a ! (q + i div 8) = take 8 (drop q a) ! (i div 8)" using len k by simp
  also have "\<dots> = 0xff" using full k by simp
  finally have "\<forall>j < 8. bit_at a (8 * (q + i div 8) + j)" by (simp only: full_byte)
  then have "bit_at a (8 * (q + i div 8) + i mod 8)" by (rule allE [of _ "i mod 8"]) (simp only: mod_less_divisor zero_less_numeral)
  moreover have "8 * (q + i div 8) + i mod 8 = 8 * q + i" by (simp add: algebra_simps)
  ultimately show "bit_at a (8 * q + i)" by (simp only:)
qed

lemma scan_words_ok:
  "scan_words a q n \<le> n \<and> (\<forall>i < 64 * (n - scan_words a q n). bit_at a (8 * q + i))"
proof (induction a q n rule: scan_words.induct)
  case (2 a q n)
  show ?case
  proof (cases "take 8 (drop q a) = replicate 8 0xff")
    case True
    let ?r = "scan_words a (q + 8) n"
    have "\<forall>i < 64 * (n - ?r). bit_at a (8 * q + 64 + i)" using 2 True by (simp add: algebra_simps)
    moreover have "64 * (Suc n - ?r) = 64 + 64 * (n - ?r)" using 2 True by (simp add: Suc_diff_le)
    ultimately show ?thesis
      using True 2 full_words [OF True] split_all_less [of 64 "64 * (Suc n - ?r)" "\<lambda>i. bit_at a (8 * q + i)"]
      by (simp add: add.assoc)
  qed simp
qed simp

lemma scan_bytes_ok:
  "scan_bytes a q n \<le> n \<and> (\<forall>i < 8 * (n - scan_bytes a q n). bit_at a (8 * q + i))"
proof (induction a q n rule: scan_bytes.induct)
  case (2 a q n)
  show ?case
  proof (cases "a ! q = 0xff")
    case True
    let ?r = "scan_bytes a (q + 1) n"
    have "\<forall>i < 8 * (n - ?r). bit_at a (8 * q + 8 + i)" using 2 True by (simp add: algebra_simps)
    moreover have "8 * (Suc n - ?r) = 8 + 8 * (n - ?r)" using 2 True by (simp add: Suc_diff_le)
    ultimately show ?thesis
      using True 2 full_byte [of a q] split_all_less [of 8 "8 * (Suc n - ?r)" "\<lambda>i. bit_at a (8 * q + i)"]
      by (simp add: add.assoc)
  qed simp
qed simp

lemma scan_blocks_ok:
  assumes "pos mod 8 = 0"
  shows "case scan_blocks a pos n of (p, c) \<Rightarrow> scan_bits a pos n = scan_bits a p c"
proof -
  define i where "i = scan_words a (pos div 8) (n div 64)"
  define p where "p = pos + 64 * (n div 64 - i)"
  define c where "c = n - 64 * (n div 64 - i)"
  define k where "k = scan_bytes a (p div 8) (c div 8)"
  have pos: "8 * (pos div 8) = pos" using assms by auto
  have p: "8 * (p div 8) = p" using assms unfolding p_def by presburger
  have "scan_bits a pos n = scan_bits a p c"
    unfolding p_def c_def using scan_words_ok [of a "pos div 8" "n div 64"] pos
    by (intro scan_bits_skip) (auto simp: i_def)
  also have "\<dots> = scan_bits a (p + 8 * (c div 8 - k)) (c - 8 * (c div 8 - k))"
    using scan_bytes_ok [of a "p div 8" "c div 8"] p by (intro scan_bits_skip) (auto simp: k_def)
  finally show ?thesis unfolding scan_blocks_def Let_def i_def [symmetric] p_def [symmetric] c_def [symmetric] k_def [symmetric] by simp
qed

lemma find_first_zero_scan:
  assumes "bm_start b \<le> s" "e \<le> bm_end b" "s \<le> e" "bm_cluster_bits b = 0" "bm_end b < 2 ^ 63"
  shows "ba_find_first_zero base b s e =
    (case scan_bits (bm_private b) (s - bm_start b) (e - s + 1) of
       None \<Rightarrow> Inl ENOENT | Some p \<Rightarrow> Inr (add64 p (bm_start b)))"
proof -
  let ?a = "bm_private b"
  have args: "sub64 s (bm_start b) = s - bm_start b" "add64 (sub64 e s) 1 = e - s + 1" using assms by simp_all
  note step = ba_find_first_zero_def [of base b s e, unfolded args Let_def]
  show ?thesis
  proof (cases "scan_to_byte ?a (s - bm_start b) (e - s + 1)")
    case (Inl p)
    then show ?thesis using scan_to_byte_ok [of ?a "s - bm_start b" "e - s + 1"] step assms by simp
  next
    case (Inr r)
    obtain p c where r: "r = (p, c)" by (cases r)
    obtain f p2 c2 where al: "scan_align base ?a p c = (f, p2, c2)" by (cases "scan_align base ?a p c")
    obtain p3 c3 where bl: "scan_blocks ?a p2 c2 = (p3, c3)" by (cases "scan_blocks ?a p2 c2")
    have 1: "scan_bits ?a (s - bm_start b) (e - s + 1) = scan_bits ?a p c" "c \<noteq> 0 \<Longrightarrow> p mod 8 = 0"
      using scan_to_byte_ok [of ?a "s - bm_start b" "e - s + 1"] Inr r by auto
    have 2: "c \<noteq> 0 \<Longrightarrow> scan_bits ?a p c = scan_bits ?a p2 c2 \<and> p2 mod 8 = 0"
      using scan_align_ok [of p ?a c base] 1(2) al by auto
    have 3: "c \<noteq> 0 \<Longrightarrow> scan_bits ?a p2 c2 = scan_bits ?a p3 c3" using scan_blocks_ok [of p2 ?a c2] 2 bl by auto
    show ?thesis using step assms Inr r al bl 1 2 3 by (cases "c = 0"; cases f) (simp_all split: option.split)
  qed
qed

section \<open>The contract\<close>

definition ba_inv :: "bytes bmap \<Rightarrow> bool" where
  "ba_inv b \<longleftrightarrow> bm_start b \<le> bm_end b \<and> bm_end b \<le> bm_real_end b \<and> bm_real_end b < 2 ^ 63 \<and>
     length (bm_private b) = ba_size (bm_start b) (bm_real_end b)"

definition ba_bits :: "bytes bmap \<Rightarrow> blk64 set" where
  "ba_bits b = {n. in_range b n \<and> bit_at (bm_private b) (n - bm_start b)}"

lemma ba_position:
  assumes "ba_inv b" "in_range b n"
  shows "sub64 n (bm_start b) = n - bm_start b" "(n - bm_start b) div 8 < length (bm_private b)"
  using assms by (auto simp: ba_inv_def in_range_def ba_size_def intro!: le_imp_less_Suc div_le_mono diff_le_mono)

lemma ba_extent:
  assumes "ba_inv b" "extent_in_range b n k" "i < k"
  shows "sub64 (add64 n i) (bm_start b) = n + i - bm_start b" "in_range b (n + i)"
  using assms by (auto simp: ba_inv_def extent_in_range_def in_range_def)

lemma fold_set_bits:
  assumes "\<forall>i < m. f i = q + i \<and> (q + i) div 8 < length a"
  shows "length (fold (\<lambda>i a. snd (ext2fs_set_bit64 (f i) a)) [0..<m] a) = length a \<and>
    (\<forall>p. bit_at (fold (\<lambda>i a. snd (ext2fs_set_bit64 (f i) a)) [0..<m] a) p \<longleftrightarrow> (q \<le> p \<and> p < q + m) \<or> bit_at a p)"
  using assms by (induction m) (auto simp: bit_at_set)

lemma fold_clear_bits:
  assumes "\<forall>i < m. f i = q + i \<and> (q + i) div 8 < length a"
  shows "length (fold (\<lambda>i a. snd (ext2fs_clear_bit64 (f i) a)) [0..<m] a) = length a \<and>
    (\<forall>p. bit_at (fold (\<lambda>i a. snd (ext2fs_clear_bit64 (f i) a)) [0..<m] a) p \<longleftrightarrow> \<not> (q \<le> p \<and> p < q + m) \<and> bit_at a p)"
  using assms by (induction m) (auto simp: bit_at_clear)

lemma ba_extent_positions:
  assumes "ba_inv b" "extent_in_range b n k"
  shows "\<forall>i < k. sub64 (add64 n i) (bm_start b) = n - bm_start b + i \<and> (n - bm_start b + i) div 8 < length (bm_private b)"
proof safe
  fix i assume i: "i < k"
  have "bm_start b \<le> n" using assms(2) by (simp add: extent_in_range_def)
  then have shift: "n + i - bm_start b = n - bm_start b + i" by simp
  show "sub64 (add64 n i) (bm_start b) = n - bm_start b + i"
    using ba_extent(1) [OF assms i] shift by simp
  show "(n - bm_start b + i) div 8 < length (bm_private b)"
    using ba_position(2) [OF assms(1) ba_extent(2) [OF assms i]] shift by simp
qed

lemmas ba_extent_set = fold_set_bits [OF ba_extent_positions]
lemmas ba_extent_clear = fold_clear_bits [OF ba_extent_positions]

lemma extent_shift:
  "extent_in_range b n k \<Longrightarrow> in_range b m \<Longrightarrow>
   (n - bm_start b \<le> m - bm_start b \<and> m - bm_start b < n - bm_start b + k) \<longleftrightarrow> m \<in> {n..<n + k}"
  by (auto simp: extent_in_range_def in_range_def)

lemma extent_in_range_elem: "extent_in_range b n k \<Longrightarrow> m \<in> {n..<n + k} \<Longrightarrow> in_range b m"
  by (auto simp: extent_in_range_def in_range_def)

lemma ba_update_bits:
  "ba_bits (b\<lparr>bm_private := a\<rparr>) = {n. in_range b n \<and> bit_at a (n - bm_start b)}"
  by (simp add: ba_bits_def in_range_def)

lemma ba_update_inv: "ba_inv b \<Longrightarrow> length a = length (bm_private b) \<Longrightarrow> ba_inv (b\<lparr>bm_private := a\<rparr>)"
  by (simp add: ba_inv_def)

lemma ba_test_clear:
  assumes "ba_inv b" "extent_in_range b n k"
  shows "ba_test_clear_bmap_extent b n k \<longleftrightarrow> ba_bits b \<inter> {n..<n + k} = {}"
proof -
  have "n + k - 1 - bm_start b \<le> bm_real_end b - bm_start b" using assms by (auto simp: extent_in_range_def)
  then have "n - bm_start b + k \<le> 8 * length (bm_private b)"
    using assms by (auto simp: ba_inv_def ba_size_def extent_in_range_def)
  then have "ba_test_clear_bmap_extent b n k = bits_clear (bm_private b) (n - bm_start b) k"
    using assms by (intro test_clear_iff) (auto simp: ba_inv_def extent_in_range_def)
  also have "\<dots> \<longleftrightarrow> (\<forall>i < k. n + i \<notin> ba_bits b)"
    using assms ba_extent(2) [OF assms] by (auto simp: bits_clear_def ba_bits_def extent_in_range_def)
  also have "\<dots> \<longleftrightarrow> ba_bits b \<inter> {n..<n + k} = {}"
    by (auto simp: disjoint_iff) (metis add_less_cancel_left le_iff_add)
  finally show ?thesis .
qed

lemma ba_clear:
  assumes "ba_inv b"
  shows "bm_private (ba_clear_bmap b) = replicate (length (bm_private b)) 0"
  using assms by (simp add: ba_clear_bmap_def splice_def ba_inv_def)

lemma ba_mark_step:
  assumes "ba_inv b" "in_range b n"
  shows "ba_inv (snd (ba_mark_bmap b n)) \<and> same_geometry b (snd (ba_mark_bmap b n)) \<and>
    ba_bits (snd (ba_mark_bmap b n)) = insert n (ba_bits b) \<and> fst (ba_mark_bmap b n) = (n \<in> ba_bits b)"
  using assms ba_position [OF assms] set_bit64_old [of "n - bm_start b" "bm_private b"]
  by (auto simp: ba_mark_bmap_def Let_def split_beta ba_update_bits ba_update_inv same_geometry_def bit_at_set)
    (auto simp: ba_bits_def in_range_def)

lemma ba_unmark_step:
  assumes "ba_inv b" "in_range b n"
  shows "ba_inv (snd (ba_unmark_bmap b n)) \<and> same_geometry b (snd (ba_unmark_bmap b n)) \<and>
    ba_bits (snd (ba_unmark_bmap b n)) = ba_bits b - {n} \<and> fst (ba_unmark_bmap b n) = (n \<in> ba_bits b)"
  using assms ba_position [OF assms] clear_bit64_old [of "n - bm_start b" "bm_private b"]
  by (auto simp: ba_unmark_bmap_def Let_def split_beta ba_update_bits ba_update_inv same_geometry_def bit_at_clear)
    (auto simp: ba_bits_def in_range_def)

lemma ba_test_step:
  assumes "ba_inv b" "in_range b n"
  shows "ba_test_bmap b n = (n \<in> ba_bits b, b)"
  using assms ba_position [OF assms] test_bit64_iff [of "n - bm_start b" "bm_private b"]
  by (auto simp: ba_test_bmap_def ba_bits_def)

lemma ba_mark_extent_step:
  assumes "ba_inv b" "extent_in_range b n k"
  shows "ba_inv (ba_mark_bmap_extent b n k) \<and> same_geometry b (ba_mark_bmap_extent b n k) \<and>
    ba_bits (ba_mark_bmap_extent b n k) = ba_bits b \<union> {n..<n + k}"
proof -
  have "bit_at (bm_private (ba_mark_bmap_extent b n k)) (m - bm_start b) \<longleftrightarrow>
      m \<in> {n..<n + k} \<or> bit_at (bm_private b) (m - bm_start b)" if "in_range b m" for m
    using ba_extent_set [OF assms] extent_shift [OF assms(2) that] by (simp add: ba_mark_bmap_extent_def)
  then have "ba_bits (ba_mark_bmap_extent b n k) = ba_bits b \<union> {n..<n + k}"
    using extent_in_range_elem [OF assms(2)] unfolding ba_mark_bmap_extent_def ba_update_bits by (auto simp: ba_bits_def)
  then show ?thesis
    using ba_extent_set [OF assms] assms(1)
    by (auto simp: ba_mark_bmap_extent_def ba_update_inv same_geometry_def)
qed

lemma ba_unmark_extent_step:
  assumes "ba_inv b" "extent_in_range b n k"
  shows "ba_inv (ba_unmark_bmap_extent b n k) \<and> same_geometry b (ba_unmark_bmap_extent b n k) \<and>
    ba_bits (ba_unmark_bmap_extent b n k) = ba_bits b - {n..<n + k}"
proof -
  have "bit_at (bm_private (ba_unmark_bmap_extent b n k)) (m - bm_start b) \<longleftrightarrow>
      m \<notin> {n..<n + k} \<and> bit_at (bm_private b) (m - bm_start b)" if "in_range b m" for m
    using ba_extent_clear [OF assms] extent_shift [OF assms(2) that] by (simp add: ba_unmark_bmap_extent_def) blast
  then have "ba_bits (ba_unmark_bmap_extent b n k) = ba_bits b - {n..<n + k}"
    unfolding ba_unmark_bmap_extent_def ba_update_bits by (auto simp: ba_bits_def)
  then show ?thesis
    using ba_extent_clear [OF assms] assms(1)
    by (auto simp: ba_unmark_bmap_extent_def ba_update_inv same_geometry_def)
qed

lemma ba_clear_step:
  assumes "ba_inv b"
  shows "ba_inv (ba_clear_bmap b) \<and> same_geometry b (ba_clear_bmap b) \<and> ba_bits (ba_clear_bmap b) = {}"
proof -
  let ?z = "replicate (length (bm_private b)) (0 :: u8)"
  have clear: "ba_clear_bmap b = b\<lparr>bm_private := ?z\<rparr>"
    using ba_clear [OF assms] by (simp add: ba_clear_bmap_def)
  have "\<not> bit_at ?z (n - bm_start b)" if "in_range b n" for n
    using ba_position(2) [OF assms that] by (simp add: bit_at_def)
  then show ?thesis unfolding clear using assms by (auto simp: ba_update_bits ba_update_inv same_geometry_def)
qed

lemmas ba_steps = ba_mark_step ba_unmark_step ba_test_step ba_mark_extent_step ba_unmark_extent_step ba_test_clear ba_clear_step

interpretation ba: bitmap_backend "ext2fs_blkmap64_bitarray base" ba_inv ba_bits for base
proof unfold_locales
  fix b c assume *: "ba_inv b" "bop_ok b c"
  show "ba_inv (snd (exec (ext2fs_blkmap64_bitarray base) c b))"
    using * ba_steps by (cases c) (auto simp: ext2fs_blkmap64_bitarray_def Let_def split_beta)
  show "same_geometry b (snd (exec (ext2fs_blkmap64_bitarray base) c b))"
    using * ba_steps by (cases c) (auto simp: ext2fs_blkmap64_bitarray_def Let_def split_beta)
  show "ba_bits (snd (exec (ext2fs_blkmap64_bitarray base) c b)) = snd (spec c (ba_bits b))"
    using * by (cases c) (simp_all add: ext2fs_blkmap64_bitarray_def Let_def split_beta ba_steps)
  show "fst (exec (ext2fs_blkmap64_bitarray base) c b) = fst (spec c (ba_bits b))"
    using * by (cases c) (simp_all add: ext2fs_blkmap64_bitarray_def Let_def split_beta ba_steps)
qed

lemma ba_new_inv:
  assumes "ba_new_bmap True start real_end = Inr a" "start \<le> e" "e \<le> real_end" "real_end < 2 ^ 63"
  shows "ba_inv \<lparr>bm_start = start, bm_end = e, bm_real_end = real_end, bm_cluster_bits = c, bm_private = a\<rparr>"
    and "ba_bits \<lparr>bm_start = start, bm_end = e, bm_real_end = real_end, bm_cluster_bits = c, bm_private = a\<rparr> = {}"
proof -
  let ?b = "\<lparr>bm_start = start, bm_end = e, bm_real_end = real_end, bm_cluster_bits = c, bm_private = a\<rparr>"
  show inv: "ba_inv ?b" using assms by (auto simp: ba_inv_def ba_new_bmap_def)
  have "\<not> bit_at a (n - start)" if "in_range ?b n" for n
    using ba_position(2) [OF inv that] assms(1) by (auto simp: ba_new_bmap_def bit_at_def)
  then show "ba_bits ?b = {}" by (auto simp: ba_bits_def)
qed

section \<open>The search, on sets\<close>

lemma scan_bits_None: "scan_bits a p n = None \<Longrightarrow> p \<le> i \<Longrightarrow> i < p + n \<Longrightarrow> bit_at a i"
proof (induction a p n rule: scan_bits.induct)
  case (2 a p n)
  then show ?case by (cases "i = p") (auto simp: test_bit64_zero split: if_splits)
qed simp

lemma scan_bits_Some:
  "scan_bits a p n = Some r \<Longrightarrow> p \<le> r \<and> r < p + n \<and> \<not> bit_at a r \<and> (\<forall>i. p \<le> i \<and> i < r \<longrightarrow> bit_at a i)"
proof (induction a p n rule: scan_bits.induct)
  case (2 a p n)
  show ?case
  proof (cases "bit_at a p")
    case True
    then have "p + 1 \<le> r \<and> r < p + 1 + n \<and> \<not> bit_at a r \<and> (\<forall>i. p + 1 \<le> i \<and> i < r \<longrightarrow> bit_at a i)"
      using 2 by (simp add: test_bit64_zero)
    moreover have "bit_at a i" if "p \<le> i" "i < r" for i
      using calculation True that by (cases "i = p") auto
    ultimately show ?thesis by auto
  qed (use 2 in \<open>auto simp: test_bit64_zero\<close>)
qed simp

lemma ba_search_least:
  assumes "ba_inv b" "bm_cluster_bits b = 0" "bm_start b \<le> s" "s \<le> e" "e \<le> bm_end b"
  shows "ba_find_first_zero base b s e =
    (if {s..e} \<subseteq> ba_bits b then Inl ENOENT else Inr (LEAST n. s \<le> n \<and> n \<notin> ba_bits b))"
proof -
  let ?a = "bm_private b" and ?st = "bm_start b"
  have range: "in_range b m" if "s \<le> m" "m \<le> e" for m using that assms by (auto simp: in_range_def ba_inv_def)
  have bit: "bit_at ?a (m - ?st) \<longleftrightarrow> m \<in> ba_bits b" if "s \<le> m" "m \<le> e" for m
    using range [OF that] by (simp add: ba_bits_def)
  have scan: "ba_find_first_zero base b s e =
      (case scan_bits ?a (s - ?st) (e - s + 1) of None \<Rightarrow> Inl ENOENT | Some p \<Rightarrow> Inr (add64 p ?st))"
    using assms by (intro find_first_zero_scan) (auto simp: ba_inv_def)
  show ?thesis
  proof (cases "scan_bits ?a (s - ?st) (e - s + 1)")
    case None
    have "m \<in> ba_bits b" if "s \<le> m" "m \<le> e" for m
      using scan_bits_None [OF None, of "m - ?st"] bit [OF that] that assms(3) by simp
    then show ?thesis using scan None by auto
  next
    case (Some p)
    let ?n = "p + ?st"
    have p: "s - ?st \<le> p" "p < s - ?st + (e - s + 1)" "\<not> bit_at ?a p" "\<forall>i. s - ?st \<le> i \<and> i < p \<longrightarrow> bit_at ?a i"
      using scan_bits_Some [OF Some] by auto
    have n: "s \<le> ?n" "?n \<le> e" "?n \<notin> ba_bits b" using p assms(3,4) bit [of ?n] by auto
    have "m \<in> ba_bits b" if "s \<le> m" "m < ?n" for m
    proof -
      have "s - ?st \<le> m - ?st" "m - ?st < p" using that assms(3) by auto
      then have "bit_at ?a (m - ?st)" using p(4) by blast
      then show ?thesis using bit [of m] that n(2) by simp
    qed
    then have "(LEAST m. s \<le> m \<and> m \<notin> ba_bits b) = ?n"
      using n by (intro Least_equality) (auto simp: not_less [symmetric])
    moreover have "add64 p ?st = ?n" using n assms by (simp add: ba_inv_def)
    ultimately show ?thesis using scan Some n by auto
  qed
qed

text \<open>
  C15. The search for a free block by bits, bytes and 64-bit words finds the first one: for a range
  inside an unclustered bit array, \<open>ba_find_first_zero\<close> returns the least number of the range that
  is not marked, and \<open>ENOENT\<close> exactly when all are; wherever the array lies in memory.
\<close>

theorem ba_find_first_zero_least:
  assumes "ba_inv b" "bm_cluster_bits b = 0" "bm_start b \<le> s" "s \<le> e" "e \<le> bm_end b"
  shows "ba_find_first_zero base b s e =
    (if {s..e} \<subseteq> ba_bits b then Inl ENOENT else Inr (LEAST n. s \<le> n \<and> n \<notin> ba_bits b))"
  by (rule ba_search_least [OF assms])

definition sample_ba :: "bytes bmap" where
  "sample_ba = \<lparr>bm_start = 1, bm_end = 100, bm_real_end = 104, bm_cluster_bits = 0,
     bm_private = replicate 9 0xff @ [0xfb] @ replicate 3 0\<rparr>"

lemma sample_ba_inv: "ba_inv sample_ba"
  by (simp add: ba_inv_def sample_ba_def ba_size_def)

lemma sample_ba_full: "1 \<le> n \<Longrightarrow> n < 75 \<Longrightarrow> n \<in> ba_bits sample_ba"
proof (cases "n < 73")
  case True
  assume "1 \<le> n"
  then have "(n - 1) div 8 < 9" "bit (0xff :: u8) ((n - 1) mod 8)"
    using True byte_full_iff [of "0xff"] by auto
  then show ?thesis using True \<open>1 \<le> n\<close> by (simp add: ba_bits_def in_range_def bit_at_def sample_ba_def nth_append)
next
  case False
  assume "n < 75"
  then have "n = 73 \<or> n = 74" using False by auto
  then show ?thesis by (auto simp: ba_bits_def in_range_def bit_at_def sample_ba_def nth_append bit_numeral_simps)
qed

lemma sample_ba_hole: "75 \<notin> ba_bits sample_ba"
  by (simp add: ba_bits_def in_range_def bit_at_def sample_ba_def nth_append bit_numeral_simps)

theorem ba_find_first_zero_least_witness: "ba_find_first_zero 3 sample_ba 1 100 = Inr 75"
proof -
  have "ba_find_first_zero 3 sample_ba 1 100 =
      (if {1..100} \<subseteq> ba_bits sample_ba then Inl ENOENT else Inr (LEAST n. 1 \<le> n \<and> n \<notin> ba_bits sample_ba))"
    by (rule ba_find_first_zero_least [OF sample_ba_inv]) (simp_all add: sample_ba_def)
  moreover have "(LEAST n. 1 \<le> n \<and> n \<notin> ba_bits sample_ba) = 75"
    using sample_ba_full sample_ba_hole by (intro Least_equality) (auto simp: not_less [symmetric])
  moreover have "\<not> {1..100} \<subseteq> ba_bits sample_ba" using sample_ba_hole by (auto dest: subsetD [where c = 75])
  ultimately show ?thesis by simp
qed

end
