(* ===== verification/Rbtree.thy ===== *)
theory Rbtree
  imports Prelude
begin

text \<open>
  Red-black trees, \<open>external/e2fsprogs/lib/ext2fs/rbtree.c\<close> and \<open>rbtree.h\<close>. A tree holds the
  addresses of its nodes; a node together with its parent pointers is a subtree and the path from it
  to the root. Following a null pointer is the result \<open>None\<close>. The theorems show that insertion and
  removal keep the red-black shape and the order of the nodes, that they never follow a null pointer,
  and that the depth of a tree is logarithmic in its size.
\<close>

section \<open>Trees and paths\<close>

datatype rb_color = RB_RED | RB_BLACK

datatype 'a rb_tree = Null | Node rb_color "'a rb_tree" 'a "'a rb_tree"

text \<open>One step of a path: the parent, its colour, and its other child.\<close>

datatype 'a frame = Left_of rb_color 'a "'a rb_tree" | Right_of rb_color 'a "'a rb_tree"

type_synonym 'a path = "'a frame list"

fun fill :: "'a rb_tree \<Rightarrow> 'a frame \<Rightarrow> 'a rb_tree" where
  "fill t (Left_of c x r) = Node c t x r"
| "fill t (Right_of c x l) = Node c l x t"

fun plug :: "'a rb_tree \<Rightarrow> 'a path \<Rightarrow> 'a rb_tree" where
  "plug t [] = t"
| "plug t (f # fs) = plug (fill t f) fs"

fun frame_color :: "'a frame \<Rightarrow> rb_color" where
  "frame_color (Left_of c x r) = c"
| "frame_color (Right_of c x l) = c"

fun color_of :: "'a rb_tree \<Rightarrow> rb_color" where
  "color_of Null = RB_BLACK"
| "color_of (Node c l x r) = c"

fun set_black :: "'a rb_tree \<Rightarrow> 'a rb_tree" where
  "set_black Null = Null"
| "set_black (Node c l x r) = Node RB_BLACK l x r"

fun set_red :: "'a rb_tree \<Rightarrow> 'a rb_tree" where
  "set_red Null = Null"
| "set_red (Node c l x r) = Node RB_RED l x r"

text \<open>\<open>!node || ext2fs_rb_is_black(node)\<close>.\<close>

abbreviation is_red :: "'a rb_tree \<Rightarrow> bool" where
  "is_red t \<equiv> color_of t = RB_RED"

text \<open>The node at an address.\<close>

fun focus :: "'a \<Rightarrow> 'a rb_tree \<Rightarrow> 'a path \<Rightarrow> ('a rb_tree \<times> 'a path) option" where
  "focus p Null fs = None"
| "focus p (Node c l x r) fs =
     (if x = p then Some (Node c l x r, fs)
      else case focus p l (Left_of c x r # fs) of
             Some z \<Rightarrow> Some z
           | None \<Rightarrow> focus p r (Right_of c x l # fs))"

section \<open>Rotations\<close>

fun rb_rotate_left :: "'a rb_tree \<Rightarrow> 'a rb_tree option" where
  "rb_rotate_left (Node c a x (Node d b y e)) = Some (Node d (Node c a x b) y e)"
| "rb_rotate_left t = None"

fun rb_rotate_right :: "'a rb_tree \<Rightarrow> 'a rb_tree option" where
  "rb_rotate_right (Node c (Node d a x b) y e) = Some (Node d a x (Node c b y e))"
| "rb_rotate_right t = None"

section \<open>Insertion\<close>

text \<open>
  The loop of \<open>ext2fs_rb_insert_color\<close>. After the final rotation the parent is black and the loop
  ends, so that step returns.
\<close>

fun ext2fs_rb_insert_color :: "'a rb_tree \<Rightarrow> 'a path \<Rightarrow> 'a rb_tree option" where
  "ext2fs_rb_insert_color node [] = Some (set_black node)"
| "ext2fs_rb_insert_color node [f] =
     (if frame_color f = RB_RED then None else Some (set_black (fill node f)))"
| "ext2fs_rb_insert_color node (f # g # fs) =
     (if frame_color f = RB_BLACK then Some (set_black (plug node (f # g # fs)))
      else case g of
        Left_of gc gx uncle \<Rightarrow>
          if is_red uncle
          then ext2fs_rb_insert_color (Node RB_RED (set_black (fill node f)) gx (set_black uncle)) fs
          else
            (case (case f of Right_of c x l \<Rightarrow> rb_rotate_left (fill node f) | Left_of c x r \<Rightarrow> Some (fill node f)) of
               None \<Rightarrow> None
             | Some parent \<Rightarrow>
                 map_option (\<lambda>t. set_black (plug t fs))
                   (rb_rotate_right (Node RB_RED (set_black parent) gx uncle)))
      | Right_of gc gx uncle \<Rightarrow>
          if is_red uncle
          then ext2fs_rb_insert_color (Node RB_RED (set_black uncle) gx (set_black (fill node f))) fs
          else
            (case (case f of Left_of c x r \<Rightarrow> rb_rotate_right (fill node f) | Right_of c x l \<Rightarrow> Some (fill node f)) of
               None \<Rightarrow> None
             | Some parent \<Rightarrow>
                 map_option (\<lambda>t. set_black (plug t fs))
                   (rb_rotate_left (Node RB_RED uncle gx (set_black parent)))))"

text \<open>\<open>ext2fs_rb_link_node\<close> puts a red node with no children at an empty link.\<close>

definition ext2fs_rb_link_node :: "'a \<Rightarrow> 'a rb_tree" where
  "ext2fs_rb_link_node p = Node RB_RED Null p Null"

section \<open>Removal\<close>

text \<open>
  The two halves of one iteration of \<open>__rb_erase_color\<close>, for a black node that is a left or a right
  child: the result is the finished tree, or the node and the path of the next iteration.
\<close>

fun erase_color_left ::
  "'a rb_tree \<Rightarrow> rb_color \<Rightarrow> 'a \<Rightarrow> 'a rb_tree \<Rightarrow> 'a path \<Rightarrow> ('a rb_tree + 'a rb_tree \<times> 'a path) option" where
  "erase_color_left node pc px Null fs = None"
| "erase_color_left node pc px (Node c lt ox rt) fs =
     (if \<not> is_red lt \<and> \<not> is_red rt
      then Some (Inr (Node pc node px (Node RB_RED lt ox rt), fs))
      else
        case (if \<not> is_red rt then rb_rotate_right (Node RB_RED (set_black lt) ox rt) else Some (Node c lt ox rt)) of
          None \<Rightarrow> None
        | Some Null \<Rightarrow> None
        | Some (Node _ lt ox rt) \<Rightarrow>
            map_option (\<lambda>t. Inl (set_black (plug t fs)))
              (rb_rotate_left (Node RB_BLACK node px (Node pc lt ox (set_black rt)))))"

fun erase_color_right ::
  "'a rb_tree \<Rightarrow> rb_color \<Rightarrow> 'a \<Rightarrow> 'a rb_tree \<Rightarrow> 'a path \<Rightarrow> ('a rb_tree + 'a rb_tree \<times> 'a path) option" where
  "erase_color_right node pc px Null fs = None"
| "erase_color_right node pc px (Node c lt ox rt) fs =
     (if \<not> is_red lt \<and> \<not> is_red rt
      then Some (Inr (Node pc (Node RB_RED lt ox rt) px node, fs))
      else
        case (if \<not> is_red lt then rb_rotate_left (Node RB_RED lt ox (set_black rt)) else Some (Node c lt ox rt)) of
          None \<Rightarrow> None
        | Some Null \<Rightarrow> None
        | Some (Node _ lt ox rt) \<Rightarrow>
            map_option (\<lambda>t. Inl (set_black (plug t fs)))
              (rb_rotate_right (Node RB_BLACK (Node pc (set_black lt) ox rt) px node)))"

text \<open>A red sibling is rotated above the parent first.\<close>

fun erase_color_step :: "'a rb_tree \<Rightarrow> 'a frame \<Rightarrow> 'a path \<Rightarrow> ('a rb_tree + 'a rb_tree \<times> 'a path) option" where
  "erase_color_step node (Left_of pc px Null) fs = None"
| "erase_color_step node (Left_of pc px (Node RB_RED lt ox rt)) fs =
     erase_color_left node RB_RED px lt (Left_of RB_BLACK ox rt # fs)"
| "erase_color_step node (Left_of pc px (Node RB_BLACK lt ox rt)) fs =
     erase_color_left node pc px (Node RB_BLACK lt ox rt) fs"
| "erase_color_step node (Right_of pc px Null) fs = None"
| "erase_color_step node (Right_of pc px (Node RB_RED lt ox rt)) fs =
     erase_color_right node RB_RED px rt (Right_of RB_BLACK ox lt # fs)"
| "erase_color_step node (Right_of pc px (Node RB_BLACK lt ox rt)) fs =
     erase_color_right node pc px (Node RB_BLACK lt ox rt) fs"

definition erase_measure :: "'a rb_tree \<Rightarrow> 'a path \<Rightarrow> nat" where
  "erase_measure t fs = 2 * length fs + (if is_red t then 0 else 1)"

lemma erase_color_left_next:
  "erase_color_left node pc px ob fs = Some (Inr (t, fs')) \<Longrightarrow> fs' = fs \<and> color_of t = pc"
  by (cases ob) (auto split: if_splits option.splits rb_tree.splits)

lemma erase_color_right_next:
  "erase_color_right node pc px ob fs = Some (Inr (t, fs')) \<Longrightarrow> fs' = fs \<and> color_of t = pc"
  by (cases ob) (auto split: if_splits option.splits rb_tree.splits)

lemma erase_color_step_measure:
  "\<not> is_red node \<Longrightarrow> erase_color_step node f fs = Some (Inr (t, fs')) \<Longrightarrow> erase_measure t fs' < erase_measure node (f # fs)"
  by (induction node f fs rule: erase_color_step.induct)
    (auto simp: erase_measure_def simp del: erase_color_left.simps erase_color_right.simps
      dest!: erase_color_left_next erase_color_right_next)

function rb_erase_color :: "'a rb_tree \<Rightarrow> 'a path \<Rightarrow> 'a rb_tree option" where
  "rb_erase_color node fs =
     (if is_red node then Some (plug (set_black node) fs)
      else case fs of
        [] \<Rightarrow> Some (set_black node)
      | f # fs \<Rightarrow>
          (case erase_color_step node f fs of
             None \<Rightarrow> None
           | Some (Inl t) \<Rightarrow> Some t
           | Some (Inr (node, fs)) \<Rightarrow> rb_erase_color node fs))"
  by pat_completeness auto
termination by (relation "measure (\<lambda>(t, fs). erase_measure t fs)") (auto simp: erase_color_step_measure)

declare rb_erase_color.simps [simp del]

text \<open>The leftmost node below a link, with its path down from there.\<close>

fun leftmost :: "'a rb_tree \<Rightarrow> 'a path \<Rightarrow> ('a rb_tree \<times> 'a path) option" where
  "leftmost Null fs = None"
| "leftmost (Node c l x r) fs = (if l = Null then Some (Node c l x r, fs) else leftmost l (Left_of c x r # fs))"

fun rightmost :: "'a rb_tree \<Rightarrow> 'a path \<Rightarrow> ('a rb_tree \<times> 'a path) option" where
  "rightmost Null fs = None"
| "rightmost (Node c l x r) fs = (if r = Null then Some (Node c l x r, fs) else rightmost r (Right_of c x l # fs))"

definition unlink :: "rb_color \<Rightarrow> 'a rb_tree \<Rightarrow> 'a path \<Rightarrow> 'a rb_tree option" where
  "unlink c child fs = (if c = RB_BLACK then rb_erase_color child fs else Some (plug child fs))"

fun rb_erase_node :: "'a rb_tree \<Rightarrow> 'a path \<Rightarrow> 'a rb_tree option" where
  "rb_erase_node Null fs = None"
| "rb_erase_node (Node c l x r) fs =
     (if l = Null then unlink c r fs
      else if r = Null then unlink c l fs
      else case leftmost r [] of
        Some (Node c' l' y child, path) \<Rightarrow> unlink c' child (path @ Right_of c y l # fs)
      | _ \<Rightarrow> None)"

definition ext2fs_rb_erase :: "'a \<Rightarrow> 'a rb_tree \<Rightarrow> 'a rb_tree option" where
  "ext2fs_rb_erase p root =
     (case focus p root [] of None \<Rightarrow> None | Some (node, fs) \<Rightarrow> rb_erase_node node fs)"

section \<open>Traversal\<close>

definition node_of :: "('a rb_tree \<times> 'a path) option \<Rightarrow> 'a option" where
  "node_of z = (case z of Some (Node c l x r, fs) \<Rightarrow> Some x | _ \<Rightarrow> None)"

definition ext2fs_rb_first :: "'a rb_tree \<Rightarrow> 'a option" where
  "ext2fs_rb_first root = node_of (leftmost root [])"

definition ext2fs_rb_last :: "'a rb_tree \<Rightarrow> 'a option" where
  "ext2fs_rb_last root = node_of (rightmost root [])"

text \<open>The first ancestor of which the path is in the left, or the right, subtree.\<close>

fun up_next :: "'a path \<Rightarrow> 'a option" where
  "up_next [] = None"
| "up_next (Left_of c x r # fs) = Some x"
| "up_next (Right_of c x l # fs) = up_next fs"

fun up_prev :: "'a path \<Rightarrow> 'a option" where
  "up_prev [] = None"
| "up_prev (Right_of c x l # fs) = Some x"
| "up_prev (Left_of c x r # fs) = up_prev fs"

text \<open>The outer option is the node that is not in the tree.\<close>

definition ext2fs_rb_next :: "'a \<Rightarrow> 'a rb_tree \<Rightarrow> 'a option option" where
  "ext2fs_rb_next p root =
     (case focus p root [] of
        Some (Node c l x r, fs) \<Rightarrow> Some (if r \<noteq> Null then node_of (leftmost r []) else up_next fs)
      | _ \<Rightarrow> None)"

definition ext2fs_rb_prev :: "'a \<Rightarrow> 'a rb_tree \<Rightarrow> 'a option option" where
  "ext2fs_rb_prev p root =
     (case focus p root [] of
        Some (Node c l x r, fs) \<Rightarrow> Some (if l \<noteq> Null then node_of (rightmost l []) else up_prev fs)
      | _ \<Rightarrow> None)"

section \<open>Search\<close>

text \<open>
  The loop by which the clients of the tree descend from the root: a node sends it left or right or
  is the one that is sought. It ends at a node or at an empty link, with the path to it.
\<close>

datatype direction = Go_left | Found | Go_right

fun rb_search :: "('a \<Rightarrow> direction option) \<Rightarrow> 'a rb_tree \<Rightarrow> 'a path \<Rightarrow> ('a rb_tree \<times> 'a path) option" where
  "rb_search f Null fs = Some (Null, fs)"
| "rb_search f (Node c l x r) fs =
     (case f x of
        None \<Rightarrow> None
      | Some Go_left \<Rightarrow> rb_search f l (Left_of c x r # fs)
      | Some Go_right \<Rightarrow> rb_search f r (Right_of c x l # fs)
      | Some Found \<Rightarrow> Some (Node c l x r, fs))"

text \<open>The last node visited before an empty link.\<close>

fun path_parent :: "'a path \<Rightarrow> 'a option" where
  "path_parent [] = None"
| "path_parent (Left_of c x r # fs) = Some x"
| "path_parent (Right_of c x l # fs) = Some x"

section \<open>The red-black shape\<close>

fun rb_inorder :: "'a rb_tree \<Rightarrow> 'a list" where
  "rb_inorder Null = []"
| "rb_inorder (Node c l x r) = rb_inorder l @ x # rb_inorder r"

fun bheight :: "'a rb_tree \<Rightarrow> nat" where
  "bheight Null = 0"
| "bheight (Node c l x r) = bheight l + (if c = RB_BLACK then 1 else 0)"

fun invc :: "'a rb_tree \<Rightarrow> bool" where
  "invc Null = True"
| "invc (Node c l x r) = (invc l \<and> invc r \<and> (c = RB_RED \<longrightarrow> \<not> is_red l \<and> \<not> is_red r))"

fun invh :: "'a rb_tree \<Rightarrow> bool" where
  "invh Null = True"
| "invh (Node c l x r) = (invh l \<and> invh r \<and> bheight l = bheight r)"

definition rb_valid :: "'a rb_tree \<Rightarrow> bool" where
  "rb_valid t \<longleftrightarrow> invc t \<and> invh t \<and> \<not> is_red t"

text \<open>The nodes before and after the hole of a path, and the trees of black height \<open>n\<close> it accepts.\<close>

fun before :: "'a path \<Rightarrow> 'a list" where
  "before [] = []"
| "before (Left_of c x r # fs) = before fs"
| "before (Right_of c x l # fs) = before fs @ rb_inorder l @ [x]"

fun after :: "'a path \<Rightarrow> 'a list" where
  "after [] = []"
| "after (Left_of c x r # fs) = x # rb_inorder r @ after fs"
| "after (Right_of c x l # fs) = after fs"

fun sibling :: "'a frame \<Rightarrow> 'a rb_tree" where
  "sibling (Left_of c x r) = r"
| "sibling (Right_of c x l) = l"

definition black_above :: "'a path \<Rightarrow> bool" where
  "black_above fs \<longleftrightarrow> (case fs of [] \<Rightarrow> False | f # _ \<Rightarrow> frame_color f = RB_BLACK)"

fun path_ok :: "nat \<Rightarrow> 'a path \<Rightarrow> bool" where
  "path_ok n [] = True"
| "path_ok n (f # fs) =
     (invc (sibling f) \<and> invh (sibling f) \<and> bheight (sibling f) = n \<and>
      (frame_color f = RB_RED \<longrightarrow> \<not> is_red (sibling f) \<and> black_above fs) \<and>
      path_ok (n + (if frame_color f = RB_BLACK then 1 else 0)) fs)"

lemma not_black [simp]: "c \<noteq> RB_BLACK \<longleftrightarrow> c = RB_RED" "c \<noteq> RB_RED \<longleftrightarrow> c = RB_BLACK"
  by (cases c; simp)+

lemma black_above_simps [simp]: "\<not> black_above []" "black_above (f # fs) \<longleftrightarrow> frame_color f = RB_BLACK"
  by (simp_all add: black_above_def)

lemma inorder_plug: "rb_inorder (plug t fs) = before fs @ rb_inorder t @ after fs"
proof (induction fs arbitrary: t)
  case (Cons f fs)
  then show ?case by (cases f) simp_all
qed simp

lemma plug_valid:
  "rb_valid (plug t fs) \<longleftrightarrow> invc t \<and> invh t \<and> path_ok (bheight t) fs \<and> (is_red t \<longrightarrow> black_above fs)"
proof (induction fs arbitrary: t)
  case Nil
  then show ?case by (auto simp: rb_valid_def)
next
  case (Cons f fs)
  show ?case
  proof (cases f)
    case (Left_of c x r)
    then show ?thesis using Cons.IH [of "Node c t x r"] by (cases c) (simp_all, metis+)
  next
    case (Right_of c x l)
    then show ?thesis using Cons.IH [of "Node c l x t"] by (cases c) (simp_all, metis+)
  qed
qed

lemma inorder_color [simp]: "rb_inorder (set_black t) = rb_inorder t" "rb_inorder (set_red t) = rb_inorder t"
  by (cases t; simp)+

lemma set_black_simps [simp]: "invc t \<Longrightarrow> invc (set_black t)" "invh (set_black t) = invh t" "color_of (set_black t) = RB_BLACK"
  "is_red t \<Longrightarrow> bheight (set_black t) = Suc (bheight t)" "color_of t = RB_BLACK \<Longrightarrow> set_black t = t"
  by (cases t; simp)+

lemma valid_root [simp]: "rb_valid t \<Longrightarrow> set_black t = t"
  by (simp add: rb_valid_def)

lemma path_append:
  "before (fs @ gs) = before gs @ before fs" "after (fs @ gs) = after fs @ after gs"
  "plug t (fs @ gs) = plug (plug t fs) gs"
proof -
  show "before (fs @ gs) = before gs @ before fs" by (induction fs rule: before.induct) simp_all
  show "after (fs @ gs) = after fs @ after gs" by (induction fs rule: after.induct) simp_all
  show "plug t (fs @ gs) = plug (plug t fs) gs" by (induction fs arbitrary: t) simp_all
qed

section \<open>Insertion keeps the shape\<close>

lemma insert_uncle_red:
  assumes "invc t" "invh t" "is_red t" "path_ok (bheight t) (f # g # fs)" "frame_color f \<noteq> RB_BLACK" "is_red (sibling g)"
  shows "invc (Node RB_RED (set_black (fill t f)) x (set_black (sibling g)))"
    "invh (Node RB_RED (set_black (fill t f)) x (set_black (sibling g)))"
    "invc (Node RB_RED (set_black (sibling g)) x (set_black (fill t f)))"
    "invh (Node RB_RED (set_black (sibling g)) x (set_black (fill t f)))"
    "path_ok (bheight (set_black (fill t f))) fs" "path_ok (bheight (set_black (sibling g))) fs"
  using assms by (cases f; cases g; auto)+

lemma insert_rotate:
  assumes "invc t" "invh t" "is_red t" "path_ok (bheight t) (f # g # fs)" "frame_color f = RB_RED" "\<not> is_red (sibling g)"
  shows "\<exists>u. ext2fs_rb_insert_color t (f # g # fs) = Some (set_black (plug u fs)) \<and> invc u \<and> invh u \<and> \<not> is_red u \<and>
    path_ok (bheight u) fs \<and> rb_inorder u = rb_inorder (fill (fill t f) g)"
proof -
  obtain l x r where t: "t = Node RB_RED l x r" using assms(3) by (cases t) auto
  then show ?thesis using assms by (cases f; cases g) (simp_all, (rule exI, rule conjI, rule refl, simp)+)
qed

lemma insert_color_ok:
  assumes "invc t" "invh t" "is_red t" "path_ok (bheight t) fs"
  shows "\<exists>t'. ext2fs_rb_insert_color t fs = Some t' \<and> rb_valid t' \<and> rb_inorder t' = before fs @ rb_inorder t @ after fs"
  using assms
proof (induction t fs rule: ext2fs_rb_insert_color.induct)
  case (1 t)
  then show ?case by (simp add: rb_valid_def)
next
  case (2 t f)
  then show ?case by (cases f) (auto simp: rb_valid_def)
next
  case (3 t f g fs)
  show ?case
  proof (cases "frame_color f = RB_BLACK")
    case True
    then have "rb_valid (plug t (f # g # fs))" using "3.prems" unfolding plug_valid by simp
    then show ?thesis using True inorder_plug [of t "f # g # fs"] by (simp del: plug.simps)
  next
    case red: False
    show ?thesis
    proof (cases "is_red (sibling g)")
      case True
      show ?thesis
      proof (cases g)
        case (Left_of gc gx u)
        note ok = insert_uncle_red [OF "3.prems" red True, unfolded Left_of sibling.simps]
        have "\<exists>t'. ext2fs_rb_insert_color (Node RB_RED (set_black (fill t f)) gx (set_black u)) fs = Some t' \<and> rb_valid t' \<and>
            rb_inorder t' = before fs @ rb_inorder (Node RB_RED (set_black (fill t f)) gx (set_black u)) @ after fs"
          using "3.IH"(1) [OF red Left_of] True ok Left_of by simp
        then show ?thesis using True red Left_of by (cases f) simp_all
      next
        case (Right_of gc gx u)
        note ok = insert_uncle_red [OF "3.prems" red True, unfolded Right_of sibling.simps]
        have "\<exists>t'. ext2fs_rb_insert_color (Node RB_RED (set_black u) gx (set_black (fill t f))) fs = Some t' \<and> rb_valid t' \<and>
            rb_inorder t' = before fs @ rb_inorder (Node RB_RED (set_black u) gx (set_black (fill t f))) @ after fs"
          using "3.IH"(2) [OF red Right_of] True ok Right_of by simp
        then show ?thesis using True red Right_of by (cases f) simp_all
      qed
    next
      case False
      then obtain u where u: "ext2fs_rb_insert_color t (f # g # fs) = Some (set_black (plug u fs))"
        "invc u" "invh u" "\<not> is_red u" "path_ok (bheight u) fs" "rb_inorder u = rb_inorder (fill (fill t f) g)"
        using insert_rotate [OF "3.prems"] red by auto
      then have "rb_valid (plug u fs)" by (simp add: plug_valid)
      then show ?thesis using u inorder_plug [of "fill (fill t f) g" fs] inorder_plug [of t "f # g # fs"]
        by (simp add: inorder_plug)
    qed
  qed
qed

section \<open>Removal keeps the shape\<close>

text \<open>What an iteration hands on: the tree, or a node one black short of what its path expects.\<close>

definition short_ok :: "'a rb_tree \<Rightarrow> 'a path \<Rightarrow> bool" where
  "short_ok t fs \<longleftrightarrow> invc (set_black t) \<and> invh t \<and> path_ok (Suc (bheight t)) fs"

definition erased :: "'a list \<Rightarrow> 'a rb_tree + 'a rb_tree \<times> 'a path \<Rightarrow> bool" where
  "erased xs r \<longleftrightarrow>
     (case r of
        Inl t \<Rightarrow> rb_valid t \<and> rb_inorder t = xs
      | Inr (t, fs) \<Rightarrow> short_ok t fs \<and> before fs @ rb_inorder t @ after fs = xs)"

lemma erased_done:
  assumes "invc u" "invh u" "path_ok (bheight u) fs" "is_red u \<longrightarrow> black_above fs"
    "before fs @ rb_inorder u @ after fs = xs"
  shows "erased xs (Inl (set_black (plug u fs)))"
proof -
  have "rb_valid (plug u fs)" using assms by (simp add: plug_valid)
  then show ?thesis using assms by (simp add: erased_def inorder_plug)
qed

lemma erase_left_ok:
  assumes "invc t" "invh t" "\<not> is_red t" "invc (Node RB_BLACK lt ox rt)" "invh (Node RB_BLACK lt ox rt)"
    "bheight lt = bheight t" "path_ok (Suc (bheight t) + (if pc = RB_BLACK then 1 else 0)) fs" "pc = RB_RED \<longrightarrow> black_above fs"
  shows "\<exists>r. erase_color_left t pc px (Node RB_BLACK lt ox rt) fs = Some r \<and>
    erased (before fs @ rb_inorder t @ px # rb_inorder lt @ ox # rb_inorder rt @ after fs) r"
proof (cases "is_red rt")
  case True
  then show ?thesis using assms by (cases rt; cases pc) (auto intro!: erased_done)
next
  case False
  show ?thesis
  proof (cases "is_red lt")
    case True
    then show ?thesis using False assms by (cases lt; cases pc) (auto intro!: erased_done)
  next
    case black: False
    then show ?thesis using False assms by (cases pc) (auto simp: erased_def short_ok_def)
  qed
qed

lemma erase_right_ok:
  assumes "invc t" "invh t" "\<not> is_red t" "invc (Node RB_BLACK lt ox rt)" "invh (Node RB_BLACK lt ox rt)"
    "bheight lt = bheight t" "path_ok (Suc (bheight t) + (if pc = RB_BLACK then 1 else 0)) fs" "pc = RB_RED \<longrightarrow> black_above fs"
  shows "\<exists>r. erase_color_right t pc px (Node RB_BLACK lt ox rt) fs = Some r \<and>
    erased (before fs @ rb_inorder lt @ ox # rb_inorder rt @ px # rb_inorder t @ after fs) r"
proof (cases "is_red lt")
  case True
  then show ?thesis using assms by (cases lt; cases pc) (auto intro!: erased_done)
next
  case False
  show ?thesis
  proof (cases "is_red rt")
    case True
    then show ?thesis using False assms by (cases rt; cases pc) (auto intro!: erased_done)
  next
    case black: False
    then show ?thesis using False assms by (cases pc) (auto simp: erased_def short_ok_def)
  qed
qed

lemma black_height_node:
  assumes "\<not> is_red u" "0 < bheight u"
  obtains l x r where "u = Node RB_BLACK l x r"
  using assms by (cases u) auto

lemma erase_step_ok:
  assumes "invc t" "invh t" "\<not> is_red t" "path_ok (Suc (bheight t)) (f # fs)"
  shows "\<exists>r. erase_color_step t f fs = Some r \<and> erased (before (f # fs) @ rb_inorder t @ after (f # fs)) r"
proof (cases f)
  case (Left_of pc px ob)
  have ob: "invc ob" "invh ob" "bheight ob = Suc (bheight t)" using assms(4) Left_of by auto
  then obtain c lt ox rt where node: "ob = Node c lt ox rt" by (cases ob) auto
  show ?thesis
  proof (cases c)
    case RB_BLACK
    then show ?thesis
      using erase_left_ok [of t lt ox rt pc fs px] assms Left_of ob node by (cases pc) (simp_all del: erase_color_left.simps, metis+)
  next
    case RB_RED
    then have "\<not> is_red lt" "0 < bheight lt" using ob node by auto
    then obtain l x r where lt: "lt = Node RB_BLACK l x r" by (rule black_height_node)
    have pc: "pc = RB_BLACK" using assms(4) Left_of node RB_RED by (cases pc) auto
    show ?thesis
      using erase_left_ok [of t l x r RB_RED "Left_of RB_BLACK ox rt # fs" px] assms Left_of ob node RB_RED lt pc
      by (simp del: erase_color_left.simps) metis
  qed
next
  case (Right_of pc px ob)
  have ob: "invc ob" "invh ob" "bheight ob = Suc (bheight t)" using assms(4) Right_of by auto
  then obtain c lt ox rt where node: "ob = Node c lt ox rt" by (cases ob) auto
  show ?thesis
  proof (cases c)
    case RB_BLACK
    then show ?thesis
      using erase_right_ok [of t lt ox rt pc fs px] assms Right_of ob node by (cases pc) (simp_all del: erase_color_right.simps, metis+)
  next
    case RB_RED
    then have "\<not> is_red rt" "0 < bheight rt" using ob node by auto
    then obtain l x r where rt: "rt = Node RB_BLACK l x r" by (rule black_height_node)
    have pc: "pc = RB_BLACK" using assms(4) Right_of node RB_RED by (cases pc) auto
    show ?thesis
      using erase_right_ok [of t l x r RB_RED "Right_of RB_BLACK ox lt # fs" px] assms Right_of ob node RB_RED rt pc
      by (simp del: erase_color_right.simps) metis
  qed
qed

lemma erase_color_ok:
  assumes "short_ok t fs"
  shows "\<exists>t'. rb_erase_color t fs = Some t' \<and> rb_valid t' \<and> rb_inorder t' = before fs @ rb_inorder t @ after fs"
  using assms
proof (induction t fs rule: rb_erase_color.induct)
  case (1 t fs)
  note step = rb_erase_color.simps [of t fs]
  have ok: "invc (set_black t)" "invh t" "path_ok (Suc (bheight t)) fs" using "1.prems" by (auto simp: short_ok_def)
  show ?case
  proof (cases "is_red t")
    case True
    then have "rb_valid (plug (set_black t) fs)" unfolding plug_valid using ok by simp
    then show ?thesis using step True by (simp add: inorder_plug)
  next
    case False
    then have t: "invc t" "set_black t = t" using ok(1) by simp_all
    show ?thesis
    proof (cases fs)
      case Nil
      then show ?thesis using step False t ok by (simp add: rb_valid_def)
    next
      case (Cons f fs')
      obtain r where r: "erase_color_step t f fs' = Some r" "erased (before fs @ rb_inorder t @ after fs) r"
        using erase_step_ok [OF t(1) ok(2) False] ok(3) Cons by auto
      show ?thesis
      proof (cases r)
        case (Inl u)
        then show ?thesis using r step False Cons by (simp add: erased_def)
      next
        case (Inr z)
        then obtain u gs where z: "z = (u, gs)" by (cases z)
        then have "short_ok u gs" "before gs @ rb_inorder u @ after gs = before fs @ rb_inorder t @ after fs"
          using r Inr by (auto simp: erased_def)
        then show ?thesis using "1.IH" [OF False Cons r(1) Inr z [symmetric]] step False Cons r Inr z by simp
      qed
    qed
  qed
qed

lemma unlink_ok:
  assumes "invc child" "invh child" "path_ok (bheight child + (if c = RB_BLACK then 1 else 0)) fs"
    "c = RB_RED \<longrightarrow> \<not> is_red child"
  shows "\<exists>t'. unlink c child fs = Some t' \<and> rb_valid t' \<and> rb_inorder t' = before fs @ rb_inorder child @ after fs"
proof (cases c)
  case RB_RED
  then have "rb_valid (plug child fs)" unfolding plug_valid using assms by simp
  then show ?thesis using RB_RED by (simp add: unlink_def inorder_plug)
next
  case RB_BLACK
  then have "short_ok child fs" using assms by (simp add: short_ok_def)
  then show ?thesis using RB_BLACK erase_color_ok by (simp add: unlink_def)
qed

lemma leftmost_ok:
  assumes "t \<noteq> Null"
  obtains c x r gs where "leftmost t fs = Some (Node c Null x r, gs @ fs)" "plug (Node c Null x r) gs = t" "before gs = []"
    "rb_inorder t = x # rb_inorder r @ after gs"
proof -
  have "\<exists>c x r gs. leftmost t fs = Some (Node c Null x r, gs @ fs) \<and> plug (Node c Null x r) gs = t \<and> before gs = []"
    using assms
  proof (induction t fs rule: leftmost.induct)
    case (2 c l x r fs)
    show ?case
    proof (cases "l = Null")
      case True
      then show ?thesis by (intro exI [of _ c] exI [of _ x] exI [of _ r] exI [of _ "[]"]) simp
    next
      case False
      then obtain c' y r' gs where "leftmost l (Left_of c x r # fs) = Some (Node c' Null y r', gs @ Left_of c x r # fs)"
        "plug (Node c' Null y r') gs = l" "before gs = []" using "2.IH" by blast
      then show ?thesis
        using False by (intro exI [of _ c'] exI [of _ y] exI [of _ r'] exI [of _ "gs @ [Left_of c x r]"]) (simp add: path_append)
    qed
  qed simp
  then obtain c x r gs where *: "leftmost t fs = Some (Node c Null x r, gs @ fs)" "plug (Node c Null x r) gs = t" "before gs = []"
    by blast
  moreover have "rb_inorder t = x # rb_inorder r @ after gs" using inorder_plug [of "Node c Null x r" gs] * by simp
  ultimately show ?thesis using that by blast
qed

lemma rightmost_ok:
  assumes "t \<noteq> Null"
  shows "\<exists>c l x gs. rightmost t fs = Some (Node c l x Null, gs) \<and> last (rb_inorder t) = x"
  using assms
proof (induction t fs rule: rightmost.induct)
  case (2 c l x r fs)
  show ?case
  proof (cases "r = Null")
    case False
    then have "rb_inorder r \<noteq> []" by (cases r) auto
    then show ?thesis using 2 False by auto
  qed simp
qed simp

lemma rb_erase_node_ok:
  assumes "rb_valid (plug (Node c l x r) fs)"
  shows "\<exists>t'. rb_erase_node (Node c l x r) fs = Some t' \<and> rb_valid t' \<and>
    rb_inorder t' = before fs @ rb_inorder l @ rb_inorder r @ after fs"
proof -
  have ok: "invc (Node c l x r)" "invh (Node c l x r)" "path_ok (bheight (Node c l x r)) fs" using assms by (auto simp: plug_valid)
  show ?thesis
  proof (cases "l = Null \<or> r = Null")
    case True
    then show ?thesis using ok unlink_ok [of r c fs] unlink_ok [of l c fs] by auto
  next
    case False
    then obtain d y child gs where min: "leftmost r [] = Some (Node d Null y child, gs)" "plug (Node d Null y child) gs = r"
      "before gs = []" "rb_inorder r = y # rb_inorder child @ after gs" using leftmost_ok [of r "[]"] by (metis append_Nil2)
    have "rb_valid (plug (Node d Null y child) (gs @ Right_of c y l # fs))"
      using assms min(2) by (auto simp: path_append plug_valid)
    then have "\<exists>t'. unlink d child (gs @ Right_of c y l # fs) = Some t' \<and> rb_valid t' \<and>
        rb_inorder t' = before (gs @ Right_of c y l # fs) @ rb_inorder child @ after (gs @ Right_of c y l # fs)"
      by (intro unlink_ok) (auto simp: plug_valid)
    then show ?thesis using False min by (simp add: path_append)
  qed
qed

section \<open>Addresses\<close>

lemma focus_None: "p \<notin> set (rb_inorder t) \<Longrightarrow> focus p t fs = None"
  by (induction p t fs rule: focus.induct) auto

lemma focus_ok:
  assumes "p \<in> set (rb_inorder t)"
  shows "\<exists>c l r gs. focus p t fs = Some (Node c l p r, gs @ fs) \<and> plug (Node c l p r) gs = t"
  using assms
proof (induction p t fs rule: focus.induct)
  case (2 p c l x r fs)
  show ?case
  proof (cases "x = p")
    case True
    then show ?thesis by (intro exI [of _ c] exI [of _ l] exI [of _ r] exI [of _ "[]"]) simp
  next
    case other: False
    show ?thesis
    proof (cases "p \<in> set (rb_inorder l)")
      case True
      then obtain d a b gs where "focus p l (Left_of c x r # fs) = Some (Node d a p b, gs @ Left_of c x r # fs)"
        "plug (Node d a p b) gs = l" using "2.IH"(1) other by blast
      then show ?thesis
        using other by (intro exI [of _ d] exI [of _ a] exI [of _ b] exI [of _ "gs @ [Left_of c x r]"]) (simp add: path_append)
    next
      case False
      then have none: "focus p l (Left_of c x r # fs) = None" by (rule focus_None)
      then obtain d a b gs where "focus p r (Right_of c x l # fs) = Some (Node d a p b, gs @ Right_of c x l # fs)"
        "plug (Node d a p b) gs = r" using "2.IH"(2) other False "2.prems" by auto
      then show ?thesis
        using other none by (intro exI [of _ d] exI [of _ a] exI [of _ b] exI [of _ "gs @ [Right_of c x l]"]) (simp add: path_append)
    qed
  qed
qed simp

text \<open>The node of an address in a tree without duplicates, and what stands around it.\<close>

lemma focus_split:
  assumes "rb_inorder t = xs @ p # ys" "distinct (rb_inorder t)"
  obtains c l r gs where "focus p t [] = Some (Node c l p r, gs)" "plug (Node c l p r) gs = t"
    "xs = before gs @ rb_inorder l" "ys = rb_inorder r @ after gs"
proof -
  obtain c l r gs where *: "focus p t [] = Some (Node c l p r, gs)" "plug (Node c l p r) gs = t"
    using focus_ok [of p t "[]"] assms(1) by auto
  have "xs @ p # ys = (before gs @ rb_inorder l) @ p # (rb_inorder r @ after gs)"
    using assms(1) inorder_plug [of "Node c l p r" gs] *(2) by simp
  moreover have "p \<notin> set xs" "p \<notin> set ys" using assms by auto
  ultimately have "xs = before gs @ rb_inorder l \<and> ys = rb_inorder r @ after gs"
    by (metis append_Cons_eq_iff)
  then show ?thesis using * that by blast
qed

lemma erase_split:
  assumes "rb_valid t" "rb_inorder t = xs @ p # ys" "distinct (rb_inorder t)"
  obtains t' where "ext2fs_rb_erase p t = Some t'" "rb_valid t'" "rb_inorder t' = xs @ ys"
proof -
  obtain c l r gs where *: "focus p t [] = Some (Node c l p r, gs)" "plug (Node c l p r) gs = t"
    "xs = before gs @ rb_inorder l" "ys = rb_inorder r @ after gs"
    using assms(2,3) by (rule focus_split)
  then show ?thesis using rb_erase_node_ok [of c l p r gs] assms(1) that by (auto simp: ext2fs_rb_erase_def)
qed

definition hd_option :: "'a list \<Rightarrow> 'a option" where
  "hd_option xs = (case xs of [] \<Rightarrow> None | x # _ \<Rightarrow> Some x)"

definition last_option :: "'a list \<Rightarrow> 'a option" where
  "last_option xs = (if xs = [] then None else Some (last xs))"

lemma hd_option_simps [simp]: "hd_option [] = None" "hd_option (x # xs) = Some x"
  by (simp_all add: hd_option_def)

lemma last_option_simps [simp]: "last_option [] = None" "last_option (xs @ [x]) = Some x"
  by (simp_all add: last_option_def)

lemma inorder_Nil: "rb_inorder t = [] \<longleftrightarrow> t = Null"
  by (cases t) auto

lemma up_next_after: "up_next fs = hd_option (after fs)"
  by (induction fs rule: up_next.induct) auto

lemma up_prev_before: "up_prev fs = last_option (before fs)"
  by (induction fs rule: up_prev.induct) (auto simp: last_option_def)

lemma first_ok: "node_of (leftmost t fs) = hd_option (rb_inorder t)"
proof (cases "t = Null")
  case False
  then show ?thesis by (rule leftmost_ok [of t fs]) (auto simp: node_of_def)
qed (simp add: node_of_def)

lemma last_ok: "node_of (rightmost t fs) = last_option (rb_inorder t)"
proof (cases "t = Null")
  case False
  moreover have "rb_inorder t \<noteq> []" using False by (cases t) auto
  ultimately show ?thesis using rightmost_ok [of t fs] by (auto simp: node_of_def last_option_def)
qed (simp add: node_of_def)

lemma next_split:
  assumes "rb_inorder t = xs @ p # ys" "distinct (rb_inorder t)"
  shows "ext2fs_rb_next p t = Some (hd_option ys)"
proof -
  obtain c l r gs where *: "focus p t [] = Some (Node c l p r, gs)" "ys = rb_inorder r @ after gs"
    using assms by (rule focus_split)
  then show ?thesis
    by (cases "r = Null") (auto simp: ext2fs_rb_next_def first_ok up_next_after hd_option_def inorder_Nil split: list.splits)
qed

lemma prev_split:
  assumes "rb_inorder t = xs @ p # ys" "distinct (rb_inorder t)"
  shows "ext2fs_rb_prev p t = Some (last_option xs)"
proof -
  obtain c l r gs where *: "focus p t [] = Some (Node c l p r, gs)" "xs = before gs @ rb_inorder l"
    using assms by (rule focus_split)
  then show ?thesis 
    by (cases "l = Null") (auto simp: inorder_Nil ext2fs_rb_prev_def last_ok up_prev_before last_option_def)
qed

text \<open>A descent that follows the order of the nodes.\<close>

definition directed :: "('a \<Rightarrow> direction option) \<Rightarrow> 'a list \<Rightarrow> bool" where
  "directed f xs \<longleftrightarrow> (\<forall>x \<in> set xs. f x \<noteq> None) \<and>
     sorted_wrt (\<lambda>x y. (f y = Some Go_right \<longrightarrow> f x = Some Go_right) \<and> (f x = Some Go_left \<longrightarrow> f y = Some Go_left)) xs"

lemma search_split:
  assumes "directed f (rb_inorder t)"
  shows "\<exists>u gs. rb_search f t fs = Some (u, gs @ fs) \<and> plug u gs = t \<and>
    (u = Null \<longrightarrow> (\<forall>x \<in> set (before gs). f x = Some Go_right) \<and> (\<forall>x \<in> set (after gs). f x = Some Go_left)) \<and>
    (u \<noteq> Null \<longrightarrow> (\<exists>c l x r. u = Node c l x r \<and> f x = Some Found))"
  using assms
proof (induction t arbitrary: fs)
  case Null
  then show ?case by (intro exI [of _ Null] exI [of _ "[]"]) simp
next
  case (Node c l x r)
  have sub: "directed f (rb_inorder l)" "directed f (rb_inorder r)" "f x \<noteq> None"
    using Node.prems by (auto simp: directed_def sorted_wrt_append)
  then obtain d where d: "f x = Some d" by auto
  show ?case
  proof (cases d)
    case Found
    then show ?thesis using d by (intro exI [of _ "Node c l x r"] exI [of _ "[]"]) simp
  next
    case Go_left
    then have "\<forall>y \<in> set (x # rb_inorder r). f y = Some Go_left"
      using Node.prems d by (auto simp: directed_def sorted_wrt_append)
    moreover obtain u gs where "rb_search f l (Left_of c x r # fs) = Some (u, gs @ Left_of c x r # fs)" "plug u gs = l"
      "u = Null \<longrightarrow> (\<forall>x \<in> set (before gs). f x = Some Go_right) \<and> (\<forall>x \<in> set (after gs). f x = Some Go_left)"
      "u \<noteq> Null \<longrightarrow> (\<exists>c l x r. u = Node c l x r \<and> f x = Some Found)"
      using Node.IH(1) [OF sub(1)] by blast
    ultimately show ?thesis
      using d Go_left by (intro exI [of _ u] exI [of _ "gs @ [Left_of c x r]"]) (auto simp: path_append)
  next
    case Go_right
    then have "\<forall>y \<in> set (rb_inorder l @ [x]). f y = Some Go_right"
      using Node.prems d by (auto simp: directed_def sorted_wrt_append)
    moreover obtain u gs where "rb_search f r (Right_of c x l # fs) = Some (u, gs @ Right_of c x l # fs)" "plug u gs = r"
      "u = Null \<longrightarrow> (\<forall>x \<in> set (before gs). f x = Some Go_right) \<and> (\<forall>x \<in> set (after gs). f x = Some Go_left)"
      "u \<noteq> Null \<longrightarrow> (\<exists>c l x r. u = Node c l x r \<and> f x = Some Found)"
      using Node.IH(2) [OF sub(2)] by blast
    ultimately show ?thesis
      using d Go_right by (intro exI [of _ u] exI [of _ "gs @ [Right_of c x l]"]) (auto simp: path_append)
  qed
qed

section \<open>Depth\<close>

abbreviation blacks :: "'a path \<Rightarrow> nat" where
  "blacks fs \<equiv> length (filter (\<lambda>f. frame_color f = RB_BLACK) fs)"

lemma search_plug: "rb_search f t fs = Some (u, gs) \<Longrightarrow> plug u gs = plug t fs"
  by (induction f t fs rule: rb_search.induct) (auto split: option.splits direction.splits)

lemma path_depth: "path_ok n fs \<Longrightarrow> length fs + (if black_above fs then 1 else 0) \<le> 2 * blacks fs"
  by (induction n fs rule: path_ok.induct) (auto split: if_splits)

lemma bheight_plug: "path_ok (bheight t) fs \<Longrightarrow> bheight (plug t fs) = bheight t + blacks fs"
proof (induction fs arbitrary: t)
  case (Cons f fs)
  then have "bheight (fill t f) = bheight t + (if frame_color f = RB_BLACK then 1 else 0)" by (cases f) auto
  then show ?case using Cons by (cases f) auto
qed simp

lemma bheight_size: "invh t \<Longrightarrow> 2 ^ bheight t \<le> length (rb_inorder t) + 1"
proof (induction t)
  case (Node c l x r)
  then have "2 ^ bheight l \<le> length (rb_inorder l) + 1" "2 ^ bheight l \<le> length (rb_inorder r) + 1" by auto
  then show ?case by (cases c) auto
qed simp

section \<open>Theorems\<close>

definition sample_tree :: "nat rb_tree" where
  "sample_tree = Node RB_BLACK (Node RB_BLACK Null 1 Null) 2 (Node RB_RED (Node RB_BLACK Null 3 Null) 4
     (Node RB_BLACK Null 5 (Node RB_RED Null 6 Null)))"

lemma sample_tree_valid: "rb_valid sample_tree"
  by (simp add: rb_valid_def sample_tree_def)

definition sample_path :: "nat path" where
  "sample_path = [Right_of RB_RED 6 Null, Right_of RB_BLACK 5 Null, Right_of RB_RED 4 (Node RB_BLACK Null 3 Null),
     Right_of RB_BLACK 2 (Node RB_BLACK Null 1 Null)]"

text \<open>
  C6. Insertion into a red-black tree: a node linked at any empty link of a valid tree and recoloured
  by \<open>ext2fs_rb_insert_color\<close> gives a valid tree again, with the node at that place of the order;
  no null pointer is followed (there is a grandparent whenever the parent is red).
\<close>

theorem rb_insert_valid:
  assumes "rb_valid (plug Null fs)"
  shows "\<exists>t'. ext2fs_rb_insert_color (ext2fs_rb_link_node p) fs = Some t' \<and> rb_valid t' \<and>
    rb_inorder t' = before fs @ p # after fs"
proof -
  have "path_ok 0 fs" using assms by (simp add: plug_valid)
  then show ?thesis using insert_color_ok [of "ext2fs_rb_link_node p" fs] by (simp add: ext2fs_rb_link_node_def)
qed

theorem rb_insert_valid_witness:
  "\<exists>t'. ext2fs_rb_insert_color (ext2fs_rb_link_node 7) sample_path = Some t' \<and> rb_valid t' \<and> rb_inorder t' = [1, 2, 3, 4, 5, 6, 7]"
  using rb_insert_valid [of sample_path 7] sample_tree_valid by (simp add: sample_path_def sample_tree_def)

text \<open>
  C3. Removal from a red-black tree: \<open>ext2fs_rb_erase\<close> of a node of a valid tree gives a valid tree
  whose order is the old one without that node, and never follows a null pointer (the sibling of a
  node that lacks a black ancestor exists, and so do its children where they are used).
\<close>

theorem rb_erase_valid:
  assumes "rb_valid t" "distinct (rb_inorder t)" "p \<in> set (rb_inorder t)"
  shows "\<exists>t'. ext2fs_rb_erase p t = Some t' \<and> rb_valid t' \<and> rb_inorder t' = remove1 p (rb_inorder t)"
proof -
  obtain xs ys where split: "rb_inorder t = xs @ p # ys" using assms(3) by (meson split_list)
  then obtain t' where "ext2fs_rb_erase p t = Some t'" "rb_valid t'" "rb_inorder t' = xs @ ys"
    using assms(1,2) by (meson erase_split)
  then show ?thesis using split assms(2) by (simp add: remove1_append)
qed

theorem rb_erase_valid_witness:
  "\<exists>t'. ext2fs_rb_erase 1 sample_tree = Some t' \<and> rb_valid t' \<and> rb_inorder t' = [2, 3, 4, 5, 6]"
  using rb_erase_valid [OF sample_tree_valid, of 1] by (simp add: sample_tree_def)

text \<open>
  C28. The depth of a valid red-black tree is logarithmic: a descent from the root of a tree with \<open>n\<close>
  nodes takes \<open>k\<close> steps only if \<open>2 ^ (k div 2) \<le> n + 1\<close>, whatever it looks for.
\<close>

theorem rb_search_depth:
  assumes "rb_valid t" "rb_search f t [] = Some (u, fs)"
  shows "2 ^ (length fs div 2) \<le> length (rb_inorder t) + 1"
proof -
  have t: "plug u fs = t" using search_plug [OF assms(2)] by simp
  then have path: "path_ok (bheight u) fs" using assms(1) by (simp add: plug_valid flip: t)
  have "length fs div 2 \<le> bheight t" using path_depth [OF path] bheight_plug [OF path] t by (auto split: if_splits)
  then have "(2 :: nat) ^ (length fs div 2) \<le> 2 ^ bheight t" by (rule power_increasing) simp
  also have "\<dots> \<le> length (rb_inorder t) + 1" using assms(1) by (intro bheight_size) (simp add: rb_valid_def)
  finally show ?thesis .
qed

theorem rb_search_depth_witness:
  "rb_search (\<lambda>x. Some Go_right) sample_tree [] = Some (Null, sample_path) \<and>
   2 ^ (length sample_path div 2) \<le> length (rb_inorder sample_tree) + 1"
proof -
  have run: "rb_search (\<lambda>x. Some Go_right) sample_tree [] = Some (Null, sample_path)"
    by (simp add: sample_tree_def sample_path_def)
  then show ?thesis using rb_search_depth [OF sample_tree_valid run] by blast
qed

end
