(* ===== verification/Blkmap_Rb.thy ===== *)
theory Blkmap_Rb
  imports Blkmap_Ba Rbtree "HOL-Library.Monad_Syntax"
begin

text \<open>
  The red-black tree back end of the 64-bit bitmaps, \<open>external/e2fsprogs/lib/ext2fs/blkmap64_rb.c\<close>.
  The tree holds the addresses of extents, the extents themselves live in a heap, and three cursors
  remember nodes between calls. Following an address that is not in the heap, or a null pointer, is
  the result \<open>None\<close>; the lemmas show that it does not happen. The table of operations satisfies the
  same contract as the bit array, so that the two back ends cannot be told apart by the calls of the
  contract.
\<close>

section \<open>State\<close>

record rb_extent =
  ext_start :: blk64
  ext_count :: blk64

type_synonym ptr = nat

record rb_private =
  rb_root :: "ptr rb_tree"
  rb_heap :: "ptr \<Rightarrow> rb_extent option"
  rb_fresh :: ptr
  wcursor :: "ptr option"
  rcursor :: "ptr option"
  rcursor_next :: "ptr option"

text \<open>Counts and extents as the code adds them, in 64 bits.\<close>

abbreviation ext_end :: "rb_extent \<Rightarrow> blk64" where
  "ext_end e \<equiv> add64 (ext_start e) (ext_count e)"

definition rb_alloc_private_data :: rb_private where
  "rb_alloc_private_data =
     \<lparr>rb_root = Null, rb_heap = (\<lambda>p. None), rb_fresh = 0, wcursor = None, rcursor = None, rcursor_next = None\<rparr>"

text \<open>A new extent gets the next unused address.\<close>

definition rb_get_new_extent :: "blk64 \<Rightarrow> blk64 \<Rightarrow> rb_private \<Rightarrow> ptr \<times> rb_private" where
  "rb_get_new_extent start count bp =
     (let p = rb_fresh bp
      in (p, bp\<lparr>rb_heap := (rb_heap bp)(p \<mapsto> \<lparr>ext_start = start, ext_count = count\<rparr>), rb_fresh := p + 1\<rparr>))"

definition rb_free_extent :: "ptr \<Rightarrow> rb_private \<Rightarrow> rb_private" where
  "rb_free_extent p bp =
     bp\<lparr>wcursor := (if wcursor bp = Some p then None else wcursor bp),
        rcursor := (if rcursor bp = Some p then None else rcursor bp),
        rcursor_next := (if rcursor_next bp = Some p then None else rcursor_next bp),
        rb_heap := (rb_heap bp)(p := None)\<rparr>"

text \<open>\<open>ext2fs_rb_erase\<close> followed by \<open>rb_free_extent\<close>.\<close>

definition erase_extent :: "ptr \<Rightarrow> rb_private \<Rightarrow> rb_private option" where
  "erase_extent p bp =
     do {
       root \<leftarrow> ext2fs_rb_erase p (rb_root bp);
       Some (rb_free_extent p (bp\<lparr>rb_root := root\<rparr>))
     }"

section \<open>Test\<close>

text \<open>Where the node at an address sends a search for a bit, and a search for an extent to extend.\<close>

definition covers :: "rb_private \<Rightarrow> blk64 \<Rightarrow> ptr \<Rightarrow> direction option" where
  "covers bp n p =
     map_option (\<lambda>e. if n < ext_start e then Go_left else if ext_end e \<le> n then Go_right else Found) (rb_heap bp p)"

definition touches :: "rb_private \<Rightarrow> blk64 \<Rightarrow> ptr \<Rightarrow> direction option" where
  "touches bp n p =
     map_option (\<lambda>e. if n < ext_start e then Go_left else if ext_end e < n then Go_right else Found) (rb_heap bp p)"

definition search_tree :: "rb_private \<Rightarrow> blk64 \<Rightarrow> (bool \<times> rb_private) option" where
  "search_tree bp n =
     do {
       (u, fs) \<leftarrow> rb_search (covers bp n) (rb_root bp) [];
       case u of
         Null \<Rightarrow> Some (False, bp)
       | Node c l p r \<Rightarrow> Some (True, bp\<lparr>rcursor := Some p, rcursor_next := None\<rparr>)
     }"

text \<open>The write cursor is tried before the tree is searched.\<close>

definition test_wcursor :: "rb_private \<Rightarrow> blk64 \<Rightarrow> (bool \<times> rb_private) option" where
  "test_wcursor bp n =
     (case wcursor bp of
        None \<Rightarrow> search_tree bp n
      | Some w \<Rightarrow>
          do {
            e \<leftarrow> rb_heap bp w;
            if ext_start e \<le> n \<and> n < ext_end e then Some (True, bp) else search_tree bp n
          })"

definition rb_test_bit :: "rb_private \<Rightarrow> blk64 \<Rightarrow> (bool \<times> rb_private) option" where
  "rb_test_bit bp n =
     (case rcursor bp of
        None \<Rightarrow> search_tree bp n
      | Some rc \<Rightarrow>
          do {
            e \<leftarrow> rb_heap bp rc;
            if ext_start e \<le> n \<and> n < ext_end e then Some (True, bp)
            else do {
              next_ext \<leftarrow> (case rcursor_next bp of Some q \<Rightarrow> Some (Some q) | None \<Rightarrow> ext2fs_rb_next rc (rb_root bp));
              bp \<leftarrow> Some (bp\<lparr>rcursor_next := next_ext\<rparr>);
              gap \<leftarrow> (case next_ext of
                         None \<Rightarrow> Some False
                       | Some q \<Rightarrow> map_option (\<lambda>e'. ext_end e \<le> n \<and> n < ext_start e') (rb_heap bp q));
              if gap then Some (False, bp)
              else do {
                bp \<leftarrow> Some (bp\<lparr>rcursor := None, rcursor_next := None\<rparr>);
                test_wcursor bp n
              }
            }
          })"

section \<open>Insertion\<close>

text \<open>The loop that merges the extents to the right of the new one.\<close>

partial_function (option) merge_right ::
  "blk64 \<Rightarrow> blk64 \<Rightarrow> ptr option \<Rightarrow> rb_private \<Rightarrow> (blk64 \<times> rb_private) option" where
  "merge_right start count node bp =
     (case node of
        None \<Rightarrow> Some (count, bp)
      | Some p \<Rightarrow>
          do {
            next_node \<leftarrow> ext2fs_rb_next p (rb_root bp);
            e \<leftarrow> rb_heap bp p;
            if ext_end e \<le> start then merge_right start count next_node bp
            else if add64 start count < ext_start e then Some (count, bp)
            else if ext_end e \<le> add64 start count then
              do { bp \<leftarrow> erase_extent p bp; merge_right start count next_node bp }
            else
              do {
                bp \<leftarrow> erase_extent p bp;
                Some (add64 count (sub64 (ext_end e) (add64 start count)), bp)
              }
          })"

definition skip_insert :: "blk64 \<Rightarrow> blk64 \<Rightarrow> ptr \<Rightarrow> rb_private \<Rightarrow> rb_private option" where
  "skip_insert start count p bp =
     do {
       node \<leftarrow> ext2fs_rb_next p (rb_root bp);
       (count, bp) \<leftarrow> merge_right start count node bp;
       Some (bp\<lparr>rb_heap := (rb_heap bp)(p \<mapsto> \<lparr>ext_start = start, ext_count = count\<rparr>)\<rparr>)
     }"

definition got_extent :: "blk64 \<Rightarrow> blk64 \<Rightarrow> ptr \<Rightarrow> rb_private \<Rightarrow> (bool \<times> rb_private) option" where
  "got_extent start count p bp =
     do {
       e \<leftarrow> rb_heap bp p;
       if add64 start count \<le> ext_end e then Some (True, bp)
       else do {
         bp \<leftarrow> skip_insert (ext_start e) (add64 count (sub64 start (ext_start e))) p bp;
         Some (ext_end e \<noteq> start, bp)
       }
     }"

definition insert_new :: "blk64 \<Rightarrow> blk64 \<Rightarrow> ptr path \<Rightarrow> rb_private \<Rightarrow> (bool \<times> rb_private) option" where
  "insert_new start count path bp =
     (let (p, bp) = rb_get_new_extent start count bp
      in do {
           root \<leftarrow> ext2fs_rb_insert_color (ext2fs_rb_link_node p) path;
           bp \<leftarrow> Some (bp\<lparr>rb_root := root, wcursor := Some p\<rparr>);
           node \<leftarrow> ext2fs_rb_prev p (rb_root bp);
           (start, count, bp) \<leftarrow>
             (case node of
                None \<Rightarrow> Some (start, count, bp)
              | Some q \<Rightarrow>
                  do {
                    e \<leftarrow> rb_heap bp q;
                    if ext_end e = start
                    then do { bp \<leftarrow> erase_extent q bp; Some (ext_start e, add64 count (ext_count e), bp) }
                    else Some (start, count, bp)
                  });
           bp \<leftarrow> skip_insert start count p bp;
           Some (False, bp)
         })"

definition insert_search :: "blk64 \<Rightarrow> blk64 \<Rightarrow> rb_private \<Rightarrow> (bool \<times> rb_private) option" where
  "insert_search start count bp =
     do {
       (u, path) \<leftarrow> rb_search (touches bp start) (rb_root bp) [];
       case u of
         Null \<Rightarrow> insert_new start count path bp
       | Node c l p r \<Rightarrow> got_extent start count p bp
     }"

definition rb_insert_extent :: "blk64 \<Rightarrow> blk64 \<Rightarrow> rb_private \<Rightarrow> (bool \<times> rb_private) option" where
  "rb_insert_extent start count bp =
     (let bp = bp\<lparr>rcursor_next := None\<rparr>
      in case wcursor bp of
           None \<Rightarrow> insert_search start count bp
         | Some w \<Rightarrow>
             do {
               e \<leftarrow> rb_heap bp w;
               if ext_start e \<le> start \<and> start \<le> ext_end e then got_extent start count w bp
               else insert_search start count bp
             })"

section \<open>Removal\<close>

text \<open>
  The descent of \<open>rb_remove_extent\<close>: it returns the result of the call, or the node where the loop to
  the right starts, with the result so far. A node that is cut at its right end is visited again and
  sends the search to its right.
\<close>

fun remove_search ::
  "blk64 \<Rightarrow> blk64 \<Rightarrow> ptr rb_tree \<Rightarrow> ptr option \<Rightarrow> bool \<Rightarrow> rb_private \<Rightarrow>
   (bool \<times> rb_private + ptr option \<times> bool \<times> rb_private) option" where
  "remove_search start count Null parent retval bp = Some (Inr (parent, retval, bp))"
| "remove_search start count (Node c l p r) parent retval bp =
     do {
       e \<leftarrow> rb_heap bp p;
       if start < ext_start e then remove_search start count l (Some p) retval bp
       else if ext_end e \<le> start then remove_search start count r (Some p) retval bp
       else if ext_start e < start \<and> add64 start count < ext_end e then
         do {
           bp' \<leftarrow> Some (bp\<lparr>rb_heap := (rb_heap bp)(p \<mapsto> e\<lparr>ext_count := sub64 start (ext_start e)\<rparr>)\<rparr>);
           (_, bp') \<leftarrow> rb_insert_extent (add64 start count) (sub64 (ext_end e) (add64 start count)) bp';
           Some (Inl (True, bp'))
         }
       else do {
         cut \<leftarrow> Some (ext_end e \<le> add64 start count);
         e \<leftarrow> Some (if cut then e\<lparr>ext_count := sub64 start (ext_start e)\<rparr> else e);
         bp \<leftarrow> Some (bp\<lparr>rb_heap := (rb_heap bp)(p \<mapsto> e)\<rparr>);
         if ext_count e = 0 then
           do {
             node \<leftarrow> ext2fs_rb_next p (rb_root bp);
             bp \<leftarrow> erase_extent p bp;
             Some (Inr (node, cut \<or> retval, bp))
           }
         else if start = ext_start e then
           Some (Inl (True, bp\<lparr>rb_heap := (rb_heap bp)(p \<mapsto>
             e\<lparr>ext_start := add64 (ext_start e) count, ext_count := sub64 (ext_count e) count\<rparr>)\<rparr>))
         else remove_search start count r (Some p) (cut \<or> retval) bp
       }
     }"

partial_function (option) remove_right ::
  "blk64 \<Rightarrow> blk64 \<Rightarrow> ptr option \<Rightarrow> bool \<Rightarrow> rb_private \<Rightarrow> (bool \<times> rb_private) option" where
  "remove_right start count node retval bp =
     (case node of
        None \<Rightarrow> Some (retval, bp)
      | Some p \<Rightarrow>
          do {
            next_node \<leftarrow> ext2fs_rb_next p (rb_root bp);
            e \<leftarrow> rb_heap bp p;
            if ext_end e \<le> start then remove_right start count next_node retval bp
            else if add64 start count < ext_start e then Some (retval, bp)
            else if ext_end e \<le> add64 start count then
              do { bp \<leftarrow> erase_extent p bp; remove_right start count next_node True bp }
            else
              Some (True, bp\<lparr>rb_heap := (rb_heap bp)(p \<mapsto>
                \<lparr>ext_start = add64 start count,
                 ext_count = sub64 (ext_count e) (sub64 (add64 start count) (ext_start e))\<rparr>)\<rparr>)
          })"

definition rb_remove_extent :: "blk64 \<Rightarrow> blk64 \<Rightarrow> rb_private \<Rightarrow> (bool \<times> rb_private) option" where
  "rb_remove_extent start count bp =
     (if rb_root bp = Null then Some (False, bp)
      else do {
        r \<leftarrow> remove_search start count (rb_root bp) None False bp;
        case r of
          Inl result \<Rightarrow> Some result
        | Inr (parent, retval, bp) \<Rightarrow> remove_right start count parent retval bp
      })"

section \<open>The table of operations\<close>

text \<open>
  The private part of a bitmap is \<open>None\<close> after undefined behaviour; \<open>rb_run\<close> runs a call on the
  private part.
\<close>

type_synonym rb_bmap = "rb_private option bmap"

definition rb_run :: "(rb_private \<Rightarrow> (bool \<times> rb_private) option) \<Rightarrow> rb_bmap \<Rightarrow> bool \<times> rb_bmap" where
  "rb_run f b =
     (case Option.bind (bm_private b) f of
        None \<Rightarrow> (False, b\<lparr>bm_private := None\<rparr>)
      | Some (r, bp) \<Rightarrow> (r, b\<lparr>bm_private := Some bp\<rparr>))"

definition rb_new_bmap :: "bool \<Rightarrow> blk64 \<Rightarrow> blk64 \<Rightarrow> errcode + rb_private option" where
  "rb_new_bmap mem start real_end = (if \<not> mem then Inl EXT2_ET_NO_MEMORY else Inr (Some rb_alloc_private_data))"

text \<open>The loop of \<open>rb_copy_bmap\<close>: each extent is linked to the right of the last node.\<close>

definition link_last :: "ptr \<Rightarrow> ptr rb_tree \<Rightarrow> ptr rb_tree option" where
  "link_last p root =
     (case rightmost root [] of
        Some (Node c l x r, fs) \<Rightarrow> ext2fs_rb_insert_color (ext2fs_rb_link_node p) (Right_of c x l # fs)
      | _ \<Rightarrow> ext2fs_rb_insert_color (ext2fs_rb_link_node p) [])"

fun copy_extents :: "rb_extent option list \<Rightarrow> rb_private \<Rightarrow> rb_private option" where
  "copy_extents [] dest = Some dest"
| "copy_extents (src_ext # exts) dest =
     do {
       e \<leftarrow> src_ext;
       (p, dest) \<leftarrow> Some (rb_get_new_extent (ext_start e) (ext_count e) dest);
       root \<leftarrow> link_last p (rb_root dest);
       copy_extents exts (dest\<lparr>rb_root := root\<rparr>)
     }"

definition rb_copy_bmap :: "bool \<Rightarrow> rb_bmap \<Rightarrow> (errcode + rb_private option) \<times> rb_bmap" where
  "rb_copy_bmap mem src =
     (if \<not> mem then (Inl EXT2_ET_NO_MEMORY, src)
      else case bm_private src of
        None \<Rightarrow> (Inr None, src)
      | Some bp \<Rightarrow>
          (Inr (copy_extents (map (rb_heap bp) (rb_inorder (rb_root bp))) rb_alloc_private_data),
           src\<lparr>bm_private := Some (bp\<lparr>rcursor := None\<rparr>)\<rparr>))"

text \<open>\<open>rb_truncate\<close>, which frees the extents without looking at the cursors.\<close>

partial_function (option) rb_truncate :: "blk64 \<Rightarrow> rb_private \<Rightarrow> rb_private option" where
  "rb_truncate new_max bp =
     (case ext2fs_rb_last (rb_root bp) of
        None \<Rightarrow> Some bp
      | Some p \<Rightarrow>
          do {
            e \<leftarrow> rb_heap bp p;
            if sub64 (ext_end e) 1 \<le> new_max then Some bp
            else if new_max < ext_start e then
              do {
                root \<leftarrow> ext2fs_rb_erase p (rb_root bp);
                rb_truncate new_max (bp\<lparr>rb_root := root, rb_heap := (rb_heap bp)(p := None)\<rparr>)
              }
            else rb_truncate new_max (bp\<lparr>rb_heap := (rb_heap bp)(p \<mapsto>
                   e\<lparr>ext_count := add64 (sub64 new_max (ext_start e)) 1\<rparr>)\<rparr>)
          })"

definition rb_resize_bmap :: "bool \<Rightarrow> rb_bmap \<Rightarrow> blk64 \<Rightarrow> blk64 \<Rightarrow> errcode \<times> rb_bmap" where
  "rb_resize_bmap mem b new_end new_real_end =
     (let b = (if bm_real_end b \<le> new_real_end then b
               else b\<lparr>bm_private := Option.bind (bm_private b)
                        (\<lambda>bp. rb_truncate new_real_end (bp\<lparr>rcursor := None, wcursor := None\<rparr>))\<rparr>)
      in (Success, b\<lparr>bm_end := new_end, bm_real_end := new_real_end\<rparr>))"

definition rb_mark_bmap :: "rb_bmap \<Rightarrow> blk64 \<Rightarrow> bool \<times> rb_bmap" where
  "rb_mark_bmap b arg = rb_run (rb_insert_extent (sub64 arg (bm_start b)) 1) b"

definition rb_unmark_bmap :: "rb_bmap \<Rightarrow> blk64 \<Rightarrow> bool \<times> rb_bmap" where
  "rb_unmark_bmap b arg = rb_run (rb_remove_extent (sub64 arg (bm_start b)) 1) b"

definition rb_test_bmap :: "rb_bmap \<Rightarrow> blk64 \<Rightarrow> bool \<times> rb_bmap" where
  "rb_test_bmap b arg = rb_run (\<lambda>bp. rb_test_bit bp (sub64 arg (bm_start b))) b"

definition rb_mark_bmap_extent :: "rb_bmap \<Rightarrow> blk64 \<Rightarrow> nat \<Rightarrow> rb_bmap" where
  "rb_mark_bmap_extent b arg num = snd (rb_run (rb_insert_extent (sub64 arg (bm_start b)) num) b)"

definition rb_unmark_bmap_extent :: "rb_bmap \<Rightarrow> blk64 \<Rightarrow> nat \<Rightarrow> rb_bmap" where
  "rb_unmark_bmap_extent b arg num = snd (rb_run (rb_remove_extent (sub64 arg (bm_start b)) num) b)"

text \<open>The loop of \<open>rb_test_clear_bmap_extent\<close> over the nodes from the last one visited.\<close>

partial_function (option) clear_right :: "blk64 \<Rightarrow> nat \<Rightarrow> ptr option \<Rightarrow> rb_private \<Rightarrow> bool option" where
  "clear_right start len node bp =
     (case node of
        None \<Rightarrow> Some True
      | Some p \<Rightarrow>
          do {
            next_node \<leftarrow> ext2fs_rb_next p (rb_root bp);
            e \<leftarrow> rb_heap bp p;
            if ext_end e \<le> start then clear_right start len next_node bp
            else Some (add64 start len \<le> ext_start e)
          })"

definition test_clear :: "rb_private \<Rightarrow> blk64 \<Rightarrow> nat \<Rightarrow> bool option" where
  "test_clear bp start len =
     (if len = 0 \<or> rb_root bp = Null then Some True
      else do {
        (u, path) \<leftarrow> rb_search (covers bp start) (rb_root bp) [];
        case u of
          Null \<Rightarrow> clear_right start len (path_parent path) bp
        | Node c l p r \<Rightarrow> Some False
      })"

definition rb_test_clear_bmap_extent :: "rb_bmap \<Rightarrow> blk64 \<Rightarrow> nat \<Rightarrow> bool" where
  "rb_test_clear_bmap_extent b start len =
     (case Option.bind (bm_private b) (\<lambda>bp. test_clear bp (sub64 start (bm_start b)) len) of
        None \<Rightarrow> False
      | Some r \<Rightarrow> r)"

definition rb_clear_bmap :: "rb_bmap \<Rightarrow> rb_bmap" where
  "rb_clear_bmap b =
     b\<lparr>bm_private := map_option (\<lambda>bp. bp\<lparr>rb_root := Null, rb_heap := (\<lambda>p. None),
                                       rcursor := None, rcursor_next := None, wcursor := None\<rparr>) (bm_private b)\<rparr>"

text \<open>
  \<open>rb_set_bmap_range\<close>: the loop over the bits of the buffer, a byte at a time where it is full or
  empty; \<open>first_set\<close> is the start of the current run. The offset \<open>start - bitmap->start\<close> is an
  argument.
\<close>

function set_range_loop :: "blk64 \<Rightarrow> nat \<Rightarrow> bytes \<Rightarrow> nat \<Rightarrow> nat option \<Rightarrow> rb_private \<Rightarrow> rb_private option" where
  "set_range_loop off num cp i first_set bp =
     (if num \<le> i then
        (case first_set of
           None \<Rightarrow> Some bp
         | Some f \<Rightarrow> map_option snd (rb_insert_extent (add64 off f) (num - f) bp))
      else if i mod 8 = 0 \<and> cp ! (i div 8) = 0xff then
        set_range_loop off num cp (i + 8) (Some (case first_set of None \<Rightarrow> i | Some f \<Rightarrow> f)) bp
      else if i mod 8 = 0 \<and> cp ! (i div 8) = 0 \<and> first_set = None then
        set_range_loop off num cp (i + 8) None bp
      else if ext2fs_test_bit64 i cp \<noteq> 0 then
        set_range_loop off num cp (i + 1) (Some (case first_set of None \<Rightarrow> i | Some f \<Rightarrow> f)) bp
      else
        (case first_set of
           None \<Rightarrow> set_range_loop off num cp (i + 1) None bp
         | Some f \<Rightarrow>
             (case rb_insert_extent (add64 off f) (i - f) bp of
                None \<Rightarrow> None
              | Some (_, bp) \<Rightarrow> set_range_loop off num cp (i + 1) None bp)))"
  by pat_completeness auto
termination by (relation "measure (\<lambda>(off, num, cp, i, first_set, bp). num - i)") auto

declare set_range_loop.simps [simp del]

definition rb_set_bmap_range :: "rb_bmap \<Rightarrow> blk64 \<Rightarrow> nat \<Rightarrow> bytes \<Rightarrow> rb_bmap" where
  "rb_set_bmap_range b start num cp =
     b\<lparr>bm_private := Option.bind (bm_private b) (set_range_loop (sub64 start (bm_start b)) num cp 0 None)\<rparr>"

text \<open>
  \<open>rb_get_bmap_range\<close>. The count of an extent passes through the type \<open>int\<close>. The buffer is left as
  it is when the tree is empty.
\<close>

definition to_int32 :: "int \<Rightarrow> int" where
  "to_int32 n = signed_take_bit 31 n"

function fill_run :: "bytes \<Rightarrow> nat \<Rightarrow> nat \<Rightarrow> bytes" where
  "fill_run out pos count =
     (if count = 0 then out
      else if 8 \<le> count \<and> pos mod 8 = 0 then
        fill_run (splice out (pos div 8) (replicate (count div 8) 0xff)) (pos + 8 * (count div 8)) (count - 8 * (count div 8))
      else fill_run (snd (ext2fs_set_bit64 pos out)) (pos + 1) (count - 1))"
  by pat_completeness auto
termination by (relation "measure (\<lambda>(out, pos, count). count)") (auto simp: less_eq_div_iff_mult_less_eq)

declare fill_run.simps [simp del]

partial_function (option) get_right :: "blk64 \<Rightarrow> nat \<Rightarrow> ptr option \<Rightarrow> rb_private \<Rightarrow> bytes \<Rightarrow> bytes option" where
  "get_right start num node bp out =
     (case node of
        None \<Rightarrow> Some out
      | Some p \<Rightarrow>
          do {
            next_node \<leftarrow> ext2fs_rb_next p (rb_root bp);
            e \<leftarrow> rb_heap bp p;
            pos \<leftarrow> Some (ext_start e);
            count \<leftarrow> Some (to_int32 (int (ext_count e)));
            if add64 start num \<le> pos then Some out
            else if pos < start \<and> to_int32 (count - int (start - pos)) < 0 then get_right start num next_node bp out
            else do {
              (pos, count) \<leftarrow> Some (if pos < start then (start, to_int32 (count - int (start - pos))) else (pos, count));
              count \<leftarrow> Some (if int (add64 start num) < (int pos + count) mod 2 ^ 64
                             then to_int32 (int (add64 start num) - int pos) else count);
              get_right start num next_node bp (fill_run out (sub64 pos start) (nat count))
            }
          })"

definition get_range :: "rb_private \<Rightarrow> blk64 \<Rightarrow> nat \<Rightarrow> bytes \<Rightarrow> bytes option" where
  "get_range bp start num out =
     (if rb_root bp = Null then Some out
      else do {
        (u, path) \<leftarrow> rb_search (covers bp start) (rb_root bp) [];
        parent \<leftarrow> Some (case u of Null \<Rightarrow> path_parent path | Node c l p r \<Rightarrow> Some p);
        get_right start num parent bp (splice out 0 (replicate ((num + 7) div 8) 0))
      })"

definition rb_get_bmap_range :: "rb_bmap \<Rightarrow> blk64 \<Rightarrow> nat \<Rightarrow> bytes \<Rightarrow> bytes" where
  "rb_get_bmap_range b start num out =
     (case Option.bind (bm_private b) (\<lambda>bp. get_range bp (sub64 start (bm_start b)) num out) of
        None \<Rightarrow> out
      | Some out \<Rightarrow> out)"

definition ext2fs_blkmap64_rbtree :: "rb_private option bitmap_ops" where
  "ext2fs_blkmap64_rbtree =
     \<lparr>op_new_bmap = rb_new_bmap, op_copy_bmap = rb_copy_bmap, op_resize_bmap = rb_resize_bmap,
      op_mark_bmap = rb_mark_bmap, op_unmark_bmap = rb_unmark_bmap, op_test_bmap = rb_test_bmap,
      op_mark_bmap_extent = rb_mark_bmap_extent, op_unmark_bmap_extent = rb_unmark_bmap_extent,
      op_test_clear_bmap_extent = rb_test_clear_bmap_extent,
      op_set_bmap_range = rb_set_bmap_range, op_get_bmap_range = rb_get_bmap_range,
      op_clear_bmap = rb_clear_bmap, op_find_first_zero = None\<rparr>"

section \<open>Invariant\<close>

abbreviation rb_nodes :: "rb_private \<Rightarrow> ptr list" where
  "rb_nodes bp \<equiv> rb_inorder (rb_root bp)"

definition span :: "rb_extent \<Rightarrow> nat set" where
  "span e = {ext_start e..<ext_start e + ext_count e}"

definition spans :: "(ptr \<Rightarrow> rb_extent option) \<Rightarrow> ptr list \<Rightarrow> nat set" where
  "spans h ps = (\<Union>p \<in> set ps. span (the (h p)))"

definition ext_ok :: "rb_extent \<Rightarrow> bool" where
  "ext_ok e \<longleftrightarrow> 0 < ext_count e \<and> ext_start e + ext_count e \<le> 2 ^ 63"

text \<open>The extents of the nodes, in order, are not empty and have a gap between any two.\<close>

definition before_ext :: "(ptr \<Rightarrow> rb_extent option) \<Rightarrow> ptr \<Rightarrow> ptr \<Rightarrow> bool" where
  "before_ext h p q \<longleftrightarrow> ext_start (the (h p)) + ext_count (the (h p)) < ext_start (the (h q))"

definition exts_ok :: "(ptr \<Rightarrow> rb_extent option) \<Rightarrow> ptr list \<Rightarrow> bool" where
  "exts_ok h ps \<longleftrightarrow> (\<forall>p \<in> set ps. h p \<noteq> None \<and> ext_ok (the (h p))) \<and> sorted_wrt (before_ext h) ps"

definition cursors_ok :: "rb_private \<Rightarrow> bool" where
  "cursors_ok bp \<longleftrightarrow>
     (\<forall>w. wcursor bp = Some w \<longrightarrow> w \<in> set (rb_nodes bp)) \<and>
     (\<forall>r. rcursor bp = Some r \<longrightarrow> r \<in> set (rb_nodes bp) \<and>
       (\<forall>n. rcursor_next bp = Some n \<longrightarrow> (\<exists>xs ys. rb_nodes bp = xs @ r # n # ys)))"

definition tree_ok :: "rb_private \<Rightarrow> bool" where
  "tree_ok bp \<longleftrightarrow> rb_valid (rb_root bp) \<and> distinct (rb_nodes bp) \<and> (\<forall>p \<in> set (rb_nodes bp). p < rb_fresh bp) \<and> cursors_ok bp"

definition rb_ok :: "rb_private \<Rightarrow> bool" where
  "rb_ok bp \<longleftrightarrow> tree_ok bp \<and> exts_ok (rb_heap bp) (rb_nodes bp)"

abbreviation rb_set :: "rb_private \<Rightarrow> nat set" where
  "rb_set bp \<equiv> spans (rb_heap bp) (rb_nodes bp)"

lemma ext_end_ok [simp]: "ext_ok e \<Longrightarrow> ext_end e = ext_start e + ext_count e"
  by (simp add: ext_ok_def)

lemma exts_ok_append:
  "exts_ok h (xs @ ys) \<longleftrightarrow> exts_ok h xs \<and> exts_ok h ys \<and> (\<forall>p \<in> set xs. \<forall>q \<in> set ys. before_ext h p q)"
  by (auto simp: exts_ok_def sorted_wrt_append)

lemma exts_ok_Cons:
  "exts_ok h (p # ps) \<longleftrightarrow> h p \<noteq> None \<and> ext_ok (the (h p)) \<and> exts_ok h ps \<and> (\<forall>q \<in> set ps. before_ext h p q)"
  by (auto simp: exts_ok_def)

lemma exts_ok_Nil [simp]: "exts_ok h []"
  by (simp add: exts_ok_def)

lemma spans_simps [simp]: "spans h [] = {}" "spans h (p # ps) = span (the (h p)) \<union> spans h ps"
  "spans h (ps @ qs) = spans h ps \<union> spans h qs"
  by (auto simp: spans_def)

lemma exts_cong:
  assumes "\<forall>p \<in> set ps. h p = h' p"
  shows "exts_ok h ps = exts_ok h' ps" "spans h ps = spans h' ps"
proof -
  have "sorted_wrt (before_ext h) ps = sorted_wrt (before_ext h') ps"
    using assms by (intro iffI; elim sorted_wrt_mono_rel [rotated]) (auto simp: before_ext_def)
  then show "exts_ok h ps = exts_ok h' ps" using assms by (auto simp: exts_ok_def)
  show "spans h ps = spans h' ps" using assms by (auto simp: spans_def)
qed

lemma spans_below: "exts_ok h ps \<Longrightarrow> n \<in> spans h ps \<Longrightarrow> n < 2 ^ 63"
  by (fastforce simp: spans_def span_def exts_ok_def ext_ok_def)

text \<open>Removing another node keeps two nodes adjacent.\<close>

lemma adjacent_remove:
  assumes "xs @ p # ys = as @ r # n # bs" "distinct (xs @ p # ys)" "p \<noteq> r" "p \<noteq> n"
  shows "\<exists>as' bs'. xs @ ys = as' @ r # n # bs'"
proof -
  have "xs @ ys = remove1 p (xs @ p # ys)" using assms(2) by (simp add: remove1_append)
  also have "\<dots> = remove1 p (as @ r # n # bs)" using assms(1) by simp
  also have "\<dots> = remove1 p as @ r # n # bs \<or> \<dots> = as @ r # n # remove1 p bs"
    using assms(3,4) by (simp add: remove1_append)
  finally show ?thesis by blast
qed

lemma erase_extent_ok:
  assumes "tree_ok bp" "rb_nodes bp = xs @ p # ys"
  obtains bp' where "erase_extent p bp = Some bp'" "tree_ok bp'" "rb_nodes bp' = xs @ ys"
    "rb_heap bp' = (rb_heap bp)(p := None)" "rb_fresh bp' = rb_fresh bp"
proof -
  have ok: "rb_valid (rb_root bp)" "distinct (rb_nodes bp)" "cursors_ok bp" using assms(1) by (auto simp: tree_ok_def)
  obtain t where t: "ext2fs_rb_erase p (rb_root bp) = Some t" "rb_valid t" "rb_inorder t = xs @ ys"
    using ok(1) assms(2) ok(2) by (rule erase_split)
  let ?bp = "rb_free_extent p (bp\<lparr>rb_root := t\<rparr>)"
  have "cursors_ok ?bp"
    unfolding cursors_ok_def
  proof (intro conjI allI impI)
    fix w assume "wcursor ?bp = Some w"
    then show "w \<in> set (rb_nodes ?bp)" using ok(3) t assms(2) by (auto simp: rb_free_extent_def cursors_ok_def split: if_splits)
  next
    fix r assume r: "rcursor ?bp = Some r"
    then show "r \<in> set (rb_nodes ?bp)" using ok(3) t assms(2) by (auto simp: rb_free_extent_def cursors_ok_def split: if_splits)
    fix n assume n: "rcursor_next ?bp = Some n"
    have "rcursor bp = Some r" "rcursor_next bp = Some n" "p \<noteq> r" "p \<noteq> n"
      using r n by (auto simp: rb_free_extent_def split: if_splits)
    moreover from this obtain as bs where "xs @ p # ys = as @ r # n # bs" using ok(3) assms(2) by (auto simp: cursors_ok_def)
    ultimately show "\<exists>as bs. rb_nodes ?bp = as @ r # n # bs"
      using adjacent_remove [of xs p ys as r n bs] ok(2) assms(2) t(3) by (simp add: rb_free_extent_def)
  qed
  then have "tree_ok ?bp" using t assms by (auto simp: tree_ok_def rb_free_extent_def)
  then show ?thesis using t that [of ?bp] by (simp add: erase_extent_def rb_free_extent_def)
qed

section \<open>Insertion\<close>

text \<open>The result of merging an extent with the nodes that follow it.\<close>

definition merged :: "blk64 \<Rightarrow> blk64 \<Rightarrow> ptr list \<Rightarrow> ptr list \<Rightarrow> rb_private \<Rightarrow> blk64 \<times> rb_private \<Rightarrow> bool" where
  "merged start count xs ys bp r \<longleftrightarrow>
     (case r of (count', bp') \<Rightarrow>
        tree_ok bp' \<and> rb_fresh bp' = rb_fresh bp \<and> count \<le> count' \<and> start + count' \<le> 2 ^ 63 \<and>
        (\<exists>zs. rb_nodes bp' = xs @ zs \<and> (\<forall>q \<in> set (xs @ zs). rb_heap bp' q = rb_heap bp q) \<and> exts_ok (rb_heap bp) zs \<and>
           set zs \<subseteq> set ys \<and> (\<forall>q \<in> set zs. start + count' < ext_start (the (rb_heap bp q))) \<and>
           {start..<start + count'} \<union> spans (rb_heap bp) zs = {start..<start + count} \<union> spans (rb_heap bp) ys))"

lemma mergedI:
  assumes "tree_ok bp'" "rb_fresh bp' = rb_fresh bp" "count \<le> count'" "start + count' \<le> 2 ^ 63" "rb_nodes bp' = xs @ zs"
    "\<forall>q \<in> set (xs @ zs). rb_heap bp' q = rb_heap bp q" "exts_ok (rb_heap bp) zs" "set zs \<subseteq> set ys"
    "\<forall>q \<in> set zs. start + count' < ext_start (the (rb_heap bp q))"
    "{start..<start + count'} \<union> spans (rb_heap bp) zs = {start..<start + count} \<union> spans (rb_heap bp) ys"
  shows "merged start count xs ys bp (count', bp')"
  using assms unfolding merged_def by blast

lemma merge_right_ok:
  assumes "tree_ok bp" "rb_nodes bp = xs @ ys" "exts_ok (rb_heap bp) ys"
    "\<forall>q \<in> set ys. start < ext_start (the (rb_heap bp q))" "start + count \<le> 2 ^ 63"
  shows "\<exists>r. merge_right start count (hd_option ys) bp = Some r \<and> merged start count xs ys bp r"
  using assms
proof (induction ys arbitrary: bp)
  case Nil
  then have "merged start count xs [] bp (count, bp)" by (intro mergedI [where zs = "[]"]) auto
  then show ?case by (simp add: merge_right.simps)
next
  case (Cons p ys)
  let ?h = "rb_heap bp"
  obtain e where e: "?h p = Some e" "ext_ok e" "exts_ok ?h ys" "\<forall>q \<in> set ys. before_ext ?h p q"
    using Cons.prems(3) by (auto simp: exts_ok_Cons)
  have distinct: "distinct (xs @ p # ys)" using Cons.prems(1,2) by (simp add: tree_ok_def)
  have nxt: "ext2fs_rb_next p (rb_root bp) = Some (hd_option ys)" using next_split Cons.prems(2) distinct by metis
  have ends: "ext_end e = ext_start e + ext_count e" "add64 start count = start + count" "start < ext_start e"
    using e Cons.prems(4,5) by auto
  note run = merge_right.simps [of start count "hd_option (p # ys)" bp]
  obtain bp1 where bp1: "erase_extent p bp = Some bp1" "tree_ok bp1" "rb_nodes bp1 = xs @ ys"
    "rb_heap bp1 = ?h(p := None)" "rb_fresh bp1 = rb_fresh bp" by (rule erase_extent_ok [OF Cons.prems(1,2)])
  have same: "\<forall>q \<in> set (xs @ ys). rb_heap bp1 q = ?h q" using distinct bp1(4) by auto
  note cong = exts_cong [of ys "rb_heap bp1" ?h]
  consider "start + count < ext_start e" | "ext_start e \<le> start + count" "ext_end e \<le> start + count"
    | "ext_start e \<le> start + count" "start + count < ext_end e" by linarith
  then show ?case
  proof cases
    case 1
    have "start + count < ext_start (the (?h q))" if "q \<in> set ys" for q
    proof -
      have "ext_start e + ext_count e < ext_start (the (?h q))" using e that by (auto simp: before_ext_def)
      then show ?thesis using 1 by simp
    qed
    then have "merged start count xs (p # ys) bp (count, bp)"
      using 1 Cons.prems e by (intro mergedI [where zs = "p # ys"]) auto
    then show ?thesis using 1 run nxt e ends by simp
  next
    case 2
    then have inside: "span e \<subseteq> {start..<start + count}" using ends by (auto simp: span_def)
    have "\<exists>r. merge_right start count (hd_option ys) bp1 = Some r \<and> merged start count xs ys bp1 r"
      using Cons.IH [OF bp1(2,3)] Cons.prems(4,5) same e cong by auto
    then obtain r where r: "merge_right start count (hd_option ys) bp1 = Some r" "merged start count xs ys bp1 r" by blast
    then obtain count' bp' zs where z: "r = (count', bp')" "tree_ok bp'" "rb_fresh bp' = rb_fresh bp" "count \<le> count'"
      "start + count' \<le> 2 ^ 63" "rb_nodes bp' = xs @ zs" "\<forall>q \<in> set (xs @ zs). rb_heap bp' q = rb_heap bp1 q"
      "exts_ok (rb_heap bp1) zs" "set zs \<subseteq> set ys" "\<forall>q \<in> set zs. start + count' < ext_start (the (rb_heap bp1 q))"
      "{start..<start + count'} \<union> spans (rb_heap bp1) zs = {start..<start + count} \<union> spans (rb_heap bp1) ys"
      using bp1(5) by (auto simp: merged_def)
    have zsame: "\<forall>q \<in> set zs. rb_heap bp1 q = ?h q" using same z(9) by auto
    note zcong = exts_cong [OF zsame] and ycong = exts_cong(2) [of ys "rb_heap bp1" ?h]
    have "merged start count xs (p # ys) bp (count', bp')"
    proof (rule mergedI [where zs = zs])
      show "{start..<start + count'} \<union> spans ?h zs = {start..<start + count} \<union> spans ?h (p # ys)"
        using z(11) zcong(2) ycong same inside e(1) by auto
      show "\<forall>q \<in> set (xs @ zs). rb_heap bp' q = ?h q" using z(7) same zsame by auto
      show "\<forall>q \<in> set zs. start + count' < ext_start (the (?h q))" using z(10) zsame by auto
    qed (use z zcong in auto)
    then have "merged start count xs (p # ys) bp r" using z(1) by simp
    then show ?thesis using 2 run nxt e ends bp1 r by simp
  next
    case 3
    let ?count = "ext_start e + ext_count e - start"
    have "merged start count xs (p # ys) bp (?count, bp1)"
    proof (rule mergedI [where zs = ys])
      show "{start..<start + ?count} \<union> spans ?h ys = {start..<start + count} \<union> spans ?h (p # ys)"
        using 3 ends e by (auto simp: span_def)
    qed (use bp1 same e 3 ends in \<open>auto simp: before_ext_def ext_ok_def\<close>)
    moreover have "add64 count (sub64 (ext_end e) (add64 start count)) = ?count"
      using 3 ends e(2) by (simp add: ext_ok_def)
    ultimately show ?thesis using 3 run nxt e ends bp1 by simp
  qed
qed

lemma tree_ok_heap [simp]: "tree_ok (bp\<lparr>rb_heap := h\<rparr>) = tree_ok bp"
  by (simp add: tree_ok_def cursors_ok_def)

lemma exts_ok_insert:
  assumes "exts_ok h xs" "exts_ok h zs" "p \<notin> set xs" "p \<notin> set zs" "ext_ok e"
    "\<forall>q \<in> set xs. ext_start (the (h q)) + ext_count (the (h q)) < ext_start e"
    "\<forall>q \<in> set zs. ext_start e + ext_count e < ext_start (the (h q))"
  shows "exts_ok (h(p \<mapsto> e)) (xs @ p # zs)" "spans (h(p \<mapsto> e)) (xs @ p # zs) = spans h xs \<union> span e \<union> spans h zs"
proof -
  have same: "\<forall>q \<in> set xs. (h(p \<mapsto> e)) q = h q" "\<forall>q \<in> set zs. (h(p \<mapsto> e)) q = h q" using assms(3,4) by auto
  note cong = exts_cong [of xs "h(p \<mapsto> e)" h, OF same(1)] exts_cong [of zs "h(p \<mapsto> e)" h, OF same(2)]
  have "before_ext (h(p \<mapsto> e)) a b" if "a \<in> set xs" "b \<in> set zs" for a b
  proof -
    have "ext_start (the (h a)) + ext_count (the (h a)) < ext_start e" "ext_start e + ext_count e < ext_start (the (h b))"
      using assms(6,7) that by auto
    then show ?thesis using same that by (simp add: before_ext_def)
  qed
  moreover have "before_ext (h(p \<mapsto> e)) a p" if "a \<in> set xs" for a using assms(6) same(1) that by (simp add: before_ext_def)
  moreover have "before_ext (h(p \<mapsto> e)) p b" if "b \<in> set zs" for b using assms(7) same(2) that by (simp add: before_ext_def)
  ultimately show "exts_ok (h(p \<mapsto> e)) (xs @ p # zs)"
    unfolding exts_ok_append exts_ok_Cons cong using assms by auto
  show "spans (h(p \<mapsto> e)) (xs @ p # zs) = spans h xs \<union> span e \<union> spans h zs" using cong by auto
qed

lemma skip_insert_ok:
  assumes "tree_ok bp" "rb_nodes bp = xs @ p # ys" "exts_ok (rb_heap bp) xs" "exts_ok (rb_heap bp) ys"
    "\<forall>q \<in> set xs. ext_start (the (rb_heap bp q)) + ext_count (the (rb_heap bp q)) < start"
    "\<forall>q \<in> set ys. start < ext_start (the (rb_heap bp q))" "0 < count" "start + count \<le> 2 ^ 63"
  obtains bp' where "skip_insert start count p bp = Some bp'" "rb_ok bp'"
    "rb_set bp' = spans (rb_heap bp) xs \<union> {start..<start + count} \<union> spans (rb_heap bp) ys"
proof -
  let ?h = "rb_heap bp"
  have distinct: "distinct (xs @ p # ys)" using assms(1,2) by (simp add: tree_ok_def)
  have nxt: "ext2fs_rb_next p (rb_root bp) = Some (hd_option ys)" using next_split assms(2) distinct by metis
  obtain r where r: "merge_right start count (hd_option ys) bp = Some r" "merged start count (xs @ [p]) ys bp r"
    using merge_right_ok [of bp "xs @ [p]" ys start count] assms by auto
  obtain count' bp1 zs where z: "r = (count', bp1)" "tree_ok bp1" "count \<le> count'"
    "start + count' \<le> 2 ^ 63" "rb_nodes bp1 = xs @ p # zs" "\<forall>q \<in> set (xs @ p # zs). rb_heap bp1 q = ?h q"
    "exts_ok ?h zs" "set zs \<subseteq> set ys" "\<forall>q \<in> set zs. start + count' < ext_start (the (?h q))"
    "{start..<start + count'} \<union> spans ?h zs = {start..<start + count} \<union> spans ?h ys"
    using r(2) by (cases r) (auto simp: merged_def)
  let ?e = "\<lparr>ext_start = start, ext_count = count'\<rparr>"
  let ?bp = "bp1\<lparr>rb_heap := (rb_heap bp1)(p \<mapsto> ?e)\<rparr>"
  have same: "\<forall>q \<in> set xs. rb_heap bp1 q = ?h q" "\<forall>q \<in> set zs. rb_heap bp1 q = ?h q" using z(6) by auto
  note cong = exts_cong [OF same(1)] exts_cong [OF same(2)]
  have "p \<notin> set xs" "p \<notin> set zs" using distinct z(8) by auto
  then have "exts_ok ((rb_heap bp1)(p \<mapsto> ?e)) (xs @ p # zs)"
    "spans ((rb_heap bp1)(p \<mapsto> ?e)) (xs @ p # zs) = spans ?h xs \<union> span ?e \<union> spans ?h zs"
    using exts_ok_insert [of "rb_heap bp1" xs zs p ?e] cong assms z same by (auto simp: ext_ok_def)
  then have "rb_ok ?bp" "rb_set ?bp = spans ?h xs \<union> span ?e \<union> spans ?h zs"
    using z by (auto simp: rb_ok_def)
  moreover have "skip_insert start count p bp = Some ?bp" using nxt r z(1) by (simp add: skip_insert_def)
  ultimately show ?thesis using that [of ?bp] z(10) by (auto simp: span_def)
qed

lemma node_extent:
  assumes "exts_ok h (xs @ p # ys)"
  obtains e where "h p = Some e" "ext_ok e" "exts_ok h xs" "exts_ok h ys"
    "\<forall>q \<in> set xs. ext_start (the (h q)) + ext_count (the (h q)) < ext_start e"
    "\<forall>q \<in> set ys. ext_start e + ext_count e < ext_start (the (h q))"
  using assms by (fastforce simp: exts_ok_append exts_ok_Cons before_ext_def)

text \<open>A position in or at the end of an extent belongs to no other one.\<close>

lemma touch_unique:
  assumes "exts_ok h (xs @ p # ys)" "h p = Some e" "ext_start e \<le> n" "n \<le> ext_start e + ext_count e"
  shows "n \<in> spans h (xs @ p # ys) \<longleftrightarrow> n < ext_start e + ext_count e"
proof -
  obtain e' where e': "h p = Some e'" "\<forall>q \<in> set xs. ext_start (the (h q)) + ext_count (the (h q)) < ext_start e'"
    "\<forall>q \<in> set ys. ext_start e' + ext_count e' < ext_start (the (h q))" by (rule node_extent [OF assms(1)])
  have "n \<notin> span (the (h q))" if "q \<in> set xs \<or> q \<in> set ys" for q
    using that
  proof
    assume "q \<in> set xs"
    then have "ext_start (the (h q)) + ext_count (the (h q)) < ext_start e" using e' assms(2) by auto
    then show ?thesis using assms(3) by (simp add: span_def)
  next
    assume "q \<in> set ys"
    then have "ext_start e + ext_count e < ext_start (the (h q))" using e' assms(2) by auto
    then show ?thesis using assms(4) by (simp add: span_def)
  qed
  then have "n \<notin> spans h xs" "n \<notin> spans h ys" by (auto simp: spans_def)
  then show ?thesis using assms(2-4) by (auto simp: span_def)
qed

definition inserted :: "blk64 \<Rightarrow> blk64 \<Rightarrow> rb_private \<Rightarrow> (bool \<times> rb_private) option \<Rightarrow> bool" where
  "inserted start count bp r \<longleftrightarrow>
     (\<exists>bp'. r = Some (start \<in> rb_set bp, bp') \<and> rb_ok bp' \<and> rb_set bp' = rb_set bp \<union> {start..<start + count})"

lemma got_extent_ok:
  assumes "rb_ok bp" "p \<in> set (rb_nodes bp)" "rb_heap bp p = Some e" "ext_start e \<le> start" "start \<le> ext_start e + ext_count e"
    "0 < count" "start + count \<le> 2 ^ 63"
  shows "inserted start count bp (got_extent start count p bp)"
proof -
  let ?h = "rb_heap bp"
  obtain xs ys where split: "rb_nodes bp = xs @ p # ys" using assms(2) by (meson split_list)
  have ok: "tree_ok bp" "exts_ok ?h (xs @ p # ys)" using assms(1) split by (auto simp: rb_ok_def)
  have nodes: "ext_ok e" "exts_ok ?h xs" "exts_ok ?h ys"
    "\<forall>q \<in> set xs. ext_start (the (?h q)) + ext_count (the (?h q)) < ext_start e"
    "\<forall>q \<in> set ys. ext_start e + ext_count e < ext_start (the (?h q))"
    by (rule node_extent [OF ok(2)]; use assms(3) in simp)+
  have mem: "start \<in> rb_set bp \<longleftrightarrow> start < ext_start e + ext_count e"
    unfolding split by (rule touch_unique [OF ok(2) assms(3-5)])
  have set: "rb_set bp = spans ?h xs \<union> span e \<union> spans ?h ys" using split assms(3) by auto
  have sums: "ext_end e = ext_start e + ext_count e" "add64 start count = start + count"
    "add64 count (sub64 start (ext_start e)) = start + count - ext_start e" using assms nodes(1) by simp_all
  show ?thesis
  proof (cases "start + count \<le> ext_start e + ext_count e")
    case True
    then have "{start..<start + count} \<subseteq> span e" using assms(4) by (auto simp: span_def)
    then show ?thesis
      using True assms mem set sums unfolding inserted_def by (auto simp: got_extent_def)
  next
    case False
    let ?count = "start + count - ext_start e"
    have "\<forall>q \<in> set ys. ext_start e < ext_start (the (?h q))" using nodes(5) by auto
    then obtain bp' where bp': "skip_insert (ext_start e) ?count p bp = Some bp'" "rb_ok bp'"
      "rb_set bp' = spans ?h xs \<union> {ext_start e..<ext_start e + ?count} \<union> spans ?h ys"
      using skip_insert_ok [OF ok(1) split nodes(2,3,4), of ?count] assms by auto
    have "{ext_start e..<ext_start e + ?count} = span e \<union> {start..<start + count}"
      using False assms(4,5) by (auto simp: span_def)
    then have "rb_set bp' = rb_set bp \<union> {start..<start + count}" using bp'(3) set by auto
    moreover have "got_extent start count p bp = Some (start \<in> rb_set bp, bp')"
      using False assms(3,5) mem sums bp'(1) by (auto simp: got_extent_def)
    ultimately show ?thesis using bp'(2) by (auto simp: inserted_def)
  qed
qed

lemma touches_at:
  "exts_ok (rb_heap bp) ps \<Longrightarrow> p \<in> set ps \<Longrightarrow>
   touches bp n p = Some (let e = the (rb_heap bp p) in
     if n < ext_start e then Go_left else if ext_start e + ext_count e < n then Go_right else Found)"
  by (cases "rb_heap bp p") (auto simp: touches_def exts_ok_def Let_def)

lemma covers_at:
  "exts_ok (rb_heap bp) ps \<Longrightarrow> p \<in> set ps \<Longrightarrow>
   covers bp n p = Some (let e = the (rb_heap bp p) in
     if n < ext_start e then Go_left else if ext_start e + ext_count e \<le> n then Go_right else Found)"
  by (cases "rb_heap bp p") (auto simp: covers_def exts_ok_def Let_def)

lemma directed_touches:
  assumes "exts_ok (rb_heap bp) ps"
  shows "directed (touches bp n) ps"
proof -
  have "sorted_wrt (before_ext (rb_heap bp)) ps" using assms by (simp add: exts_ok_def)
  then show ?thesis
    unfolding directed_def using touches_at [OF assms]
    by (auto simp: before_ext_def Let_def split: if_splits elim!: sorted_wrt_mono_rel [rotated])
qed

lemma directed_covers:
  assumes "exts_ok (rb_heap bp) ps"
  shows "directed (covers bp n) ps"
proof -
  have "sorted_wrt (before_ext (rb_heap bp)) ps" using assms by (simp add: exts_ok_def)
  then show ?thesis
    unfolding directed_def using covers_at [OF assms]
    by (auto simp: before_ext_def Let_def split: if_splits elim!: sorted_wrt_mono_rel [rotated])
qed

lemma insert_new_ok:
  assumes "rb_ok bp" "rcursor_next bp = None" "plug Null gs = rb_root bp" "0 < count" "start + count \<le> 2 ^ 63"
    "\<forall>q \<in> set (before gs). ext_start (the (rb_heap bp q)) + ext_count (the (rb_heap bp q)) < start"
    "\<forall>q \<in> set (after gs). start < ext_start (the (rb_heap bp q))"
  shows "inserted start count bp (insert_new start count gs bp)"
proof -
  let ?h = "rb_heap bp" and ?xs = "before gs" and ?ys = "after gs" and ?p = "rb_fresh bp"
  have nodes: "rb_nodes bp = ?xs @ ?ys" using inorder_plug [of Null gs] assms(3) by simp
  have ok: "tree_ok bp" "exts_ok ?h ?xs" "exts_ok ?h ?ys" using assms(1) nodes by (auto simp: rb_ok_def exts_ok_append)
  have fresh: "?p \<notin> set ?xs" "?p \<notin> set ?ys" using ok(1) nodes by (auto simp: tree_ok_def)
  obtain t where t: "ext2fs_rb_insert_color (ext2fs_rb_link_node ?p) gs = Some t" "rb_valid t" "rb_inorder t = ?xs @ ?p # ?ys"
    using insert_color_ok [of "ext2fs_rb_link_node ?p" gs] assms(1,3) plug_valid [of Null gs]
    by (auto simp: rb_ok_def tree_ok_def ext2fs_rb_link_node_def)
  let ?new = "\<lparr>ext_start = start, ext_count = count\<rparr>"
  let ?bp = "bp\<lparr>rb_heap := ?h(?p \<mapsto> ?new), rb_fresh := ?p + 1, rb_root := t, wcursor := Some ?p\<rparr>"
  have tree: "tree_ok ?bp"
    using ok(1) t assms(2) nodes fresh unfolding tree_ok_def cursors_ok_def by (auto simp: less_Suc_eq)
  have same: "\<forall>q \<in> set ?xs. rb_heap ?bp q = ?h q" "\<forall>q \<in> set ?ys. rb_heap ?bp q = ?h q" using fresh by auto
  note cong = exts_cong [of ?xs "rb_heap ?bp" ?h, OF same(1)] exts_cong [of ?ys "rb_heap ?bp" ?h, OF same(2)]
  have prev: "ext2fs_rb_prev ?p t = Some (last_option ?xs)"
    using tree t(3) by (intro prev_split [where ys = ?ys]) (auto simp: tree_ok_def)
  have no_merge: "q \<in> set ?xs \<and> rb_heap ?bp q = ?h q \<and> ?h q \<noteq> None \<and> ext_end (the (?h q)) < start" if "last_option ?xs = Some q" for q
  proof -
    have "q \<in> set ?xs" using that by (auto simp: last_option_def split: if_splits)
    moreover from this have "?h q \<noteq> None" "ext_ok (the (?h q))" using ok(2) by (auto simp: exts_ok_def)
    ultimately show ?thesis using same assms(6) by simp
  qed
  obtain bp' where bp': "skip_insert start count ?p ?bp = Some bp'" "rb_ok bp'"
    "rb_set bp' = spans (rb_heap ?bp) ?xs \<union> {start..<start + count} \<union> spans (rb_heap ?bp) ?ys"
    using skip_insert_ok [OF tree, of ?xs ?p ?ys start count] t(3) cong ok assms same by auto
  have "start \<notin> rb_set bp"
  proof -
    have "start \<notin> span (the (?h q))" if "q \<in> set ?xs \<or> q \<in> set ?ys" for q
      using that assms(6,7) by (fastforce simp: span_def)
    then show ?thesis unfolding nodes by (auto simp: spans_def)
  qed
  moreover have "insert_new start count gs bp = Some (False, bp')"
    using t(1) prev bp'(1) no_merge by (cases "last_option ?xs") (auto simp: insert_new_def rb_get_new_extent_def Let_def)
  moreover have "rb_set bp' = rb_set bp \<union> {start..<start + count}" using bp'(3) cong nodes by auto
  ultimately show ?thesis using bp'(2) unfolding inserted_def by simp
qed

lemma insert_search_ok:
  assumes "rb_ok bp" "rcursor_next bp = None" "0 < count" "start + count \<le> 2 ^ 63"
  shows "inserted start count bp (insert_search start count bp)"
proof -
  let ?h = "rb_heap bp"
  have exts: "exts_ok ?h (rb_nodes bp)" using assms(1) by (simp add: rb_ok_def)
  obtain u gs where s: "rb_search (touches bp start) (rb_root bp) [] = Some (u, gs)" "plug u gs = rb_root bp"
    "u = Null \<longrightarrow> (\<forall>x \<in> set (before gs). touches bp start x = Some Go_right) \<and> (\<forall>x \<in> set (after gs). touches bp start x = Some Go_left)"
    "u \<noteq> Null \<longrightarrow> (\<exists>c l x r. u = Node c l x r \<and> touches bp start x = Some Found)"
    using search_split [OF directed_touches [OF exts], of start "[]"] by auto
  have nodes: "rb_nodes bp = before gs @ rb_inorder u @ after gs" using inorder_plug [of u gs] s(2) by simp
  show ?thesis
  proof (cases u)
    case Null
    have "\<forall>q \<in> set (before gs). ext_start (the (?h q)) + ext_count (the (?h q)) < start"
      "\<forall>q \<in> set (after gs). start < ext_start (the (?h q))"
      using s(3) Null touches_at [OF exts] nodes by (force simp: Let_def split: if_splits)+
    then show ?thesis
      using insert_new_ok [OF assms(1,2) _ assms(3,4), of gs] s Null by (simp add: insert_search_def)
  next
    case (Node c l p r)
    then have p: "p \<in> set (rb_nodes bp)" "touches bp start p = Some Found" using s(4) nodes by auto
    then obtain e where e: "?h p = Some e" using exts by (auto simp: exts_ok_def)
    then have "ext_start e \<le> start" "start \<le> ext_start e + ext_count e"
      using touches_at [OF exts p(1), of start] p(2) by (auto simp: Let_def split: if_splits)
    then show ?thesis
      using got_extent_ok [OF assms(1) p(1) e _ _ assms(3,4)] s(1) Node by (simp add: insert_search_def)
  qed
qed

lemma rb_insert_extent_ok:
  assumes "rb_ok bp" "0 < count" "start + count \<le> 2 ^ 63"
  shows "inserted start count bp (rb_insert_extent start count bp)"
proof -
  let ?bp = "bp\<lparr>rcursor_next := None\<rparr>"
  have ok: "rb_ok ?bp" using assms(1) by (auto simp: rb_ok_def tree_ok_def cursors_ok_def)
  have same: "inserted start count ?bp r = inserted start count bp r" for r by (simp add: inserted_def)
  have search: "inserted start count bp (insert_search start count ?bp)"
    using insert_search_ok [OF ok _ assms(2,3)] same by simp
  show ?thesis
  proof (cases "wcursor bp")
    case None
    then show ?thesis using search by (simp add: rb_insert_extent_def Let_def)
  next
    case (Some w)
    then have w: "w \<in> set (rb_nodes ?bp)" using assms(1) by (auto simp: rb_ok_def tree_ok_def cursors_ok_def)
    then obtain e where e: "rb_heap ?bp w = Some e" "ext_ok e" using ok by (auto simp: rb_ok_def exts_ok_def)
    show ?thesis
      using search got_extent_ok [OF ok w e(1) _ _ assms(2,3)] Some e same by (auto simp: rb_insert_extent_def Let_def)
  qed
qed

section \<open>Removal\<close>

lemma span_disjoint:
  assumes "exts_ok h (xs @ p # ys)" "h p = Some e"
  shows "(spans h xs \<union> spans h ys) \<inter> span e = {}"
proof -
  have "n \<notin> spans h xs \<union> spans h ys" if "n \<in> span e" for n
  proof -
    obtain e' where e': "h p = Some e'" "\<forall>q \<in> set xs. ext_start (the (h q)) + ext_count (the (h q)) < ext_start e'"
      "\<forall>q \<in> set ys. ext_start e' + ext_count e' < ext_start (the (h q))" by (rule node_extent [OF assms(1)])
    have "n \<notin> span (the (h q))" if "q \<in> set xs" for q
      using bspec [OF e'(2) that] \<open>n \<in> span e\<close> e'(1) assms(2) by (simp add: span_def)
    moreover have "n \<notin> span (the (h q))" if "q \<in> set ys" for q
      using bspec [OF e'(3) that] \<open>n \<in> span e\<close> e'(1) assms(2) by (simp add: span_def)
    ultimately show ?thesis by (auto simp: spans_def)
  qed
  then show ?thesis by blast
qed

text \<open>An extent that becomes smaller.\<close>

lemma shrink_ok:
  assumes "rb_ok bp" "rb_nodes bp = xs @ p # ys" "rb_heap bp p = Some e" "ext_start e \<le> ext_start e'" "0 < ext_count e'"
    "ext_start e' + ext_count e' \<le> ext_start e + ext_count e"
  shows "rb_ok (bp\<lparr>rb_heap := (rb_heap bp)(p \<mapsto> e')\<rparr>)"
    "rb_set (bp\<lparr>rb_heap := (rb_heap bp)(p \<mapsto> e')\<rparr>) = rb_set bp - (span e - span e')"
proof -
  let ?h = "rb_heap bp"
  have ok: "exts_ok ?h (xs @ p # ys)" "tree_ok bp" using assms(1,2) by (auto simp: rb_ok_def)
  obtain e1 where e: "?h p = Some e1" "ext_ok e1" "exts_ok ?h xs" "exts_ok ?h ys"
    "\<forall>q \<in> set xs. ext_start (the (?h q)) + ext_count (the (?h q)) < ext_start e1"
    "\<forall>q \<in> set ys. ext_start e1 + ext_count e1 < ext_start (the (?h q))" by (rule node_extent [OF ok(1)])
  have "p \<notin> set xs" "p \<notin> set ys" using ok(2) assms(2) by (auto simp: tree_ok_def)
  moreover have "ext_start (the (?h q)) + ext_count (the (?h q)) < ext_start e'" if "q \<in> set xs" for q
    using bspec [OF e(5) that] assms(3,4) e(1) by simp
  moreover have "ext_start e' + ext_count e' < ext_start (the (?h q))" if "q \<in> set ys" for q
    using bspec [OF e(6) that] assms(3,6) e(1) by simp
  moreover have "ext_ok e'" using e(1,2) assms by (simp add: ext_ok_def)
  ultimately have new: "exts_ok (?h(p \<mapsto> e')) (xs @ p # ys)"
    "spans (?h(p \<mapsto> e')) (xs @ p # ys) = spans ?h xs \<union> span e' \<union> spans ?h ys"
    using exts_ok_insert [of ?h xs ys p e'] e by auto
  show "rb_ok (bp\<lparr>rb_heap := ?h(p \<mapsto> e')\<rparr>)" using new(1) ok(2) assms(2) by (simp add: rb_ok_def)
  have "span e' \<subseteq> span e" using assms(4,6) by (auto simp: span_def)
  moreover have "(spans ?h xs \<union> spans ?h ys) \<inter> span e = {}" using ok(1) assms(3) by (rule span_disjoint)
  moreover have "rb_set bp = spans ?h xs \<union> span e \<union> spans ?h ys" using assms(2,3) by auto
  moreover have "rb_set (bp\<lparr>rb_heap := ?h(p \<mapsto> e')\<rparr>) = spans ?h xs \<union> span e' \<union> spans ?h ys"
    using new(2) assms(2) by simp
  ultimately show "rb_set (bp\<lparr>rb_heap := ?h(p \<mapsto> e')\<rparr>) = rb_set bp - (span e - span e')" by blast
qed

lemma erase_ok:
  assumes "tree_ok bp" "rb_nodes bp = xs @ p # ys" "exts_ok h (xs @ p # ys)" "h p = Some e" "rb_heap bp = h(p := v)"
  obtains bp' where "erase_extent p bp = Some bp'" "rb_ok bp'" "rb_nodes bp' = xs @ ys" "rb_set bp' = spans h (xs @ p # ys) - span e"
    "\<forall>q \<in> set (xs @ ys). rb_heap bp' q = h q"
proof -
  have distinct: "distinct (xs @ p # ys)" using assms(1,2) by (simp add: tree_ok_def)
  obtain bp' where bp': "erase_extent p bp = Some bp'" "tree_ok bp'" "rb_nodes bp' = xs @ ys"
    "rb_heap bp' = (rb_heap bp)(p := None)" by (rule erase_extent_ok [OF assms(1,2)])
  have same: "\<forall>q \<in> set (xs @ ys). rb_heap bp' q = h q" using distinct bp'(4) assms(5) by auto
  have "exts_ok h (xs @ ys)" using assms(3) by (auto simp: exts_ok_append exts_ok_Cons)
  then have "rb_ok bp'" using bp'(2,3) exts_cong(1) [of "xs @ ys" "rb_heap bp'" h, OF same] by (simp add: rb_ok_def)
  moreover have "rb_set bp' = spans h (xs @ p # ys) - span e"
  proof -
    have "(spans h xs \<union> spans h ys) \<inter> span e = {}" using assms(3,4) by (rule span_disjoint)
    then show ?thesis using bp'(3) exts_cong(2) [of "xs @ ys" "rb_heap bp'" h, OF same] assms(4) by auto
  qed
  ultimately show ?thesis using that bp' same by blast
qed

definition removed :: "blk64 \<Rightarrow> blk64 \<Rightarrow> rb_private \<Rightarrow> (bool \<times> rb_private) option \<Rightarrow> bool" where
  "removed start count bp r \<longleftrightarrow>
     (\<exists>v bp'. r = Some (v, bp') \<and> rb_ok bp' \<and> rb_set bp' = rb_set bp - {start..<start + count})"

lemma removedI: "r = Some (v, bp') \<Longrightarrow> rb_ok bp' \<Longrightarrow> rb_set bp' = rb_set bp - {start..<start + count} \<Longrightarrow> removed start count bp r"
  by (auto simp: removed_def)

text \<open>A node that the removal of an extent from \<open>start\<close> on passes or finds to its right.\<close>

definition aside :: "blk64 \<Rightarrow> rb_private \<Rightarrow> ptr \<Rightarrow> bool" where
  "aside start bp q \<longleftrightarrow>
     (let e = the (rb_heap bp q) in ext_start e + ext_count e \<le> start \<or> start \<le> ext_start e)"

lemma remove_right_ok:
  assumes "rb_ok bp" "rb_nodes bp = xs @ ys" "\<forall>q \<in> set ys. aside start bp q"
    "spans (rb_heap bp) xs \<inter> {start..<start + count} = {}" "start + count \<le> 2 ^ 63"
  shows "removed start count bp (remove_right start count (hd_option ys) retval bp)"
  using assms
proof (induction ys arbitrary: bp xs retval)
  case Nil
  then have "rb_set bp = rb_set bp - {start..<start + count}" by auto
  then show ?case using Nil.prems(1) by (intro removedI) (simp_all add: remove_right.simps)
next
  case (Cons p ys)
  let ?h = "rb_heap bp" and ?I = "{start..<start + count}"
  have ok: "tree_ok bp" "exts_ok ?h (xs @ p # ys)" using Cons.prems(1,2) by (auto simp: rb_ok_def)
  have distinct: "distinct (xs @ p # ys)" using ok(1) Cons.prems(2) by (simp add: tree_ok_def)
  obtain e where e: "?h p = Some e" "ext_ok e" "\<forall>q \<in> set ys. ext_start e + ext_count e < ext_start (the (?h q))"
    by (rule node_extent [OF ok(2)])
  have nxt: "ext2fs_rb_next p (rb_root bp) = Some (hd_option ys)" using next_split Cons.prems(2) distinct by metis
  have ends: "ext_end e = ext_start e + ext_count e" "add64 start count = start + count" using e(2) Cons.prems(5) by auto
  have set: "rb_set bp = spans ?h xs \<union> span e \<union> spans ?h ys" using Cons.prems(2) e(1) by auto
  note run = remove_right.simps [of start count "hd_option (p # ys)" retval bp]
  have side: "ext_start e + ext_count e \<le> start \<or> start \<le> ext_start e" using Cons.prems(3) e(1) by (simp add: aside_def)
  consider "ext_end e \<le> start" | "start < ext_end e" "start + count < ext_start e"
    | "start < ext_end e" "ext_start e \<le> start + count" "ext_end e \<le> start + count"
    | "start < ext_end e" "ext_start e \<le> start + count" "start + count < ext_end e" by linarith
  then show ?case
  proof cases
    case 1
    then have "spans ?h (xs @ [p]) \<inter> ?I = {}" using Cons.prems(4) e(1) ends by (auto simp: span_def)
    then have "removed start count bp (remove_right start count (hd_option ys) retval bp)"
      using Cons.IH [OF Cons.prems(1), of "xs @ [p]"] Cons.prems by simp
    then show ?thesis using run nxt e(1) 1 by simp
  next
    case 2
    have "n \<notin> span (the (?h q))" if "n < start + count" "q \<in> set ys" for n q
      using bspec [OF e(3) that(2)] that(1) 2(2) by (simp add: span_def)
    then have "spans ?h ys \<inter> ?I = {}" by (auto simp: spans_def)
    then have "rb_set bp = rb_set bp - ?I" unfolding set using Cons.prems(4) 2 by (auto simp: span_def)
    then show ?thesis using run nxt e(1) 2 ends Cons.prems(1) by (intro removedI) auto
  next
    case 3
    obtain bp' where bp': "erase_extent p bp = Some bp'" "rb_ok bp'" "rb_nodes bp' = xs @ ys" "rb_set bp' = spans ?h (xs @ p # ys) - span e"
      "\<forall>q \<in> set (xs @ ys). rb_heap bp' q = ?h q"
      by (rule erase_ok [OF ok(1) Cons.prems(2) ok(2) e(1), of "?h p"]) simp
    have "spans (rb_heap bp') xs = spans ?h xs" using bp'(5) by (intro exts_cong(2)) auto
    then have "removed start count bp' (remove_right start count (hd_option ys) True bp')"
      using Cons.IH [OF bp'(2,3), of True] Cons.prems(3-5) bp'(5) by (auto simp: aside_def)
    moreover have "span e \<subseteq> ?I" using 3 side ends by (auto simp: span_def)
    ultimately have "removed start count bp (remove_right start count (hd_option ys) True bp')"
      using bp'(4) Cons.prems(2) unfolding removed_def by auto
    then show ?thesis using run nxt e(1) 3 ends bp'(1) by simp
  next
    case 4
    let ?e = "\<lparr>ext_start = start + count, ext_count = ext_start e + ext_count e - (start + count)\<rparr>"
    note shrunk = shrink_ok [OF Cons.prems(1,2) e(1), of ?e]
    have sub: "sub64 (ext_count e) (sub64 (add64 start count) (ext_start e)) = ext_count ?e"
      using 4 ends e(2) by (simp add: ext_ok_def)
    have "n \<notin> span (the (?h q))" if "n < start + count" "q \<in> set ys" for n q
      using bspec [OF e(3) that(2)] that(1) 4(3) ends by (simp add: span_def)
    then have "spans ?h ys \<inter> ?I = {}" by (auto simp: spans_def)
    moreover have "span e - span ?e = span e \<inter> ?I" using 4 ends side by (auto simp: span_def)
    ultimately have "rb_set bp - (span e - span ?e) = rb_set bp - ?I" unfolding set using Cons.prems(4) by blast
    moreover have "rb_ok (bp\<lparr>rb_heap := ?h(p \<mapsto> ?e)\<rparr>)"
      "rb_set (bp\<lparr>rb_heap := ?h(p \<mapsto> ?e)\<rparr>) = rb_set bp - (span e - span ?e)" using shrunk 4 ends by simp_all
    ultimately show ?thesis using run nxt e(1) 4 ends sub by (intro removedI [where bp' = "bp\<lparr>rb_heap := ?h(p \<mapsto> ?e)\<rparr>"]) auto
  qed
qed

text \<open>What the descent leaves to the loop to the right.\<close>

definition search_done :: "blk64 \<Rightarrow> blk64 \<Rightarrow> rb_private \<Rightarrow> bool \<times> rb_private + ptr option \<times> bool \<times> rb_private \<Rightarrow> bool" where
  "search_done start count bp r \<longleftrightarrow>
     (case r of
        Inl result \<Rightarrow> removed start count bp (Some result)
      | Inr (node, v, bp') \<Rightarrow>
          rb_ok bp' \<and> rb_set bp' - {start..<start + count} = rb_set bp - {start..<start + count} \<and>
          (\<exists>xs ys. rb_nodes bp' = xs @ ys \<and> node = hd_option ys \<and> (\<forall>q \<in> set ys. aside start bp' q) \<and>
             spans (rb_heap bp') xs \<inter> {start..<start + count} = {}))"

abbreviation ends_by :: "rb_private \<Rightarrow> blk64 \<Rightarrow> ptr \<Rightarrow> bool" where
  "ends_by bp n q \<equiv> ext_start (the (rb_heap bp q)) + ext_count (the (rb_heap bp q)) \<le> n"

lemma ends_by_disjoint: "\<forall>q \<in> set xs. ends_by bp start q \<Longrightarrow> spans (rb_heap bp) xs \<inter> {start..<start + count} = {}"
  by (fastforce simp: spans_def span_def)

lemma search_doneI:
  assumes "rb_ok bp'" "rb_nodes bp' = xs @ ys" "\<forall>q \<in> set ys. aside start bp' q"
    "spans (rb_heap bp') xs \<inter> {start..<start + count} = {}"
    "rb_set bp' - {start..<start + count} = rb_set bp - {start..<start + count}"
  shows "search_done start count bp (Inr (hd_option ys, v, bp'))"
  using assms unfolding search_done_def by auto

lemma search_done_link:
  assumes "rb_ok bp" "rb_nodes bp = before gs @ after gs" "\<forall>q \<in> set (before gs). ends_by bp start q"
    "\<forall>q \<in> set (after gs). start < ext_start (the (rb_heap bp q))"
  shows "search_done start count bp (Inr (path_parent gs, v, bp))"
proof -
  have aside: "\<forall>q \<in> set (before gs @ after gs). aside start bp q"
    using assms(3,4) by (auto simp: aside_def Let_def intro: less_imp_le)
  have split: "\<exists>xs ys. before gs @ after gs = xs @ ys \<and> path_parent gs = hd_option ys \<and> set xs \<subseteq> set (before gs)"
  proof (cases gs rule: path_parent.cases)
    case 1
    then show ?thesis by simp
  next
    case (2 c x r fs)
    then show ?thesis by - (rule exI [of _ "before gs"], rule exI [of _ "after gs"], simp)
  next
    case (3 c x l fs)
    then show ?thesis by - (rule exI [of _ "before fs @ rb_inorder l"], rule exI [of _ "x # after fs"], auto)
  qed
  then obtain xs ys where xy: "before gs @ after gs = xs @ ys" "path_parent gs = hd_option ys" "set xs \<subseteq> set (before gs)" by blast
  have "spans (rb_heap bp) xs \<inter> {start..<start + count} = {}" using ends_by_disjoint xy(3) assms(3) by blast
  moreover have "\<forall>q \<in> set ys. aside start bp q" using aside xy(1) by auto
  ultimately show ?thesis using assms(1,2) xy search_doneI [of bp xs ys] by simp
qed

text \<open>The state after a step of the search, when only numbers of the removed extent went.\<close>

lemma search_done_mono:
  assumes "search_done start count bp' r" "rb_set bp' - {start..<start + count} = rb_set bp - {start..<start + count}"
  shows "search_done start count bp r"
  using assms by (cases r) (auto simp: search_done_def removed_def)

lemma search_split_ok:
  assumes "rb_ok bp" "rb_nodes bp = xs @ p # ys" "rb_heap bp p = Some e" "ext_start e < start" "0 < count"
    "start + count < ext_start e + ext_count e"
  obtains bp' where "rb_insert_extent (start + count) (ext_start e + ext_count e - (start + count))
      (bp\<lparr>rb_heap := (rb_heap bp)(p \<mapsto> e\<lparr>ext_count := start - ext_start e\<rparr>)\<rparr>) = Some (False, bp')"
    "rb_ok bp'" "rb_set bp' = rb_set bp - {start..<start + count}"
proof -
  let ?e = "e\<lparr>ext_count := start - ext_start e\<rparr>"
  let ?bp = "bp\<lparr>rb_heap := (rb_heap bp)(p \<mapsto> ?e)\<rparr>" and ?n = "ext_start e + ext_count e - (start + count)"
  have exts: "exts_ok (rb_heap bp) (xs @ p # ys)" using assms(1,2) by (simp add: rb_ok_def)
  then have max: "ext_start e + ext_count e \<le> 2 ^ 63" using assms(3) by (simp add: exts_ok_def ext_ok_def)
  have shrunk: "rb_ok ?bp" "rb_set ?bp = rb_set bp - (span e - span ?e)"
    using shrink_ok [OF assms(1-3), of ?e] assms(4-6) by simp_all
  have cut: "span e - span ?e = {start..<ext_start e + ext_count e}" using assms(4-6) by (auto simp: span_def)
  obtain bp' where bp': "rb_insert_extent (start + count) ?n ?bp = Some (start + count \<in> rb_set ?bp, bp')" "rb_ok bp'"
    "rb_set bp' = rb_set ?bp \<union> {start + count..<start + count + ?n}"
    using rb_insert_extent_ok [OF shrunk(1), of ?n "start + count"] assms(6) max by (auto simp: inserted_def)
  have "span e \<subseteq> rb_set bp" using assms(2,3) by auto
  then have "{start + count..<start + count + ?n} \<subseteq> rb_set bp" using assms(4-6) by (auto simp: span_def)
  moreover have "{start + count..<start + count + ?n} = {start..<ext_start e + ext_count e} - {start..<start + count}"
    using assms(6) by auto
  moreover have "{start..<start + count} \<subseteq> {start..<ext_start e + ext_count e}" using assms(6) by auto
  ultimately have "rb_set bp' = rb_set bp - {start..<start + count}" unfolding bp'(3) shrunk(2) cut by blast
  moreover have "start + count \<notin> rb_set ?bp" using shrunk(2) cut assms(4-6) by auto
  ultimately show ?thesis using that bp' by simp
qed

lemma remove_search_ok:
  assumes "rb_ok bp" "plug u gs = rb_root bp" "\<forall>q \<in> set (before gs). ends_by bp start q"
    "\<forall>q \<in> set (after gs). start < ext_start (the (rb_heap bp q))" "0 < count" "start + count \<le> 2 ^ 63"
  shows "\<exists>r. remove_search start count u (path_parent gs) retval bp = Some r \<and> search_done start count bp r"
  using assms
proof (induction u arbitrary: gs retval bp)
  case Null
  then have "rb_nodes bp = before gs @ after gs" using inorder_plug [of Null gs] by simp
  then show ?case using search_done_link Null.prems by auto
next
  case (Node c l p r)
  let ?h = "rb_heap bp" and ?I = "{start..<start + count}"
  let ?xs = "before gs @ rb_inorder l" and ?ys = "rb_inorder r @ after gs"
  have nodes: "rb_nodes bp = ?xs @ p # ?ys" using inorder_plug [of "Node c l p r" gs] Node.prems(2) by simp
  have ok: "tree_ok bp" "exts_ok ?h (?xs @ p # ?ys)" using Node.prems(1) nodes by (auto simp: rb_ok_def)
  obtain e where e: "?h p = Some e" "ext_ok e" "\<forall>q \<in> set ?xs. ext_start (the (?h q)) + ext_count (the (?h q)) < ext_start e"
    "\<forall>q \<in> set ?ys. ext_start e + ext_count e < ext_start (the (?h q))" by (rule node_extent [OF ok(2)])
  have distinct: "distinct (?xs @ p # ?ys)" using ok(1) nodes by (simp add: tree_ok_def)
  have ends: "ext_end e = ext_start e + ext_count e" "add64 start count = start + count"
    using e(2) Node.prems(6) by auto
  have max: "ext_start e + ext_count e \<le> 2 ^ 63" using e(2) by (simp add: ext_ok_def)
  consider (left) "start < ext_start e" | (right) "ext_start e + ext_count e \<le> start"
    | (split) "ext_start e < start" "start + count < ext_start e + ext_count e"
    | (whole) "start = ext_start e" "ext_start e + ext_count e \<le> start + count"
    | (front) "start = ext_start e" "start + count < ext_start e + ext_count e"
    | (tail) "ext_start e < start" "start < ext_start e + ext_count e" "ext_start e + ext_count e \<le> start + count" by linarith
  then show ?case
  proof cases
    case left
    have "\<forall>q \<in> set (after (Left_of c p r # gs)). start < ext_start (the (?h q))"
      using left e(1,4) Node.prems(4) by (auto dest: bspec)
    then have "\<exists>v. remove_search start count l (path_parent (Left_of c p r # gs)) retval bp = Some v \<and> search_done start count bp v"
      using Node.IH(1) [OF Node.prems(1), of "Left_of c p r # gs"] Node.prems by simp
    then show ?thesis using left e(1) by simp
  next
    case right
    have "\<forall>q \<in> set (before (Right_of c p l # gs)). ends_by bp start q"
      using right e(1,3) by (auto dest!: bspec)
    then have "\<exists>v. remove_search start count r (path_parent (Right_of c p l # gs)) retval bp = Some v \<and> search_done start count bp v"
      using Node.IH(2) [OF Node.prems(1), of "Right_of c p l # gs"] Node.prems by simp
    then show ?thesis using right e(1) ends by simp
  next
    case split
    obtain bp' where bp': "rb_insert_extent (start + count) (ext_start e + ext_count e - (start + count))
        (bp\<lparr>rb_heap := ?h(p \<mapsto> e\<lparr>ext_count := start - ext_start e\<rparr>)\<rparr>) = Some (False, bp')"
      "rb_ok bp'" "rb_set bp' = rb_set bp - ?I"
      by (rule search_split_ok [OF Node.prems(1) nodes e(1) split(1) Node.prems(5) split(2)])
    have subs: "sub64 start (ext_start e) = start - ext_start e"
      "sub64 (ext_end e) (add64 start count) = ext_start e + ext_count e - (start + count)"
      using split ends Node.prems(6) max by simp_all
    show ?thesis
      using split e(1) ends subs bp' by (auto simp: search_done_def removed_def)
  next
    case whole
    let ?e = "e\<lparr>ext_count := 0\<rparr>"
    let ?bp = "bp\<lparr>rb_heap := ?h(p \<mapsto> ?e)\<rparr>"
    obtain bp' where bp': "erase_extent p ?bp = Some bp'" "rb_ok bp'" "rb_nodes bp' = ?xs @ ?ys"
      "rb_set bp' = spans ?h (?xs @ p # ?ys) - span e" "\<forall>q \<in> set (?xs @ ?ys). rb_heap bp' q = ?h q"
      by (rule erase_ok [of ?bp ?xs p ?ys ?h e "Some ?e"]) (use ok nodes e(1) in simp_all)
    have nxt: "ext2fs_rb_next p (rb_root bp) = Some (hd_option ?ys)" using next_split nodes distinct by metis
    have same: "rb_heap bp' q = ?h q" if "q \<in> set ?xs \<or> q \<in> set ?ys" for q using bp'(5) that by auto
    have "span e \<subseteq> ?I" using whole by (auto simp: span_def)
    moreover have "ends_by bp' start q" if "q \<in> set ?xs" for q
      using bspec [OF e(3) that] same [of q] that whole(1) by auto
    moreover have "aside start bp' q" if "q \<in> set ?ys" for q
      using bspec [OF e(4) that] same [of q] that whole by (auto simp: aside_def Let_def)
    moreover have "rb_set bp' = rb_set bp - span e" using bp'(4) nodes by simp
    ultimately have "search_done start count bp (Inr (hd_option ?ys, True, bp'))"
      using bp'(2,3) ends_by_disjoint [of ?xs bp' start count] by (intro search_doneI [where xs = ?xs]) auto
    moreover have "remove_search start count (Node c l p r) (path_parent gs) retval bp = Some (Inr (hd_option ?ys, True, bp'))"
      using whole e(1) e(2) ends nxt bp'(1) Node.prems(6) by (simp add: sub64_def ext_ok_def)
    ultimately show ?thesis by blast
  next
    case front
    let ?e = "e\<lparr>ext_start := start + count, ext_count := ext_count e - count\<rparr>"
    let ?bp = "bp\<lparr>rb_heap := ?h(p \<mapsto> ?e)\<rparr>"
    have "rb_ok ?bp" "rb_set ?bp = rb_set bp - (span e - span ?e)"
      using shrink_ok [OF Node.prems(1) nodes e(1), of ?e] front by simp_all
    moreover have "span e - span ?e = ?I" using front by (auto simp: span_def)
    moreover have "remove_search start count (Node c l p r) (path_parent gs) retval bp = Some (Inl (True, ?bp))"
      using front e(1) ends max by simp
    ultimately show ?thesis by (auto simp: search_done_def removed_def)
  next
    case tail
    let ?e = "e\<lparr>ext_count := start - ext_start e\<rparr>"
    let ?bp = "bp\<lparr>rb_heap := ?h(p \<mapsto> ?e)\<rparr>"
    have shrunk: "rb_ok ?bp" "rb_set ?bp = rb_set bp - (span e - span ?e)"
      using shrink_ok [OF Node.prems(1) nodes e(1), of ?e] tail by simp_all
    have "span e - span ?e \<subseteq> ?I" using tail by (auto simp: span_def)
    then have set: "rb_set ?bp - ?I = rb_set bp - ?I" using shrunk(2) by blast
    have "ends_by ?bp start q" if "q \<in> set (before (Right_of c p l # gs))" for q
      using bspec [OF e(3), of q] that tail by (cases "q = p") auto
    moreover have "start < ext_start (the (rb_heap ?bp q))" if "q \<in> set (after gs)" for q
      using bspec [OF e(4), of q] that tail distinct by (cases "q = p") auto
    ultimately have "\<exists>v. remove_search start count r (path_parent (Right_of c p l # gs)) True ?bp = Some v \<and> search_done start count ?bp v"
      using Node.IH(2) [OF shrunk(1), of "Right_of c p l # gs"] Node.prems(2,5,6) by simp
    then obtain v where v: "remove_search start count r (Some p) True ?bp = Some v" "search_done start count ?bp v" by auto
    moreover have "remove_search start count (Node c l p r) (path_parent gs) retval bp = remove_search start count r (Some p) True ?bp"
      using tail e(1) ends Node.prems(6) max by simp
    ultimately show ?thesis using search_done_mono [OF v(2) set] by auto
  qed
qed

lemma rb_remove_extent_ok:
  assumes "rb_ok bp" "0 < count" "start + count \<le> 2 ^ 63"
  shows "removed start count bp (rb_remove_extent start count bp)"
proof (cases "rb_root bp = Null")
  case True
  then show ?thesis using assms(1) by (auto simp: removed_def rb_remove_extent_def)
next
  case False
  obtain r where r: "remove_search start count (rb_root bp) None False bp = Some r" "search_done start count bp r"
    using remove_search_ok [OF assms(1), of "rb_root bp" "[]" start count False] assms by auto
  show ?thesis
  proof (cases r)
    case (Inl result)
    then show ?thesis using r False by (simp add: rb_remove_extent_def search_done_def)
  next
    case (Inr z)
    obtain node v bp' where z: "z = (node, v, bp')" by (cases z)
    then obtain xs ys where s: "rb_ok bp'" "rb_set bp' - {start..<start + count} = rb_set bp - {start..<start + count}"
      "rb_nodes bp' = xs @ ys" "node = hd_option ys" "\<forall>q \<in> set ys. aside start bp' q"
      "spans (rb_heap bp') xs \<inter> {start..<start + count} = {}" using r(2) Inr by (auto simp: search_done_def)
    have "removed start count bp' (remove_right start count node v bp')"
      using remove_right_ok [OF s(1,3,5,6) assms(3)] s(4) by simp
    then show ?thesis using r(1) Inr z False s(2) by (auto simp: rb_remove_extent_def removed_def)
  qed
qed

section \<open>Test\<close>

text \<open>The result of a descent to the extent that covers a number.\<close>

lemma covers_search:
  assumes "exts_ok (rb_heap bp) (rb_nodes bp)"
  obtains gs where "rb_search (covers bp n) (rb_root bp) [] = Some (Null, gs)" "rb_nodes bp = before gs @ after gs"
      "\<forall>q \<in> set (before gs). ends_by bp n q" "\<forall>q \<in> set (after gs). n < ext_start (the (rb_heap bp q))" "n \<notin> rb_set bp"
  | c l p r gs where "rb_search (covers bp n) (rb_root bp) [] = Some (Node c l p r, gs)" "p \<in> set (rb_nodes bp)" "n \<in> rb_set bp"
proof -
  let ?h = "rb_heap bp"
  obtain u gs where s: "rb_search (covers bp n) (rb_root bp) [] = Some (u, gs)" "plug u gs = rb_root bp"
    "u = Null \<longrightarrow> (\<forall>x \<in> set (before gs). covers bp n x = Some Go_right) \<and> (\<forall>x \<in> set (after gs). covers bp n x = Some Go_left)"
    "u \<noteq> Null \<longrightarrow> (\<exists>c l x r. u = Node c l x r \<and> covers bp n x = Some Found)"
    using search_split [OF directed_covers [OF assms], of n "[]"] by auto
  have nodes: "rb_nodes bp = before gs @ rb_inorder u @ after gs" using inorder_plug [of u gs] s(2) by simp
  show ?thesis
  proof (cases u)
    case Null
    have lr: "\<forall>q \<in> set (before gs). ends_by bp n q" "\<forall>q \<in> set (after gs). n < ext_start (the (?h q))"
      using s(3) Null covers_at [OF assms] nodes by (force simp: Let_def split: if_splits)+
    then have "n \<notin> span (the (?h q))" if "q \<in> set (rb_nodes bp)" for q using that nodes Null by (fastforce simp: span_def)
    then have "n \<notin> rb_set bp" by (auto simp: spans_def)
    then show ?thesis using that(1) s(1) Null nodes lr by simp
  next
    case (Node c l p r)
    then have p: "p \<in> set (rb_nodes bp)" "covers bp n p = Some Found" using s(4) nodes by auto
    then have "n \<in> span (the (?h p))" using covers_at [OF assms p(1), of n] by (auto simp: Let_def span_def split: if_splits)
    then have "n \<in> rb_set bp" using p(1) by (auto simp: spans_def)
    then show ?thesis using that(2) s(1) Node p(1) by simp
  qed
qed

definition tested :: "blk64 \<Rightarrow> rb_private \<Rightarrow> (bool \<times> rb_private) option \<Rightarrow> bool" where
  "tested n bp r \<longleftrightarrow> (\<exists>bp'. r = Some (n \<in> rb_set bp, bp') \<and> rb_ok bp' \<and> rb_set bp' = rb_set bp)"

lemma search_tree_ok:
  assumes "rb_ok bp"
  shows "tested n bp (search_tree bp n)"
proof -
  have "exts_ok (rb_heap bp) (rb_nodes bp)" using assms by (simp add: rb_ok_def)
  then show ?thesis
  proof (rule covers_search [of bp n])
    fix gs assume "rb_search (covers bp n) (rb_root bp) [] = Some (Null, gs)" "n \<notin> rb_set bp"
    then show ?thesis using assms by (simp add: search_tree_def tested_def)
  next
    fix c l p r gs
    assume *: "rb_search (covers bp n) (rb_root bp) [] = Some (Node c l p r, gs)" "p \<in> set (rb_nodes bp)" "n \<in> rb_set bp"
    have "rb_ok (bp\<lparr>rcursor := Some p, rcursor_next := None\<rparr>)"
      using assms *(2) by (auto simp: rb_ok_def tree_ok_def cursors_ok_def)
    then show ?thesis using * by (simp add: search_tree_def tested_def)
  qed
qed

lemma in_extent:
  assumes "exts_ok h ps" "p \<in> set ps" "h p = Some e" "ext_start e \<le> n" "n < ext_end e"
  shows "n \<in> spans h ps"
  using assms by (force simp: spans_def span_def exts_ok_def)

text \<open>Between the extents of two neighbours nothing is marked.\<close>

lemma gap_free:
  assumes "exts_ok h (xs @ p # q # ys)" "h p = Some e" "h q = Some e'" "ext_end e \<le> n" "n < ext_start e'"
  shows "n \<notin> spans h (xs @ p # q # ys)"
proof -
  have ok: "ext_ok e" "ext_ok e'" using assms(1-3) by (auto simp: exts_ok_append exts_ok_Cons)
  have "ext_start (the (h a)) + ext_count (the (h a)) < ext_start e" if "a \<in> set xs" for a
    using assms(1,2) that by (auto simp: exts_ok_append before_ext_def)
  moreover have "ext_start e' < ext_start (the (h a))" if "a \<in> set ys" for a
  proof -
    have "before_ext h q a" using assms(1) that by (auto simp: exts_ok_append exts_ok_Cons)
    then show ?thesis using assms(3) by (simp add: before_ext_def)
  qed
  moreover have "ext_start e + ext_count e \<le> n" "n < ext_start e'" using ok assms(4,5) by simp_all
  ultimately have "n \<notin> span (the (h a))" if "a \<in> set (xs @ p # q # ys)" for a
    using that assms(2,3) by (fastforce simp: span_def)
  then show ?thesis by (auto simp: spans_def)
qed

lemma tested_same: "rb_set bp' = rb_set bp \<Longrightarrow> tested n bp' r \<Longrightarrow> tested n bp r"
  by (auto simp: tested_def)

text \<open>The last attempts of a test, once the read cursor has been given up.\<close>

lemma test_wcursor_ok:
  assumes "rb_ok bp"
  shows "tested n bp (test_wcursor bp n)"
proof (cases "wcursor bp")
  case None
  then show ?thesis using search_tree_ok [OF assms] by (simp add: test_wcursor_def)
next
  case (Some w)
  have exts: "exts_ok (rb_heap bp) (rb_nodes bp)" using assms by (simp add: rb_ok_def)
  have w: "w \<in> set (rb_nodes bp)" using assms Some by (simp add: rb_ok_def tree_ok_def cursors_ok_def)
  then obtain e where e: "rb_heap bp w = Some e" using exts by (auto simp: exts_ok_def)
  show ?thesis
  proof (cases "ext_start e \<le> n \<and> n < ext_end e")
    case True
    then have "n \<in> rb_set bp" using in_extent [OF exts w e] by blast
    then show ?thesis using Some e True assms by (simp add: test_wcursor_def tested_def)
  next
    case False
    then have "test_wcursor bp n = search_tree bp n" using Some e by (auto simp: test_wcursor_def)
    then show ?thesis using search_tree_ok [OF assms] by simp
  qed
qed

lemma rcursor_next_ok:
  assumes "rb_ok bp" "rcursor bp = Some rc"
  obtains next_ext xs ys where
    "(case rcursor_next bp of Some q \<Rightarrow> Some (Some q) | None \<Rightarrow> ext2fs_rb_next rc (rb_root bp)) = Some next_ext"
    "rb_nodes bp = xs @ rc # ys" "next_ext = hd_option ys"
proof (cases "rcursor_next bp")
  case None
  have "rc \<in> set (rb_nodes bp)" using assms by (simp add: rb_ok_def tree_ok_def cursors_ok_def)
  then obtain xs ys where s: "rb_nodes bp = xs @ rc # ys" by (meson split_list)
  have "distinct (rb_nodes bp)" using assms(1) by (simp add: rb_ok_def tree_ok_def)
  then have "ext2fs_rb_next rc (rb_root bp) = Some (hd_option ys)" by (rule next_split [OF s])
  then show ?thesis using that None s by simp
next
  case (Some q)
  have "cursors_ok bp" using assms(1) by (simp add: rb_ok_def tree_ok_def)
  then obtain xs ys where "rb_nodes bp = xs @ rc # q # ys" using Some assms(2) unfolding cursors_ok_def by blast
  then show ?thesis by (rule that [of "Some q" xs "q # ys", rotated]) (simp_all add: Some)
qed

lemma rb_test_bit_ok:
  assumes "rb_ok bp"
  shows "tested n bp (rb_test_bit bp n)"
proof (cases "rcursor bp")
  case None
  then show ?thesis using search_tree_ok [OF assms] by (simp add: rb_test_bit_def)
next
  case (Some rc)
  have exts: "exts_ok (rb_heap bp) (rb_nodes bp)" using assms by (simp add: rb_ok_def)
  have rc: "rc \<in> set (rb_nodes bp)" using assms Some by (simp add: rb_ok_def tree_ok_def cursors_ok_def)
  then obtain e where e: "rb_heap bp rc = Some e" using exts by (auto simp: exts_ok_def)
  show ?thesis
  proof (cases "ext_start e \<le> n \<and> n < ext_end e")
    case True
    then have "n \<in> rb_set bp" using in_extent [OF exts rc e] by blast
    then show ?thesis using Some e True assms by (simp add: rb_test_bit_def tested_def)
  next
    case out: False
    obtain nxt xs ys where nxt: "(case rcursor_next bp of Some q \<Rightarrow> Some (Some q) | None \<Rightarrow> ext2fs_rb_next rc (rb_root bp)) = Some nxt"
      "rb_nodes bp = xs @ rc # ys" "nxt = hd_option ys" by (rule rcursor_next_ok [OF assms Some])
    let ?bp = "bp\<lparr>rcursor_next := nxt\<rparr>" and ?bp2 = "bp\<lparr>rcursor := None, rcursor_next := None\<rparr>"
    have "rb_ok ?bp2" using assms by (simp add: rb_ok_def tree_ok_def cursors_ok_def)
    then have rest: "tested n bp (test_wcursor ?bp2 n)" using tested_same [OF _ test_wcursor_ok, of ?bp2 bp] by simp
    show ?thesis
    proof (cases ys)
      case Nil
      then have "rb_test_bit bp n = test_wcursor ?bp2 n" using Some e out nxt by (auto simp: rb_test_bit_def)
      then show ?thesis using rest by simp
    next
      case (Cons q zs)
      then have q: "nxt = Some q" "q \<in> set (rb_nodes bp)" using nxt by auto
      then obtain e' where e': "rb_heap bp q = Some e'" using exts by (auto simp: exts_ok_def)
      show ?thesis
      proof (cases "ext_end e \<le> n \<and> n < ext_start e'")
        case True
        then have "n \<notin> rb_set bp" using gap_free [of "rb_heap bp" xs rc q zs e e' n] exts nxt(2) Cons e e' by simp
        moreover have "cursors_ok ?bp"
          using assms Some nxt(2) q(1) Cons unfolding rb_ok_def tree_ok_def cursors_ok_def by auto
        then have "rb_ok ?bp" using assms by (simp add: rb_ok_def tree_ok_def)
        moreover have "rb_test_bit bp n = Some (False, ?bp)" using Some e out nxt(1) q(1) e' True by (auto simp: rb_test_bit_def)
        ultimately show ?thesis by (simp add: tested_def)
      next
        case False
        then have "rb_test_bit bp n = test_wcursor ?bp2 n" using Some e out nxt(1) q(1) e' by (auto simp: rb_test_bit_def)
        then show ?thesis using rest by simp
      qed
    qed
  qed
qed

lemma clear_right_ok:
  assumes "rb_ok bp" "rb_nodes bp = xs @ ys" "\<forall>q \<in> set ys. aside start bp q"
    "spans (rb_heap bp) xs \<inter> {start..<start + len} = {}" "0 < len" "start + len \<le> 2 ^ 63"
  shows "clear_right start len (hd_option ys) bp = Some (rb_set bp \<inter> {start..<start + len} = {})"
  using assms(2-4)
proof (induction ys arbitrary: xs)
  case Nil
  then show ?case by (simp add: clear_right.simps)
next
  case (Cons p ys)
  let ?h = "rb_heap bp" and ?I = "{start..<start + len}"
  have ok: "tree_ok bp" "exts_ok ?h (xs @ p # ys)" using assms(1) Cons.prems(1) by (auto simp: rb_ok_def)
  obtain e where e: "?h p = Some e" "ext_ok e" "\<forall>q \<in> set ys. ext_start e + ext_count e < ext_start (the (?h q))"
    by (rule node_extent [OF ok(2)])
  have nxt: "ext2fs_rb_next p (rb_root bp) = Some (hd_option ys)"
    using ok(1) by (intro next_split [OF Cons.prems(1)]) (simp add: tree_ok_def)
  have ends: "ext_end e = ext_start e + ext_count e" "add64 start len = start + len" using e(2) assms(6) by auto
  note run = clear_right.simps [of start len "hd_option (p # ys)" bp]
  have side: "ext_start e + ext_count e \<le> start \<or> start \<le> ext_start e" using Cons.prems(2) e(1) by (simp add: aside_def)
  show ?case
  proof (cases "ext_start e + ext_count e \<le> start")
    case True
    then have "spans ?h (xs @ [p]) \<inter> ?I = {}" using Cons.prems(3) e(1) by (auto simp: span_def)
    then show ?thesis using Cons.IH [of "xs @ [p]"] Cons.prems run nxt e(1) ends True by simp
  next
    case False
    have later: "spans ?h ys \<inter> ?I = {}" if "start + len \<le> ext_start e"
    proof -
      have "n \<notin> span (the (?h q))" if "n < start + len" "q \<in> set ys" for n q
        using bspec [OF e(3) that(2)] that(1) \<open>start + len \<le> ext_start e\<close> by (simp add: span_def)
      then show ?thesis by (auto simp: spans_def)
    qed
    have "span e \<inter> ?I = {} \<longleftrightarrow> start + len \<le> ext_start e"
    proof
      assume "span e \<inter> ?I = {}"
      moreover have "ext_start e \<in> span e" using e(2) by (simp add: span_def ext_ok_def)
      ultimately show "start + len \<le> ext_start e" using side False by auto
    qed (auto simp: span_def)
    moreover have "rb_set bp \<inter> ?I = span e \<inter> ?I \<union> spans ?h ys \<inter> ?I" using Cons.prems(1,3) e(1) by auto
    ultimately have "rb_set bp \<inter> ?I = {} \<longleftrightarrow> start + len \<le> ext_start e" using later by auto
    then show ?thesis using run nxt e(1) ends False by simp
  qed
qed

lemma test_clear_ok:
  assumes "rb_ok bp" "0 < len" "start + len \<le> 2 ^ 63"
  shows "test_clear bp start len = Some (rb_set bp \<inter> {start..<start + len} = {})"
proof (cases "rb_root bp = Null")
  case True
  then show ?thesis by (simp add: test_clear_def)
next
  case False
  have exts: "exts_ok (rb_heap bp) (rb_nodes bp)" using assms(1) by (simp add: rb_ok_def)
  then show ?thesis
  proof (rule covers_search [of bp start])
    fix gs assume gs: "rb_search (covers bp start) (rb_root bp) [] = Some (Null, gs)" "rb_nodes bp = before gs @ after gs"
      "\<forall>q \<in> set (before gs). ends_by bp start q" "\<forall>q \<in> set (after gs). start < ext_start (the (rb_heap bp q))"
    have "search_done start len bp (Inr (path_parent gs, False, bp))" by (rule search_done_link [OF assms(1) gs(2-4)])
    then obtain xs ys where "rb_nodes bp = xs @ ys" "path_parent gs = hd_option ys" "\<forall>q \<in> set ys. aside start bp q"
      "spans (rb_heap bp) xs \<inter> {start..<start + len} = {}" by (auto simp: search_done_def)
    then show ?thesis using clear_right_ok [OF assms(1) _ _ _ assms(2,3)] gs(1) False assms(2) by (simp add: test_clear_def)
  next
    fix c l p r gs assume "rb_search (covers bp start) (rb_root bp) [] = Some (Node c l p r, gs)" "start \<in> rb_set bp"
    then show ?thesis using False assms(2) by (auto simp: test_clear_def)
  qed
qed

section \<open>The contract\<close>

definition rb_inv :: "rb_bmap \<Rightarrow> bool" where
  "rb_inv b \<longleftrightarrow> (case bm_private b of None \<Rightarrow> False | Some bp \<Rightarrow> rb_ok bp) \<and>
     bm_start b \<le> bm_end b \<and> bm_end b \<le> bm_real_end b \<and> bm_real_end b < 2 ^ 63"

definition rb_bits :: "rb_bmap \<Rightarrow> blk64 set" where
  "rb_bits b = (case bm_private b of None \<Rightarrow> {} | Some bp \<Rightarrow> (+) (bm_start b) ` rb_set bp)"

lemma rb_inv_private:
  assumes "rb_inv b"
  obtains bp where "bm_private b = Some bp" "rb_ok bp" "bm_start b \<le> bm_end b" "bm_end b \<le> bm_real_end b" "bm_real_end b < 2 ^ 63"
  using assms by (auto simp: rb_inv_def split: option.splits)

lemma rb_update:
  assumes "rb_inv b" "rb_ok bp"
  shows "rb_inv (b\<lparr>bm_private := Some bp\<rparr>)" "same_geometry b (b\<lparr>bm_private := Some bp\<rparr>)"
    "rb_bits (b\<lparr>bm_private := Some bp\<rparr>) = (+) (bm_start b) ` rb_set bp"
  using assms by (auto simp: rb_inv_def same_geometry_def rb_bits_def)

lemma shift_mem: "s \<le> n \<Longrightarrow> n \<in> (+) s ` A \<longleftrightarrow> n - s \<in> (A :: nat set)"
  by (auto simp: image_iff) (metis le_add_diff_inverse)

lemma shift_range: "s \<le> n \<Longrightarrow> (+) s ` {n - s..<n - s + k} = {n..<n + k :: nat}"
  by simp

lemma shift_diff: "(+) s ` (A - B) = (+) s ` A - (+) s ` (B :: nat set)"
  by (rule image_set_diff) (simp add: inj_on_def)

lemma shift_disjoint:
  assumes "s \<le> n"
  shows "(+) s ` A \<inter> {n..<n + k} = {} \<longleftrightarrow> A \<inter> {n - s..<n - s + k :: nat} = {}"
proof -
  have "(+) s ` A \<inter> {n..<n + k} = (+) s ` (A \<inter> {n - s..<n - s + k})"
    unfolding shift_range [OF assms, symmetric] by (rule image_Int [symmetric]) (simp add: inj_on_def)
  then show ?thesis by simp
qed

lemma rb_mark_extent_step:
  assumes "rb_inv b" "extent_in_range b n k"
  shows "rb_inv (snd (rb_run (rb_insert_extent (sub64 n (bm_start b)) k) b)) \<and>
    same_geometry b (snd (rb_run (rb_insert_extent (sub64 n (bm_start b)) k) b)) \<and>
    rb_bits (snd (rb_run (rb_insert_extent (sub64 n (bm_start b)) k) b)) = rb_bits b \<union> {n..<n + k} \<and>
    fst (rb_run (rb_insert_extent (sub64 n (bm_start b)) k) b) = (n \<in> rb_bits b)"
proof -
  obtain bp where bp: "bm_private b = Some bp" "rb_ok bp" "bm_real_end b < 2 ^ 63" by (rule rb_inv_private [OF assms(1)])
  have n: "bm_start b \<le> n" "0 < k" "n + k \<le> 2 ^ 63" using assms bp(3) by (auto simp: extent_in_range_def)
  then have pos: "sub64 n (bm_start b) = n - bm_start b" "n - bm_start b + k \<le> 2 ^ 63" by simp_all
  obtain bp' where bp': "rb_insert_extent (n - bm_start b) k bp = Some (n - bm_start b \<in> rb_set bp, bp')" "rb_ok bp'"
    "rb_set bp' = rb_set bp \<union> {n - bm_start b..<n - bm_start b + k}"
    using rb_insert_extent_ok [OF bp(2) n(2) pos(2)] by (auto simp: inserted_def)
  have "rb_run (rb_insert_extent (sub64 n (bm_start b)) k) b = (n \<in> rb_bits b, b\<lparr>bm_private := Some bp'\<rparr>)"
    using bp bp'(1) pos n by (simp add: rb_run_def rb_bits_def shift_mem)
  moreover have "(+) (bm_start b) ` rb_set bp' = rb_bits b \<union> {n..<n + k}"
    unfolding bp'(3) image_Un shift_range [OF n(1)] using bp(1) by (simp add: rb_bits_def)
  ultimately show ?thesis using rb_update [OF assms(1) bp'(2)] by simp
qed

lemma rb_unmark_extent_step:
  assumes "rb_inv b" "extent_in_range b n k"
  shows "rb_inv (snd (rb_run (rb_remove_extent (sub64 n (bm_start b)) k) b)) \<and>
    same_geometry b (snd (rb_run (rb_remove_extent (sub64 n (bm_start b)) k) b)) \<and>
    rb_bits (snd (rb_run (rb_remove_extent (sub64 n (bm_start b)) k) b)) = rb_bits b - {n..<n + k}"
proof -
  obtain bp where bp: "bm_private b = Some bp" "rb_ok bp" "bm_real_end b < 2 ^ 63" by (rule rb_inv_private [OF assms(1)])
  have n: "bm_start b \<le> n" "0 < k" "n + k \<le> 2 ^ 63" using assms bp(3) by (auto simp: extent_in_range_def)
  then have pos: "sub64 n (bm_start b) = n - bm_start b" "n - bm_start b + k \<le> 2 ^ 63" by simp_all
  obtain v bp' where bp': "rb_remove_extent (n - bm_start b) k bp = Some (v, bp')" "rb_ok bp'"
    "rb_set bp' = rb_set bp - {n - bm_start b..<n - bm_start b + k}"
    using rb_remove_extent_ok [OF bp(2) n(2) pos(2)] by (auto simp: removed_def)
  have "rb_run (rb_remove_extent (sub64 n (bm_start b)) k) b = (v, b\<lparr>bm_private := Some bp'\<rparr>)"
    using bp bp'(1) pos by (simp add: rb_run_def)
  moreover have "(+) (bm_start b) ` rb_set bp' = rb_bits b - {n..<n + k}"
    unfolding bp'(3) shift_diff shift_range [OF n(1)] using bp(1) by (simp add: rb_bits_def)
  ultimately show ?thesis using rb_update [OF assms(1) bp'(2)] by simp
qed

lemma rb_test_step:
  assumes "rb_inv b" "in_range b n"
  shows "rb_inv (snd (rb_test_bmap b n)) \<and> same_geometry b (snd (rb_test_bmap b n)) \<and>
    rb_bits (snd (rb_test_bmap b n)) = rb_bits b \<and> fst (rb_test_bmap b n) = (n \<in> rb_bits b)"
proof -
  obtain bp where bp: "bm_private b = Some bp" "rb_ok bp" "bm_real_end b < 2 ^ 63" by (rule rb_inv_private [OF assms(1)])
  have n: "bm_start b \<le> n" "sub64 n (bm_start b) = n - bm_start b" using assms bp(3) by (auto simp: in_range_def)
  obtain bp' where bp': "rb_test_bit bp (n - bm_start b) = Some (n - bm_start b \<in> rb_set bp, bp')" "rb_ok bp'" "rb_set bp' = rb_set bp"
    using rb_test_bit_ok [OF bp(2)] by (auto simp: tested_def)
  have "rb_test_bmap b n = (n \<in> rb_bits b, b\<lparr>bm_private := Some bp'\<rparr>)"
    using bp bp'(1) n by (simp add: rb_test_bmap_def rb_run_def rb_bits_def shift_mem)
  then show ?thesis using rb_update [OF assms(1) bp'(2)] bp bp'(3) by (simp add: rb_bits_def)
qed

lemma rb_test_clear_step:
  assumes "rb_inv b" "extent_in_range b n k"
  shows "rb_test_clear_bmap_extent b n k = (rb_bits b \<inter> {n..<n + k} = {})"
proof -
  obtain bp where bp: "bm_private b = Some bp" "rb_ok bp" "bm_real_end b < 2 ^ 63" by (rule rb_inv_private [OF assms(1)])
  have n: "bm_start b \<le> n" "0 < k" "n + k \<le> 2 ^ 63" using assms bp(3) by (auto simp: extent_in_range_def)
  then have pos: "sub64 n (bm_start b) = n - bm_start b" "n - bm_start b + k \<le> 2 ^ 63" by simp_all
  show ?thesis
    using test_clear_ok [OF bp(2) n(2) pos(2)] bp(1) pos(1) shift_disjoint [OF n(1), of "rb_set bp" k]
    by (simp add: rb_test_clear_bmap_extent_def rb_bits_def)
qed

lemma rb_empty_ok:
  "rb_ok (bp\<lparr>rb_root := Null, rb_heap := (\<lambda>p. None), rcursor := None, rcursor_next := None, wcursor := None\<rparr>)"
  "rb_ok rb_alloc_private_data"
  by (simp_all add: rb_ok_def tree_ok_def cursors_ok_def rb_valid_def rb_alloc_private_data_def)

lemma rb_clear_step:
  assumes "rb_inv b"
  shows "rb_inv (rb_clear_bmap b) \<and> same_geometry b (rb_clear_bmap b) \<and> rb_bits (rb_clear_bmap b) = {}"
  using assms rb_empty_ok(1) by (auto simp: rb_clear_bmap_def rb_inv_def rb_bits_def same_geometry_def split: option.splits)

lemma extent_one: "in_range b n \<Longrightarrow> extent_in_range b n 1" "{n..<n + 1} = {n :: nat}"
  by (auto simp: in_range_def extent_in_range_def)

lemma rb_mark_step:
  assumes "rb_inv b" "in_range b n"
  shows "rb_inv (snd (rb_mark_bmap b n)) \<and> same_geometry b (snd (rb_mark_bmap b n)) \<and>
    rb_bits (snd (rb_mark_bmap b n)) = insert n (rb_bits b) \<and> fst (rb_mark_bmap b n) = (n \<in> rb_bits b)"
  using rb_mark_extent_step [OF assms(1) extent_one(1) [OF assms(2)]] by (simp add: rb_mark_bmap_def extent_one(2))

lemma rb_unmark_step:
  assumes "rb_inv b" "in_range b n"
  shows "rb_inv (snd (rb_unmark_bmap b n)) \<and> same_geometry b (snd (rb_unmark_bmap b n)) \<and>
    rb_bits (snd (rb_unmark_bmap b n)) = rb_bits b - {n}"
  using rb_unmark_extent_step [OF assms(1) extent_one(1) [OF assms(2)]] by (simp add: rb_unmark_bmap_def extent_one(2))

lemmas rb_steps = rb_mark_step rb_unmark_step rb_test_step rb_clear_step rb_test_clear_step
  rb_mark_extent_step [folded rb_mark_bmap_extent_def] rb_unmark_extent_step [folded rb_unmark_bmap_extent_def]

interpretation rb: bitmap_backend ext2fs_blkmap64_rbtree rb_inv rb_bits
proof unfold_locales
  fix b c assume *: "rb_inv b" "bop_ok b c"
  show "rb_inv (snd (exec ext2fs_blkmap64_rbtree c b))"
    using * by (cases c) (simp_all add: ext2fs_blkmap64_rbtree_def Let_def split_beta rb_steps)
  show "same_geometry b (snd (exec ext2fs_blkmap64_rbtree c b))"
    using * by (cases c) (simp_all add: ext2fs_blkmap64_rbtree_def Let_def split_beta rb_steps)
  show "rb_bits (snd (exec ext2fs_blkmap64_rbtree c b)) = snd (spec c (rb_bits b))"
    using * by (cases c) (simp_all add: ext2fs_blkmap64_rbtree_def Let_def split_beta rb_steps)
  show "fst (exec ext2fs_blkmap64_rbtree c b) = fst (spec c (rb_bits b))"
    using * by (cases c) (simp_all add: ext2fs_blkmap64_rbtree_def Let_def split_beta rb_steps)
qed

section \<open>The two back ends\<close>

text \<open>A bitmap as \<open>ext2fs_alloc_generic_bmap\<close> sets it up, with the private part of a back end.\<close>

definition bmap_of :: "blk64 \<Rightarrow> blk64 \<Rightarrow> blk64 \<Rightarrow> 'p \<Rightarrow> 'p bmap" where
  "bmap_of start e real_end p = \<lparr>bm_start = start, bm_end = e, bm_real_end = real_end, bm_cluster_bits = 0, bm_private = p\<rparr>"

lemma rb_new_inv:
  assumes "rb_new_bmap True start real_end = Inr p" "start \<le> e" "e \<le> real_end" "real_end < 2 ^ 63"
  shows "rb_inv (bmap_of start e real_end p)" "rb_bits (bmap_of start e real_end p) = {}"
  using assms rb_empty_ok(2) by (auto simp: rb_inv_def rb_bits_def rb_new_bmap_def bmap_of_def rb_alloc_private_data_def)



text \<open>Growing a bitmap whose bits past the end were set, as the padding of the last group is.\<close>

lemma clear_down_length [simp]: "length (clear_down hi old start a) = length a"
  by (induction hi old start a rule: clear_down.induct) auto

lemma clear_down_bit:
  assumes "start \<le> old" "hi < 2 ^ 63" "(hi - start) div 8 < length a" "old < n" "n \<le> hi"
  shows "\<not> bit_at (clear_down hi old start a) (n - start)"
  using assms
proof (induction hi old start a rule: clear_down.induct)
  case (2 hi old start a)
  let ?a = "snd (ext2fs_clear_bit64 (Suc hi - start) a)"
  have pos: "sub64 (Suc hi) start = Suc hi - start" using "2.prems" by simp
  have keep: "\<not> bit_at b m \<Longrightarrow> \<not> bit_at (clear_down k old start b) m" if "start \<le> old" "k < 2 ^ 63" "(k - start) div 8 < length b" for k m b
    using that
  proof (induction k old start b rule: clear_down.induct)
    case (2 k old start b)
    have "(k - start) div 8 < length b" using "2.prems"(4) by (meson diff_le_mono div_le_mono le_less_trans lessI less_imp_le)
    then show ?case using 2 by (simp add: bit_at_clear)
  qed simp
  have len: "(hi - start) div 8 < length a" using "2.prems"(3) by (meson diff_le_mono div_le_mono le_less_trans lessI less_imp_le)
  show ?case
  proof (cases "n = Suc hi")
    case True
    then have "\<not> bit_at ?a (n - start)" using "2.prems" by (simp add: bit_at_clear)
    then show ?thesis using keep [of hi ?a] "2.prems" len pos True by simp
  next
    case False
    then show ?thesis using 2 len pos by simp
  qed
qed simp

lemma ba_resize_clears:
  assumes "ba_inv b" "bm_end b < n" "n \<le> new_end" "n \<le> bm_real_end b" "bm_real_end b \<le> new_real_end" "new_real_end < 2 ^ 63"
  shows "n \<notin> ba_bits (snd (ba_resize_bmap True b new_end new_real_end))"
proof -
  let ?a = "clear_down (min (bm_real_end b) new_end) (bm_end b) (bm_start b) (bm_private b)"
  let ?size = "ba_size (bm_start b) (bm_real_end b)" and ?new = "ba_size (bm_start b) new_real_end"
  have inv: "bm_start b \<le> bm_end b" "bm_real_end b < 2 ^ 63" "length (bm_private b) = ?size" "bm_end b \<le> bm_real_end b"
    using assms(1) by (auto simp: ba_inv_def)
  have size: "?size = (bm_real_end b - bm_start b) div 8 + 1" "?size \<le> ?new"
    using inv assms(5,6) by (simp_all add: ba_size_def div_le_mono)
  have pos: "(n - bm_start b) div 8 < ?size" using assms(4) size(1) by (simp add: div_le_mono le_imp_less_Suc)
  have "(min (bm_real_end b) new_end - bm_start b) div 8 < length (bm_private b)"
    unfolding inv(3) size(1) by (simp add: le_imp_less_Suc div_le_mono)
  then have clear: "\<not> bit_at ?a (n - bm_start b)" using assms inv by (intro clear_down_bit) auto
  have "\<not> bit_at (take ?new ?a @ replicate (?new - ?size) 0) (n - bm_start b)"
    using clear pos size(2) inv(3) by (simp add: bit_at_def nth_append)
  then show ?thesis using clear assms inv by (auto simp: ba_resize_bmap_def ba_bits_def Let_def)
qed

text \<open>
  Growing a bitmap shows the two back ends apart. A number past the old end whose bit is set (the
  padding bits that \<open>ext2fs_set_generic_bmap_padding\<close> sets) and that the larger bitmap takes in is
  unmarked by \<open>ba_resize_bmap\<close>, as its comment demands, but stays marked by \<open>rb_resize_bmap\<close>.
\<close>

theorem resize_grow_differs:
  assumes "ba_inv b" "rb_inv b'" "bm_end b < n" "n \<le> new_end" "n \<le> bm_real_end b"
    "bm_real_end b \<le> new_real_end" "bm_real_end b' \<le> new_real_end" "new_real_end < 2 ^ 63" "n \<in> rb_bits b'"
  shows "n \<notin> ba_bits (snd (ba_resize_bmap True b new_end new_real_end)) \<and>
    n \<in> rb_bits (snd (rb_resize_bmap True b' new_end new_real_end))"
proof
  show "n \<notin> ba_bits (snd (ba_resize_bmap True b new_end new_real_end))" by (rule ba_resize_clears [OF assms(1,3-6,8)])
  show "n \<in> rb_bits (snd (rb_resize_bmap True b' new_end new_real_end))"
    using assms(7,9) by (simp add: rb_resize_bmap_def rb_bits_def split: option.splits)
qed

definition sample_rb :: rb_bmap where
  "sample_rb = snd (rb_mark_bmap (bmap_of 1 10 16 (Some rb_alloc_private_data)) 12)"

lemma sample_rb_marked: "rb_inv sample_rb" "12 \<in> rb_bits sample_rb" "bm_real_end sample_rb = 16"
proof -
  let ?b = "bmap_of 1 10 16 (Some rb_alloc_private_data)"
  have "rb_inv ?b" by (rule rb_new_inv) (simp_all add: rb_new_bmap_def)
  moreover have "in_range ?b 12" by (simp add: in_range_def bmap_of_def)
  ultimately show "rb_inv sample_rb" "12 \<in> rb_bits sample_rb" "bm_real_end sample_rb = 16"
    using rb_mark_step [of ?b 12] by (auto simp: sample_rb_def same_geometry_def bmap_of_def)
qed

theorem resize_grow_differs_witness:
  "12 \<notin> ba_bits (snd (ba_resize_bmap True (bmap_of 1 10 16 [0, 0xff]) 14 20)) \<and>
   12 \<in> rb_bits (snd (rb_resize_bmap True sample_rb 14 20))"
  by (rule resize_grow_differs)
    (simp_all add: sample_rb_marked ba_inv_def ba_size_def bmap_of_def sub64_def)

end
