(* ===== verification/Gen_Bitmap64.thy ===== *)
theory Gen_Bitmap64
  imports Blkmap_Rb
begin

text \<open>
  The generic layer over the bitmap back ends, \<open>external/e2fsprogs/lib/ext2fs/gen_bitmap64.c\<close>, and
  the allocation functions of \<open>bitmaps.c\<close>, for the 64-bit bitmaps (the 32-bit ones are dispatched to
  \<open>gen_bitmap.c\<close>). The table \<open>bitmap->bitmap_ops\<close> is an argument of the operations. The lemmas about
  them are proved once for every table that satisfies the contract of a back end.
\<close>

section \<open>Allocation\<close>

datatype backend = Bitarray | Rbtree

text \<open>
  What \<open>ext2fs_alloc_generic_bmap\<close> reads of the file system; \<open>fs_num_dirs\<close> is the result of
  \<open>ext2fs_get_num_dirs\<close>.
\<close>

record filsys =
  fs_64bits :: bool
  fs_default_bitmap_type :: nat
  fs_cluster_ratio_bits :: nat
  fs_num_dirs :: "errcode + nat"
  fs_inodes_count :: nat
  fs_inodes_per_group :: nat
  fs_first_data_block :: nat
  fs_blocks_count :: nat
  fs_blocks_per_group :: nat
  fs_clusters_per_group :: nat
  fs_group_desc_count :: nat

datatype magic = Block_bitmap64 | Inode_bitmap64 | Generic_bitmap64

definition choose_backend :: "filsys \<Rightarrow> nat \<Rightarrow> errcode + backend" where
  "choose_backend fs type =
     (let type = (if type = 0 then 1 else type)
      in if type = 1 then Inr Bitarray
         else if type = 2 then Inr Rbtree
         else if type = 3 then
           (case fs_num_dirs fs of
              Inl _ \<Rightarrow> Inr Bitarray
            | Inr num_dirs \<Rightarrow> Inr (if fs_inodes_count fs div 320 < num_dirs then Bitarray else Rbtree))
         else Inl EINVAL)"

type_synonym any_bmap = "bytes bmap + rb_bmap"

definition ext2fs_alloc_generic_bmap ::
  "bool \<Rightarrow> filsys \<Rightarrow> magic \<Rightarrow> nat \<Rightarrow> blk64 \<Rightarrow> blk64 \<Rightarrow> blk64 \<Rightarrow> errcode + any_bmap" where
  "ext2fs_alloc_generic_bmap mem fs magic type start e real_end =
     (let cluster_bits = (if magic = Block_bitmap64 then fs_cluster_ratio_bits fs else 0)
      in case choose_backend fs type of
           Inl err \<Rightarrow> Inl err
         | Inr Bitarray \<Rightarrow>
             map_sum id (\<lambda>p. Inl \<lparr>bm_start = start, bm_end = e, bm_real_end = real_end,
                                  bm_cluster_bits = cluster_bits, bm_private = p\<rparr>) (ba_new_bmap mem start real_end)
         | Inr Rbtree \<Rightarrow>
             map_sum id (\<lambda>p. Inr \<lparr>bm_start = start, bm_end = e, bm_real_end = real_end,
                                  bm_cluster_bits = cluster_bits, bm_private = p\<rparr>) (rb_new_bmap mem start real_end))"

text \<open>
  The allocation functions of \<open>bitmaps.c\<close>. A file system without 64-bit bitmaps gets a 32-bit one,
  here the range with which \<open>ext2fs_make_generic_bitmap\<close> is called. The inode number of the last group
  is a product of two 32-bit numbers.
\<close>

datatype allocation = Bitmap64 any_bmap | Bitmap32 blk64 blk64 blk64

definition legacy_bitmap :: "blk64 \<Rightarrow> blk64 \<Rightarrow> blk64 \<Rightarrow> errcode + allocation" where
  "legacy_bitmap start e real_end =
     (if 2 ^ 32 - 1 < e \<or> 2 ^ 32 - 1 < real_end then Inl EXT2_ET_CANT_USE_LEGACY_BITMAPS
      else Inr (Bitmap32 start e real_end))"

definition ext2fs_allocate_inode_bitmap :: "bool \<Rightarrow> filsys \<Rightarrow> errcode + allocation" where
  "ext2fs_allocate_inode_bitmap mem fs =
     (let e = fs_inodes_count fs; real_end = (fs_inodes_per_group fs * fs_group_desc_count fs) mod 2 ^ 32
      in if fs_64bits fs
         then map_sum id Bitmap64
                (ext2fs_alloc_generic_bmap mem fs Inode_bitmap64 (fs_default_bitmap_type fs) 1 e real_end)
         else legacy_bitmap 1 e real_end)"

definition ext2fs_allocate_block_bitmap :: "bool \<Rightarrow> filsys \<Rightarrow> errcode + allocation" where
  "ext2fs_allocate_block_bitmap mem fs =
     (let start = drop_bit (fs_cluster_ratio_bits fs) (fs_first_data_block fs);
          e = drop_bit (fs_cluster_ratio_bits fs) (sub64 (fs_blocks_count fs) 1);
          real_end = add64 (sub64 (fs_clusters_per_group fs * fs_group_desc_count fs) 1) start
      in if fs_64bits fs
         then map_sum id Bitmap64
                (ext2fs_alloc_generic_bmap mem fs Block_bitmap64 (fs_default_bitmap_type fs) start e real_end)
         else legacy_bitmap start e real_end)"

definition ext2fs_allocate_subcluster_bitmap :: "bool \<Rightarrow> filsys \<Rightarrow> errcode + allocation" where
  "ext2fs_allocate_subcluster_bitmap mem fs =
     (if fs_cluster_ratio_bits fs = 0 then ext2fs_allocate_block_bitmap mem fs
      else if \<not> fs_64bits fs then Inl EXT2_ET_CANT_USE_LEGACY_BITMAPS
      else
        let start = fs_first_data_block fs;
            e = sub64 (fs_blocks_count fs) 1;
            real_end = add64 (sub64 (fs_blocks_per_group fs * fs_group_desc_count fs) 1) start
        in map_sum id (\<lambda>b. Bitmap64 (map_sum (bm_cluster_bits_update (\<lambda>_. 0)) (bm_cluster_bits_update (\<lambda>_. 0)) b))
             (ext2fs_alloc_generic_bmap mem fs Block_bitmap64 (fs_default_bitmap_type fs) start e real_end))"

section \<open>Operations\<close>

definition ext2fs_copy_generic_bmap :: "bool \<Rightarrow> 'p bitmap_ops \<Rightarrow> 'p bmap \<Rightarrow> (errcode + 'p bmap) \<times> 'p bmap" where
  "ext2fs_copy_generic_bmap mem ops src =
     (let (r, src') = op_copy_bmap ops mem src
      in (map_sum id (\<lambda>p. \<lparr>bm_start = bm_start src, bm_end = bm_end src, bm_real_end = bm_real_end src,
                           bm_cluster_bits = bm_cluster_bits src, bm_private = p\<rparr>) r, src'))"

definition ext2fs_resize_generic_bmap ::
  "bool \<Rightarrow> 'p bitmap_ops \<Rightarrow> 'p bmap \<Rightarrow> blk64 \<Rightarrow> blk64 \<Rightarrow> errcode \<times> 'p bmap" where
  "ext2fs_resize_generic_bmap mem ops b new_end new_real_end = op_resize_bmap ops mem b new_end new_real_end"

text \<open>The old end is the second component of a successful result.\<close>

definition ext2fs_fudge_generic_bmap_end :: "errcode \<Rightarrow> 'p bmap \<Rightarrow> blk64 \<Rightarrow> (errcode + blk64) \<times> 'p bmap" where
  "ext2fs_fudge_generic_bmap_end neq b e =
     (if bm_real_end b < e then (Inl neq, b) else (Inr (bm_end b), b\<lparr>bm_end := e\<rparr>))"

definition ext2fs_clear_generic_bmap :: "'p bitmap_ops \<Rightarrow> 'p bmap \<Rightarrow> 'p bmap" where
  "ext2fs_clear_generic_bmap ops b = op_clear_bmap ops b"

text \<open>A number or a cluster outside the bitmap is reported and ignored.\<close>

definition ext2fs_mark_generic_bmap :: "'p bitmap_ops \<Rightarrow> 'p bmap \<Rightarrow> blk64 \<Rightarrow> bool \<times> 'p bmap" where
  "ext2fs_mark_generic_bmap ops b arg =
     (let arg = drop_bit (bm_cluster_bits b) arg
      in if arg < bm_start b \<or> bm_end b < arg then (False, b) else op_mark_bmap ops b arg)"

definition ext2fs_unmark_generic_bmap :: "'p bitmap_ops \<Rightarrow> 'p bmap \<Rightarrow> blk64 \<Rightarrow> bool \<times> 'p bmap" where
  "ext2fs_unmark_generic_bmap ops b arg =
     (let arg = drop_bit (bm_cluster_bits b) arg
      in if arg < bm_start b \<or> bm_end b < arg then (False, b) else op_unmark_bmap ops b arg)"

definition ext2fs_test_generic_bmap :: "'p bitmap_ops \<Rightarrow> 'p bmap \<Rightarrow> blk64 \<Rightarrow> bool \<times> 'p bmap" where
  "ext2fs_test_generic_bmap ops b arg =
     (let arg = drop_bit (bm_cluster_bits b) arg
      in if arg < bm_start b \<or> bm_end b < arg then (False, b) else op_test_bmap ops b arg)"

definition ext2fs_set_generic_bmap_range :: "'p bitmap_ops \<Rightarrow> 'p bmap \<Rightarrow> blk64 \<Rightarrow> nat \<Rightarrow> bytes \<Rightarrow> 'p bmap" where
  "ext2fs_set_generic_bmap_range ops b start num inp = op_set_bmap_range ops b start num inp"

definition ext2fs_get_generic_bmap_range :: "'p bitmap_ops \<Rightarrow> 'p bmap \<Rightarrow> blk64 \<Rightarrow> nat \<Rightarrow> bytes \<Rightarrow> bytes" where
  "ext2fs_get_generic_bmap_range ops b start num out = op_get_bmap_range ops b start num out"

text \<open>The loop of \<open>ext2fs_compare_generic_bmap\<close> up to the end \<open>e\<close>; a test moves the cursors of a bitmap.\<close>

function compare_loop ::
  "'p bitmap_ops \<Rightarrow> 'q bitmap_ops \<Rightarrow> errcode \<Rightarrow> blk64 \<Rightarrow> blk64 \<Rightarrow> 'p bmap \<Rightarrow> 'q bmap \<Rightarrow> errcode" where
  "compare_loop ops1 ops2 neq e i bm1 bm2 =
     (if i \<le> e then
        let (r1, bm1) = ext2fs_test_generic_bmap ops1 bm1 i; (r2, bm2) = ext2fs_test_generic_bmap ops2 bm2 i
        in if r1 \<noteq> r2 then neq else compare_loop ops1 ops2 neq e (i + 1) bm1 bm2
      else Success)"
  by pat_completeness auto
termination by (relation "measure (\<lambda>(ops1, ops2, neq, e, i, bm1, bm2). Suc e - i)") auto

declare compare_loop.simps [simp del]

definition ext2fs_compare_generic_bmap :: "'p bitmap_ops \<Rightarrow> 'q bitmap_ops \<Rightarrow> errcode \<Rightarrow> 'p bmap \<Rightarrow> 'q bmap \<Rightarrow> errcode" where
  "ext2fs_compare_generic_bmap ops1 ops2 neq bm1 bm2 =
     (if bm_start bm1 \<noteq> bm_start bm2 \<or> bm_end bm1 \<noteq> bm_end bm2 then neq
      else compare_loop ops1 ops2 neq (bm_end bm1) (sub64 (bm_end bm1) (sub64 (bm_end bm1) (bm_start bm1) mod 8)) bm1 bm2)"

definition ext2fs_set_generic_bmap_padding :: "'p bitmap_ops \<Rightarrow> 'p bmap \<Rightarrow> 'p bmap" where
  "ext2fs_set_generic_bmap_padding ops b =
     op_mark_bmap_extent ops b (add64 (bm_end b) 1) (sub64 (bm_real_end b) (bm_end b) mod 2 ^ 32)"

text \<open>
  The conversion of a range of blocks to clusters: the first cluster and the number of clusters, which
  is a 32-bit value.
\<close>

definition range_clusters :: "'p bmap \<Rightarrow> blk64 \<Rightarrow> nat \<Rightarrow> blk64 \<times> nat" where
  "range_clusters b block num =
     (let c = bm_cluster_bits b;
          e = drop_bit c (add64 (add64 block num) (2 ^ c - 1));
          block = drop_bit c block
      in (block, sub64 e block mod 2 ^ 32))"

definition clusters_outside :: "'p bmap \<Rightarrow> blk64 \<Rightarrow> nat \<Rightarrow> bool" where
  "clusters_outside b block num \<longleftrightarrow> block < bm_start b \<or> bm_end b < sub64 (add64 block num) 1"

text \<open>
  The test returns \<open>EINVAL\<close>, which is not 0, for a range outside the bitmap.
\<close>

definition ext2fs_test_block_bitmap_range2 :: "'p bitmap_ops \<Rightarrow> 'p bmap \<Rightarrow> blk64 \<Rightarrow> nat \<Rightarrow> (errcode + bool) \<times> 'p bmap" where
  "ext2fs_test_block_bitmap_range2 ops b block num =
     (if num = 1 then (let (r, b) = ext2fs_test_generic_bmap ops b block in (Inr (\<not> r), b))
      else
        let (block, num) = range_clusters b block num
        in if clusters_outside b block num then (Inl EINVAL, b)
           else (Inr (op_test_clear_bmap_extent ops b block num), b))"

definition ext2fs_mark_block_bitmap_range2 :: "'p bitmap_ops \<Rightarrow> 'p bmap \<Rightarrow> blk64 \<Rightarrow> nat \<Rightarrow> 'p bmap" where
  "ext2fs_mark_block_bitmap_range2 ops b block num =
     (let (block, num) = range_clusters b block num
      in if clusters_outside b block num then b else op_mark_bmap_extent ops b block num)"

definition ext2fs_unmark_block_bitmap_range2 :: "'p bitmap_ops \<Rightarrow> 'p bmap \<Rightarrow> blk64 \<Rightarrow> nat \<Rightarrow> 'p bmap" where
  "ext2fs_unmark_block_bitmap_range2 ops b block num =
     (let (block, num) = range_clusters b block num
      in if clusters_outside b block num then b else op_unmark_bmap_extent ops b block num)"

text \<open>
  The loop of \<open>ext2fs_convert_subcluster_bitmap\<close>: \<open>bmap\<close> has a bit for each block, \<open>cmap\<close> one for each
  cluster, and both ends are moved to the real end for the time of the loop. The count \<open>n\<close> of blocks
  of the current cluster is always below the ratio; the test of that makes the recursion well-founded.
\<close>

function convert_loop ::
  "'p bitmap_ops \<Rightarrow> 'q bitmap_ops \<Rightarrow> nat \<Rightarrow> blk64 \<Rightarrow> blk64 \<Rightarrow> nat \<Rightarrow> 'p bmap \<Rightarrow> 'q bmap \<Rightarrow> 'p bmap \<times> 'q bmap" where
  "convert_loop ops1 ops2 ratio real_end i n bmap cmap =
     (if i < real_end then
        let (r, bmap) = ext2fs_test_generic_bmap ops1 bmap i
        in if r \<and> n < ratio then
             convert_loop ops1 ops2 ratio real_end (i + (ratio - n)) 0 bmap (snd (ext2fs_mark_generic_bmap ops2 cmap i))
           else
             convert_loop ops1 ops2 ratio real_end (i + 1) (if ratio \<le> n + 1 then 0 else n + 1) bmap cmap
      else (bmap, cmap))"
  by pat_completeness auto
termination by (relation "measure (\<lambda>(ops1, ops2, ratio, real_end, i, n, bmap, cmap). real_end - i)") auto

declare convert_loop.simps [simp del]

text \<open>The new bitmap \<open>cmap\<close> is the one that \<open>ext2fs_allocate_block_bitmap\<close> returned.\<close>

definition ext2fs_convert_subcluster_bitmap ::
  "'p bitmap_ops \<Rightarrow> 'q bitmap_ops \<Rightarrow> nat \<Rightarrow> 'p bmap \<Rightarrow> errcode + 'q bmap \<Rightarrow> errcode + 'p bmap + 'q bmap" where
  "ext2fs_convert_subcluster_bitmap ops1 ops2 cluster_ratio_bits bmap allocated =
     (if cluster_ratio_bits = bm_cluster_bits bmap then Inr (Inl bmap)
      else case allocated of
        Inl err \<Rightarrow> Inl err
      | Inr cmap \<Rightarrow>
          let (_, cmap') = convert_loop ops1 ops2 (2 ^ cluster_ratio_bits) (bm_real_end bmap) (bm_start bmap) 0
                             (bmap\<lparr>bm_end := bm_real_end bmap\<rparr>) (cmap\<lparr>bm_end := bm_real_end cmap\<rparr>)
          in Inr (Inr (cmap'\<lparr>bm_end := bm_end cmap\<rparr>)))"

text \<open>The search of the generic layer, for a back end that has none of its own.\<close>

function find_zero_loop :: "'p bitmap_ops \<Rightarrow> blk64 \<Rightarrow> blk64 \<Rightarrow> 'p bmap \<Rightarrow> (errcode + blk64) \<times> 'p bmap" where
  "find_zero_loop ops start e b =
     (if start \<le> e then
        let (r, b') = op_test_bmap ops b start
        in if \<not> r then (Inr (start * 2 ^ bm_cluster_bits b), b') else find_zero_loop ops (start + 1) e b'
      else (Inl ENOENT, b))"
  by pat_completeness auto
termination by (relation "measure (\<lambda>(ops, start, e, b). Suc e - start)") auto

declare find_zero_loop.simps [simp del]

definition ext2fs_find_first_zero_generic_bmap ::
  "'p bitmap_ops \<Rightarrow> 'p bmap \<Rightarrow> blk64 \<Rightarrow> blk64 \<Rightarrow> (errcode + blk64) \<times> 'p bmap" where
  "ext2fs_find_first_zero_generic_bmap ops b start e =
     (case op_find_first_zero ops of
        Some search \<Rightarrow> (search b start e, b)
      | None \<Rightarrow>
          let start = drop_bit (bm_cluster_bits b) start; e = drop_bit (bm_cluster_bits b) e
          in if start < bm_start b \<or> bm_end b < e \<or> e < start then (Inl EINVAL, b)
             else find_zero_loop ops start e b)"

section \<open>The generic layer over any back end\<close>

lemma le_cases_Suc: "i \<le> n \<longleftrightarrow> n = i \<or> Suc i \<le> n" for i n :: nat
  by auto

lemma all_from:
  assumes "i \<le> (e :: nat)"
  shows "(\<forall>n. i \<le> n \<and> n \<le> e \<longrightarrow> P n) \<longleftrightarrow> P i \<and> (\<forall>n. Suc i \<le> n \<and> n \<le> e \<longrightarrow> P n)"
  unfolding le_cases_Suc [of i] using assms by blast

lemma from_Suc: "\<not> P s \<Longrightarrow> Suc s \<le> n \<and> P n \<longleftrightarrow> s \<le> n \<and> P n" for s n :: nat
  unfolding le_cases_Suc [of s] by blast

text \<open>The numbers a client sees as marked.\<close>

definition visible :: "('p bmap \<Rightarrow> blk64 set) \<Rightarrow> 'p bmap \<Rightarrow> blk64 set" where
  "visible bits b = bits b \<inter> {bm_start b..bm_end b}"

text \<open>What the generic layer needs of a back end besides its calls: a sensible range, and a movable end.\<close>

locale ranged_backend = bitmap_backend +
  assumes inv_range: "inv b \<Longrightarrow> bm_start b \<le> bm_end b \<and> bm_end b \<le> bm_real_end b \<and> bm_real_end b < 2 ^ 63"
    and inv_end: "inv b \<Longrightarrow> bm_start b \<le> e \<Longrightarrow> e \<le> bm_real_end b \<Longrightarrow> inv (b\<lparr>bm_end := e\<rparr>) \<and> bits (b\<lparr>bm_end := e\<rparr>) = bits b"
begin

lemma in_rangeI: "inv b \<Longrightarrow> bm_start b \<le> n \<Longrightarrow> n \<le> bm_end b \<Longrightarrow> in_range b n"
  using inv_range by (force simp: in_range_def)

lemma visible_geometry: "same_geometry b b' \<Longrightarrow> bits b' = bits b \<Longrightarrow> visible bits b' = visible bits b"
  by (simp add: visible_def same_geometry_def)

lemma test_generic:
  assumes "inv b"
  shows "fst (ext2fs_test_generic_bmap ops b n) \<longleftrightarrow> n div 2 ^ bm_cluster_bits b \<in> visible bits b"
    and "inv (snd (ext2fs_test_generic_bmap ops b n))" "bits (snd (ext2fs_test_generic_bmap ops b n)) = bits b"
    and "same_geometry b (snd (ext2fs_test_generic_bmap ops b n))"
proof -
  let ?c = "n div 2 ^ bm_cluster_bits b"
  consider "?c < bm_start b \<or> bm_end b < ?c" | "bm_start b \<le> ?c" "?c \<le> bm_end b" by linarith
  then have "(fst (ext2fs_test_generic_bmap ops b n) \<longleftrightarrow> ?c \<in> visible bits b) \<and> inv (snd (ext2fs_test_generic_bmap ops b n)) \<and>
      bits (snd (ext2fs_test_generic_bmap ops b n)) = bits b \<and> same_geometry b (snd (ext2fs_test_generic_bmap ops b n))"
  proof cases
    case 1
    then show ?thesis using assms by (auto simp: ext2fs_test_generic_bmap_def drop_bit_eq_div visible_def)
  next
    case 2
    then have "ext2fs_test_generic_bmap ops b n = op_test_bmap ops b ?c"
      by (simp add: ext2fs_test_generic_bmap_def drop_bit_eq_div Let_def)
    then show ?thesis
      using 2 assms in_rangeI [OF assms 2] test_result [OF assms] test_keeps [OF assms] by (simp add: visible_def)
  qed
  then show "fst (ext2fs_test_generic_bmap ops b n) \<longleftrightarrow> ?c \<in> visible bits b" "inv (snd (ext2fs_test_generic_bmap ops b n))"
    "bits (snd (ext2fs_test_generic_bmap ops b n)) = bits b" "same_geometry b (snd (ext2fs_test_generic_bmap ops b n))" by blast+
qed

lemma mark_generic:
  assumes "inv b" "bm_start b \<le> n div 2 ^ bm_cluster_bits b" "n div 2 ^ bm_cluster_bits b \<le> bm_end b"
  shows "inv (snd (ext2fs_mark_generic_bmap ops b n))" "same_geometry b (snd (ext2fs_mark_generic_bmap ops b n))"
    "bits (snd (ext2fs_mark_generic_bmap ops b n)) = insert (n div 2 ^ bm_cluster_bits b) (bits b)"
  using assms mark_result [OF assms(1) in_rangeI [OF assms]]
  by (simp_all add: ext2fs_mark_generic_bmap_def drop_bit_eq_div Let_def)

lemma mark_extent:
  assumes "inv b" "extent_in_range b n k"
  shows "inv (op_mark_bmap_extent ops b n k)" "same_geometry b (op_mark_bmap_extent ops b n k)"
    "bits (op_mark_bmap_extent ops b n k) = bits b \<union> {n..<n + k}"
  using exec_inv [of b "Mark_extent n k"] exec_geometry [of b "Mark_extent n k"] exec_bits [of b "Mark_extent n k"] assms by auto

lemma test_clear_extent:
  assumes "inv b" "extent_in_range b n k"
  shows "op_test_clear_bmap_extent ops b n k \<longleftrightarrow> bits b \<inter> {n..<n + k} = {}"
  using exec_result [of b "Test_clear n k"] assms by auto

end

text \<open>The clusters that a range of blocks meets.\<close>

definition clusters :: "nat \<Rightarrow> blk64 \<Rightarrow> nat \<Rightarrow> blk64 set" where
  "clusters c block num = (\<lambda>n. n div 2 ^ c) ` {block..<block + num}"

lemma clusters_interval:
  assumes "0 < num"
  shows "clusters c block num = {block div 2 ^ c..<(block + num + (2 ^ c - 1)) div 2 ^ c}"
proof -
  let ?r = "2 ^ c :: nat"
  have r: "0 < ?r" by simp
  have last: "(block + num + (?r - 1)) div ?r = Suc ((block + num - 1) div ?r)"
  proof -
    have "block + num + (?r - 1) = (block + num - 1) + ?r" using assms r by simp
    also have "\<dots> div ?r = (block + num - 1) div ?r + 1" by (rule div_add_self2) simp
    finally show ?thesis by simp
  qed
  have "m \<in> (\<lambda>n. n div ?r) ` {block..<block + num}" if "block div ?r \<le> m" "m \<le> (block + num - 1) div ?r" for m
  proof (cases "m = block div ?r")
    case False
    then have "block \<le> m * ?r"
      using that(1) by (metis div_le_mono div_mult_self_is_m le_antisym nat_le_linear r)
    moreover have "m * ?r \<le> block + num - 1" using that(2) by (meson div_times_less_eq_dividend le_trans mult_le_mono1)
    ultimately show ?thesis using assms by (intro image_eqI [of _ _ "m * ?r"]) auto
  qed (use assms in auto)
  moreover have "n div ?r \<le> (block + num - 1) div ?r" if "n < block + num" for n using that by (intro div_le_mono) simp
  ultimately show ?thesis unfolding clusters_def last by (auto simp: less_Suc_eq_le div_le_mono)
qed

text \<open>A range of blocks inside the bitmap whose clusters can be counted in 32 bits.\<close>

definition range_ok :: "'p bmap \<Rightarrow> blk64 \<Rightarrow> nat \<Rightarrow> bool" where
  "range_ok b block num \<longleftrightarrow> 0 < num \<and> num < 2 ^ 32 \<and> bm_cluster_bits b < 32 \<and> block < 2 ^ 63 \<and>
     bm_start b \<le> block div 2 ^ bm_cluster_bits b \<and> (block + num - 1) div 2 ^ bm_cluster_bits b \<le> bm_end b"

lemma clusters_card: "card (clusters c block num) \<le> num"
  unfolding clusters_def by (rule order_trans [OF card_image_le]) simp_all

lemma range_clusters_ok:
  assumes "range_ok b block num"
  obtains k where "range_clusters b block num = (block div 2 ^ bm_cluster_bits b, k)" "0 < k"
    "clusters (bm_cluster_bits b) block num = {block div 2 ^ bm_cluster_bits b..<block div 2 ^ bm_cluster_bits b + k}"
    "block div 2 ^ bm_cluster_bits b + k - 1 \<le> bm_end b" "block div 2 ^ bm_cluster_bits b + k < 2 ^ 64"
proof -
  let ?c = "bm_cluster_bits b" and ?r = "2 ^ bm_cluster_bits b :: nat"
  have ok: "0 < num" "num < 2 ^ 32" "?c < 32" "block < 2 ^ 63" "(block + num - 1) div ?r \<le> bm_end b"
    using assms by (auto simp: range_ok_def)
  have r: "0 < ?r" "?r \<le> 2 ^ 31" using ok(3) power_increasing [of ?c 31 "2 :: nat"] by auto
  let ?e = "(block + num + (?r - 1)) div ?r" and ?b = "block div ?r"
  have sum: "block + num + (?r - 1) < 2 ^ 64" using ok r by simp
  have e: "?e = Suc ((block + num - 1) div ?r)"
  proof -
    have "block + num + (?r - 1) = (block + num - 1) + ?r" using ok r by simp
    also have "\<dots> div ?r = (block + num - 1) div ?r + 1" by (rule div_add_self2) simp
    finally show ?thesis by simp
  qed
  have less: "?b < ?e" unfolding e using ok(1) by (simp add: div_le_mono less_Suc_eq_le)
  have "card {?b..<?e} \<le> num" using clusters_card [of ?c block num] clusters_interval [OF ok(1), of ?c block] by simp
  then have small: "?e - ?b < 2 ^ 32" using ok(2) by simp
  have big: "?e < 2 ^ 64" by (rule le_less_trans [OF div_le_dividend sum])
  have add: "add64 (add64 block num) (?r - 1) = block + num + (?r - 1)" using sum ok by simp
  have "range_clusters b block num = (?b, ?e - ?b)"
    unfolding range_clusters_def Let_def drop_bit_eq_div add using less big small by simp
  then show ?thesis
    by (rule that) (use less big clusters_interval [OF ok(1), of ?c block] e ok(5) in auto)
qed

context ranged_backend
begin

lemma range_inside:
  assumes "inv b" "range_ok b block num"
  obtains k where "range_clusters b block num = (block div 2 ^ bm_cluster_bits b, k)"
    "\<not> clusters_outside b (block div 2 ^ bm_cluster_bits b) k" "extent_in_range b (block div 2 ^ bm_cluster_bits b) k"
    "clusters (bm_cluster_bits b) block num = {block div 2 ^ bm_cluster_bits b..<block div 2 ^ bm_cluster_bits b + k}"
proof -
  obtain k where k: "range_clusters b block num = (block div 2 ^ bm_cluster_bits b, k)" "0 < k"
    "clusters (bm_cluster_bits b) block num = {block div 2 ^ bm_cluster_bits b..<block div 2 ^ bm_cluster_bits b + k}"
    "block div 2 ^ bm_cluster_bits b + k - 1 \<le> bm_end b" "block div 2 ^ bm_cluster_bits b + k < 2 ^ 64"
    by (rule range_clusters_ok [OF assms(2)])
  have "bm_start b \<le> block div 2 ^ bm_cluster_bits b" using assms(2) by (simp add: range_ok_def)
  then show ?thesis
    using k inv_range [OF assms(1)] by (intro that [of k]) (auto simp: clusters_outside_def extent_in_range_def)
qed

lemma mark_range2:
  assumes "inv b" "range_ok b block num"
  shows "inv (ext2fs_mark_block_bitmap_range2 ops b block num)"
    "same_geometry b (ext2fs_mark_block_bitmap_range2 ops b block num)"
    "bits (ext2fs_mark_block_bitmap_range2 ops b block num) = bits b \<union> clusters (bm_cluster_bits b) block num"
proof -
  obtain k where k: "range_clusters b block num = (block div 2 ^ bm_cluster_bits b, k)"
    "\<not> clusters_outside b (block div 2 ^ bm_cluster_bits b) k" "extent_in_range b (block div 2 ^ bm_cluster_bits b) k"
    "clusters (bm_cluster_bits b) block num = {block div 2 ^ bm_cluster_bits b..<block div 2 ^ bm_cluster_bits b + k}"
    by (rule range_inside [OF assms])
  have "ext2fs_mark_block_bitmap_range2 ops b block num = op_mark_bmap_extent ops b (block div 2 ^ bm_cluster_bits b) k"
    using k by (simp add: ext2fs_mark_block_bitmap_range2_def)
  then show "inv (ext2fs_mark_block_bitmap_range2 ops b block num)"
    "same_geometry b (ext2fs_mark_block_bitmap_range2 ops b block num)"
    "bits (ext2fs_mark_block_bitmap_range2 ops b block num) = bits b \<union> clusters (bm_cluster_bits b) block num"
    using mark_extent [OF assms(1) k(3)] k(4) by simp_all
qed

lemma test_range2:
  assumes "inv b" "range_ok b block num"
  shows "fst (ext2fs_test_block_bitmap_range2 ops b block num) = Inr (bits b \<inter> clusters (bm_cluster_bits b) block num = {})"
proof (cases "num = 1")
  case True
  have "clusters (bm_cluster_bits b) block 1 = {block div 2 ^ bm_cluster_bits b}" by (simp add: clusters_def)
  then show ?thesis
    using True assms test_generic(1) [OF assms(1), of block]
    by (auto simp: ext2fs_test_block_bitmap_range2_def Let_def split_beta visible_def range_ok_def)
next
  case False
  obtain k where k: "range_clusters b block num = (block div 2 ^ bm_cluster_bits b, k)"
    "\<not> clusters_outside b (block div 2 ^ bm_cluster_bits b) k" "extent_in_range b (block div 2 ^ bm_cluster_bits b) k"
    "clusters (bm_cluster_bits b) block num = {block div 2 ^ bm_cluster_bits b..<block div 2 ^ bm_cluster_bits b + k}"
    by (rule range_inside [OF assms])
  then show ?thesis using False test_clear_extent [OF assms(1) k(3)] by (simp add: ext2fs_test_block_bitmap_range2_def)
qed

lemma mark_then_test_range2:
  assumes "inv b" "range_ok b block num" "range_ok b block' num'"
  shows "fst (ext2fs_test_block_bitmap_range2 ops (ext2fs_mark_block_bitmap_range2 ops b block num) block' num') =
    Inr (fst (ext2fs_test_block_bitmap_range2 ops b block' num') = Inr True \<and>
      clusters (bm_cluster_bits b) block num \<inter> clusters (bm_cluster_bits b) block' num' = {})"
proof -
  note marked = mark_range2 [OF assms(1,2)]
  have ok: "range_ok (ext2fs_mark_block_bitmap_range2 ops b block num) block' num'"
    using marked(2) assms(3) by (simp add: range_ok_def same_geometry_def)
  show ?thesis
    using test_range2 [OF marked(1) ok] test_range2 [OF assms(1,3)] marked(2,3)
    by (auto simp: same_geometry_def Int_Un_distrib2)
qed

lemma find_zero_loop_least:
  assumes "inv b" "bm_start b \<le> s" "e \<le> bm_end b"
  shows "fst (find_zero_loop ops s e b) =
    (if {s..e} \<subseteq> bits b then Inl ENOENT else Inr ((LEAST n. s \<le> n \<and> n \<notin> bits b) * 2 ^ bm_cluster_bits b))"
  using assms
proof (induction "Suc e - s" arbitrary: s b)
  case 0
  then show ?case by (simp add: find_zero_loop.simps [of ops s e b])
next
  case (Suc m)
  let ?b = "snd (op_test_bmap ops b s)"
  have s: "s \<le> e" using Suc.hyps(2) by simp
  have test: "fst (op_test_bmap ops b s) = (s \<in> bits b)" "inv ?b" "bits ?b = bits b" "same_geometry b ?b"
    using test_result [OF Suc.prems(1)] test_keeps [OF Suc.prems(1)] in_rangeI [OF Suc.prems(1), of s] s Suc.prems by auto
  note run = find_zero_loop.simps [of ops s e b]
  show ?case
  proof (cases "s \<in> bits b")
    case True
    have same: "(\<lambda>n. Suc s \<le> n \<and> n \<notin> bits b) = (\<lambda>n. s \<le> n \<and> n \<notin> bits b)"
      using True from_Suc [of "\<lambda>n. n \<notin> bits b" s] by blast
    have "{s..e} = insert s {Suc s..e}" using s by auto
    then have "{Suc s..e} \<subseteq> bits b \<longleftrightarrow> {s..e} \<subseteq> bits b" using True by simp
    moreover have "fst (find_zero_loop ops (Suc s) e ?b) =
        (if {Suc s..e} \<subseteq> bits ?b then Inl ENOENT else Inr ((LEAST n. Suc s \<le> n \<and> n \<notin> bits ?b) * 2 ^ bm_cluster_bits ?b))"
      using Suc.hyps(1) [of "Suc s" ?b] Suc.hyps(2) Suc.prems test(2,4) by (simp add: same_geometry_def)
    ultimately show ?thesis using run s test True by (simp add: same same_geometry_def Let_def split_beta)
  next
    case False
    then have "(LEAST n. s \<le> n \<and> n \<notin> bits b) = s" by (intro Least_equality) auto
    moreover have "\<not> {s..e} \<subseteq> bits b" using False s by auto
    ultimately show ?thesis using run s test(1) False by (simp add: Let_def split_beta)
  qed
qed

end

text \<open>The positions of the conversion loop in a cluster.\<close>

lemma cluster_end:
  assumes "0 < (r :: nat)"
  shows "i + (r - i mod r) = r * Suc (i div r)"
proof -
  have "i mod r < r" using assms by (rule mod_less_divisor)
  moreover have "i = r * (i div r) + i mod r" by simp
  ultimately have "i + (r - i mod r) = r * (i div r) + r" by linarith
  then show ?thesis by simp
qed

lemma same_cluster:
  assumes "0 < (r :: nat)" "i \<le> m" "m < i + (r - i mod r)"
  shows "m div r = i div r"
proof (rule div_nat_eqI)
  have "r * (i div r) \<le> i" by simp
  then show "r * (i div r) \<le> m" using assms(2) by linarith
  show "m < r * Suc (i div r)" using assms(3) cluster_end [OF assms(1)] by simp
qed

lemma next_cluster: "0 < (r :: nat) \<Longrightarrow> (i + (r - i mod r)) mod r = 0"
  by (simp only: cluster_end mod_mult_self1_is_0)

lemma next_block:
  assumes "0 < (r :: nat)"
  shows "(if r \<le> i mod r + 1 then 0 else i mod r + 1) = Suc i mod r"
proof -
  have "i mod r < r" using assms by (rule mod_less_divisor)
  then have "r \<le> i mod r + 1 \<longleftrightarrow> Suc (i mod r) = r" by linarith
  then show ?thesis by (simp add: mod_Suc)
qed

text \<open>Two bitmaps, each with a back end of its own.\<close>

locale backend_pair =
  one: ranged_backend ops1 inv1 bits1 + two: ranged_backend ops2 inv2 bits2
  for ops1 :: "'p bitmap_ops" and inv1 bits1 and ops2 :: "'q bitmap_ops" and inv2 bits2
begin

text \<open>The loop compares the numbers from \<open>i\<close> on.\<close>

lemma compare_loop_iff:
  assumes "inv1 b1" "inv2 b2" "neq \<noteq> Success" "bm_cluster_bits b1 = bm_cluster_bits b2"
  shows "compare_loop ops1 ops2 neq e i b1 b2 = Success \<longleftrightarrow>
    (\<forall>n. i \<le> n \<and> n \<le> e \<longrightarrow>
       (n div 2 ^ bm_cluster_bits b1 \<in> visible bits1 b1 \<longleftrightarrow> n div 2 ^ bm_cluster_bits b1 \<in> visible bits2 b2))"
  using assms
proof (induction "Suc e - i" arbitrary: i b1 b2)
  case 0
  then show ?case by (auto simp: compare_loop.simps [of ops1 ops2 neq e i b1 b2])
next
  case (Suc m)
  let ?b1 = "snd (ext2fs_test_generic_bmap ops1 b1 i)" and ?b2 = "snd (ext2fs_test_generic_bmap ops2 b2 i)"
  let ?c = "2 ^ bm_cluster_bits b1 :: nat"
  let ?eq = "\<lambda>n. n div ?c \<in> visible bits1 b1 \<longleftrightarrow> n div ?c \<in> visible bits2 b2"
  have i: "i \<le> e" using Suc.hyps(2) by simp
  note t1 = one.test_generic [OF Suc.prems(1), of i] and t2 = two.test_generic [OF Suc.prems(2), of i]
  have c: "bm_cluster_bits ?b1 = bm_cluster_bits b1" "bm_cluster_bits ?b2 = bm_cluster_bits b1"
    using same_geometryD(4) [OF t1(4)] same_geometryD(4) [OF t2(4)] Suc.prems(4) by simp_all
  have vis: "visible bits1 ?b1 = visible bits1 b1" "visible bits2 ?b2 = visible bits2 b2"
    using one.visible_geometry [OF t1(4,3)] two.visible_geometry [OF t2(4,3)] by simp_all
  have rest: "compare_loop ops1 ops2 neq e (Suc i) ?b1 ?b2 = Success \<longleftrightarrow> (\<forall>n. Suc i \<le> n \<and> n \<le> e \<longrightarrow> ?eq n)"
    using Suc.hyps(1) [of "Suc i" ?b1 ?b2] Suc.hyps(2) t1(2) t2(2) Suc.prems(3) c vis by simp
  have "(\<forall>n. i \<le> n \<and> n \<le> e \<longrightarrow> ?eq n) \<longleftrightarrow> ?eq i \<and> (\<forall>n. Suc i \<le> n \<and> n \<le> e \<longrightarrow> ?eq n)"
    using i by (rule all_from)
  then show ?case
    using compare_loop.simps [of ops1 ops2 neq e i b1 b2] i rest t1(1) t2(1) Suc.prems(3,4)
    by (simp add: Let_def split_beta)
qed

lemma convert_loop_ok:
  assumes "inv1 b" "inv2 c" "bm_cluster_bits b = 0" "bm_end b = real_end" "bm_start b \<le> i"
    "\<forall>m. bm_start b \<le> m \<and> m \<le> real_end \<longrightarrow> bm_start c \<le> m div 2 ^ bm_cluster_bits c \<and> m div 2 ^ bm_cluster_bits c \<le> bm_end c"
  shows "bits2 (snd (convert_loop ops1 ops2 (2 ^ bm_cluster_bits c) real_end i (i mod 2 ^ bm_cluster_bits c) b c)) =
    bits2 c \<union> (\<lambda>m. m div 2 ^ bm_cluster_bits c) ` (bits1 b \<inter> {i..<real_end})"
  using assms
proof (induction "real_end - i" arbitrary: i b c rule: less_induct)
  case less
  let ?r = "2 ^ bm_cluster_bits c :: nat"
  let ?b = "snd (ext2fs_test_generic_bmap ops1 b i)" and ?c = "snd (ext2fs_mark_generic_bmap ops2 c i)"
  note run = convert_loop.simps [of ops1 ops2 ?r real_end i "i mod ?r" b c]
  have r: "0 < ?r" by simp
  show ?case
  proof (cases "i < real_end")
    case False
    then show ?thesis using run by simp
  next
    case i: True
    note t = one.test_generic [OF less.prems(1), of i]
    have keeps: "bm_cluster_bits ?b = 0" "bm_end ?b = real_end" "bm_start ?b = bm_start b"
      using t(4) less.prems(3,4) by (simp_all add: same_geometry_def)
    have tested: "fst (ext2fs_test_generic_bmap ops1 b i) \<longleftrightarrow> i \<in> bits1 b"
      using t(1) less.prems(3-5) i by (simp add: visible_def)
    show ?thesis
    proof (cases "i \<in> bits1 b")
      case True
      let ?j = "i + (?r - i mod ?r)"
      have "0 < ?r - i mod ?r" using mod_less_divisor [OF r, of i] by (simp del: mod_less_divisor)
      then have j: "i < ?j" "?j mod ?r = 0" using next_cluster [OF r, of i] by linarith+
      have m: "inv2 ?c" "same_geometry c ?c" "bits2 ?c = insert (i div ?r) (bits2 c)"
        using two.mark_generic [OF less.prems(2), of i] less.prems(5,6) i by auto
      have c: "bm_cluster_bits ?c = bm_cluster_bits c" "bm_start ?c = bm_start c" "bm_end ?c = bm_end c"
        using m(2) by (simp_all add: same_geometry_def)
      have IH: "bits2 (snd (convert_loop ops1 ops2 ?r real_end ?j 0 ?b ?c)) =
          bits2 ?c \<union> (\<lambda>m. m div ?r) ` (bits1 ?b \<inter> {?j..<real_end})"
        using less.hyps [of ?j ?b ?c] i j t(2) m(1) keeps c less.prems(5,6) by simp
      have "(\<lambda>m. m div ?r) ` (bits1 b \<inter> {i..<real_end}) = insert (i div ?r) ((\<lambda>m. m div ?r) ` (bits1 b \<inter> {?j..<real_end}))"
      proof -
        let ?A = "bits1 b \<inter> {m. i \<le> m \<and> m < ?j \<and> m < real_end}"
        have split: "bits1 b \<inter> {i..<real_end} = ?A \<union> (bits1 b \<inter> {?j..<real_end})" using j(1) by auto
        have "(\<lambda>m. m div ?r) ` ?A = (\<lambda>m. i div ?r) ` ?A" using same_cluster [OF r] by (intro image_cong) auto
        also have "\<dots> = {i div ?r}" by (rule image_constant [of i]) (use True i j(1) in auto)
        finally show ?thesis unfolding split image_Un by simp
      qed
      then show ?thesis using run i tested True r IH t(3) m(3) by (auto simp: Let_def split_beta)
    next
      case False
      have IH: "bits2 (snd (convert_loop ops1 ops2 ?r real_end (Suc i) (Suc i mod ?r) ?b c)) =
          bits2 c \<union> (\<lambda>m. m div ?r) ` (bits1 ?b \<inter> {Suc i..<real_end})"
        using less.hyps [of "Suc i" ?b c] i t(2) keeps less.prems(2,5,6) by simp
      have "bits1 b \<inter> {i..<real_end} = bits1 b \<inter> {Suc i..<real_end}" using False le_cases_Suc [of i] by auto
      then show ?thesis
        using run i tested False IH t(3) next_block [OF r, of i] by (simp add: Let_def split_beta)
    qed
  qed
qed

end

section \<open>The two back ends\<close>

interpretation gen_ba: ranged_backend "ext2fs_blkmap64_bitarray base" ba_inv ba_bits for base
  by unfold_locales (auto simp: ba_inv_def ba_bits_def in_range_def)

interpretation gen_rb: ranged_backend ext2fs_blkmap64_rbtree rb_inv rb_bits
  by unfold_locales (auto simp: rb_inv_def rb_bits_def split: option.splits)

interpretation rb_rb: backend_pair ext2fs_blkmap64_rbtree rb_inv rb_bits ext2fs_blkmap64_rbtree rb_inv rb_bits ..

text \<open>
  C26. Marking a range of blocks in a bitmap of clusters, over either back end: afterwards a range of
  blocks tests as clear exactly if it did before and no cluster contains a block of both ranges.
\<close>

theorem block_ranges_by_cluster:
  assumes "rb_inv b" "range_ok b block num" "range_ok b block' num'"
    "ba_inv a" "range_ok a block num" "range_ok a block' num'"
  shows "fst (ext2fs_test_block_bitmap_range2 ext2fs_blkmap64_rbtree
        (ext2fs_mark_block_bitmap_range2 ext2fs_blkmap64_rbtree b block num) block' num') =
      Inr (fst (ext2fs_test_block_bitmap_range2 ext2fs_blkmap64_rbtree b block' num') = Inr True \<and>
        clusters (bm_cluster_bits b) block num \<inter> clusters (bm_cluster_bits b) block' num' = {}) \<and>
    fst (ext2fs_test_block_bitmap_range2 (ext2fs_blkmap64_bitarray base)
        (ext2fs_mark_block_bitmap_range2 (ext2fs_blkmap64_bitarray base) a block num) block' num') =
      Inr (fst (ext2fs_test_block_bitmap_range2 (ext2fs_blkmap64_bitarray base) a block' num') = Inr True \<and>
        clusters (bm_cluster_bits a) block num \<inter> clusters (bm_cluster_bits a) block' num' = {})"
  using gen_rb.mark_then_test_range2 [OF assms(1-3)] gen_ba.mark_then_test_range2 [OF assms(4-6)] by blast

definition sample_clusters :: "'p \<Rightarrow> 'p bmap" where
  "sample_clusters p = \<lparr>bm_start = 0, bm_end = 20, bm_real_end = 23, bm_cluster_bits = 4, bm_private = p\<rparr>"

lemma sample_clusters_ok:
  "rb_inv (sample_clusters (Some rb_alloc_private_data))" "ba_inv (sample_clusters [0, 0, 0])"
  "range_ok (sample_clusters p) 17 20" "range_ok (sample_clusters p) 47 3"
  using rb_empty_ok(2)
  by (simp_all add: rb_inv_def ba_inv_def ba_size_def sample_clusters_def range_ok_def sub64_def)

theorem block_ranges_by_cluster_witness:
  "fst (ext2fs_test_block_bitmap_range2 ext2fs_blkmap64_rbtree (ext2fs_mark_block_bitmap_range2 ext2fs_blkmap64_rbtree
     (sample_clusters (Some rb_alloc_private_data)) 17 20) 47 3) = Inr False \<and>
   fst (ext2fs_test_block_bitmap_range2 (ext2fs_blkmap64_bitarray 0) (ext2fs_mark_block_bitmap_range2 (ext2fs_blkmap64_bitarray 0)
     (sample_clusters [0, 0, 0]) 17 20) 47 3) = Inr False"
proof -
  have "2 \<in> clusters 4 17 20" unfolding clusters_def by (rule image_eqI [of _ _ 36]) simp_all
  moreover have "2 \<in> clusters 4 47 3" unfolding clusters_def by (rule image_eqI [of _ _ 47]) simp_all
  ultimately have "clusters 4 17 20 \<inter> clusters 4 47 3 \<noteq> {}" by blast
  then show ?thesis
    using block_ranges_by_cluster [OF sample_clusters_ok(1,3,4) sample_clusters_ok(2,3,4), of 0]
    by (auto simp: sample_clusters_def)
qed


definition sample_pair :: "rb_bmap" where
  "sample_pair = snd (rb_mark_bmap (bmap_of 1 20 24 (Some rb_alloc_private_data)) 1)"

lemma sample_new: "rb_inv (bmap_of 1 20 24 (Some rb_alloc_private_data))" "rb_bits (bmap_of 1 20 24 (Some rb_alloc_private_data)) = {}"
  by (rule rb_new_inv; simp add: rb_new_bmap_def)+

lemma sample_pair_ok:
  "rb_inv sample_pair" "rb_bits sample_pair = {1}" "bm_start sample_pair = 1" "bm_end sample_pair = 20" "bm_cluster_bits sample_pair = 0"
proof -
  have "in_range (bmap_of 1 20 24 (Some rb_alloc_private_data)) 1" by (simp add: in_range_def bmap_of_def)
  from rb_mark_step [OF sample_new(1) this]
  show "rb_inv sample_pair" "rb_bits sample_pair = {1}" "bm_start sample_pair = 1" "bm_end sample_pair = 20" "bm_cluster_bits sample_pair = 0"
    using sample_new(2) by (simp_all add: sample_pair_def same_geometry_def bmap_of_def)
qed

lemma sample_array: "ba_inv (bmap_of 1 20 24 [1, 0, 0])" "ba_bits (bmap_of 1 20 24 [1, 0, 0]) = {1}"
proof -
  let ?b = "bmap_of 1 20 24 [1, 0, 0] :: bytes bmap"
  show "ba_inv ?b" by (simp add: ba_inv_def ba_size_def bmap_of_def sub64_def)
  have "bit_at [1, 0, 0] p \<longleftrightarrow> p = 0" if "p < 24" for p
  proof (cases "p < 8")
    case True
    then show ?thesis by (auto simp: bit_at_def bit_1_iff)
  next
    case False
    then have "p div 8 = 1 \<or> p div 8 = 2" using that by linarith
    then show ?thesis using False by (auto simp: bit_at_def)
  qed
  then show "ba_bits ?b = {1}" by (auto simp: ba_bits_def in_range_def bmap_of_def)
qed


lemma agree_on_tail:
  "s \<le> i \<Longrightarrow> (\<forall>n. i \<le> n \<and> n \<le> e \<longrightarrow> (n \<in> A \<inter> {s..e} \<longleftrightarrow> n \<in> B \<inter> {s..e})) \<longleftrightarrow>
    A \<inter> {i..e} = B \<inter> {i..e}" for s :: nat
  unfolding set_eq_iff Int_iff atLeastAtMost_iff by (meson order_trans)

text \<open>
  C38. What \<open>ext2fs_compare_generic_bmap\<close> compares: two bitmaps of the same range are reported equal
  exactly if they agree on the last \<open>(end - start) mod 8 + 1\<close> numbers, so at most on the last eight;
  bitmaps that differ anywhere before pass as equal.
\<close>

theorem compare_only_tail:
  assumes "rb_inv b1" "rb_inv b2" "bm_start b1 = bm_start b2" "bm_end b1 = bm_end b2" "neq \<noteq> Success"
    "bm_cluster_bits b1 = 0" "bm_cluster_bits b2 = 0"
  shows "ext2fs_compare_generic_bmap ext2fs_blkmap64_rbtree ext2fs_blkmap64_rbtree neq b1 b2 = Success \<longleftrightarrow>
    rb_bits b1 \<inter> {bm_end b1 - (bm_end b1 - bm_start b1) mod 8..bm_end b1} =
    rb_bits b2 \<inter> {bm_end b1 - (bm_end b1 - bm_start b1) mod 8..bm_end b1}"
proof -
  let ?d = "(bm_end b1 - bm_start b1) mod 8"
  let ?i = "bm_end b1 - ?d"
  have range: "bm_start b1 \<le> bm_end b1" "bm_end b1 < 2 ^ 63" using gen_rb.inv_range [OF assms(1)] by auto
  have d: "?d \<le> bm_end b1 - bm_start b1" by (rule mod_less_eq_dividend)
  have "sub64 (bm_end b1) (bm_start b1) = bm_end b1 - bm_start b1" using range by simp
  moreover have "sub64 (bm_end b1) ?d = ?i" using d range by (intro sub64_small) (linarith, simp)
  ultimately have "ext2fs_compare_generic_bmap ext2fs_blkmap64_rbtree ext2fs_blkmap64_rbtree neq b1 b2 =
      compare_loop ext2fs_blkmap64_rbtree ext2fs_blkmap64_rbtree neq (bm_end b1) ?i b1 b2"
    using assms(3,4) by (simp add: ext2fs_compare_generic_bmap_def)
  moreover have "bm_start b1 \<le> ?i" using d range by linarith
  ultimately show ?thesis
    using rb_rb.compare_loop_iff [OF assms(1,2,5), of "bm_end b1" ?i] agree_on_tail [of "bm_start b1" ?i] assms(3,4,6,7)
    by (simp only: visible_def power_0 div_by_1 simp_thms)
qed

theorem compare_only_tail_witness:
  "ext2fs_compare_generic_bmap ext2fs_blkmap64_rbtree ext2fs_blkmap64_rbtree EINVAL sample_pair
     (bmap_of 1 20 24 (Some rb_alloc_private_data)) = Success \<and>
   rb_bits sample_pair \<noteq> rb_bits (bmap_of 1 20 24 (Some rb_alloc_private_data))"
  using compare_only_tail [OF sample_pair_ok(1) sample_new(1), of EINVAL] sample_pair_ok sample_new(2)
  by (simp add: bmap_of_def)

lemma rb_bits_end: "rb_bits (b\<lparr>bm_end := e\<rparr>) = rb_bits b"
  by (cases "bm_private b") (simp_all add: rb_bits_def)

text \<open>
  Converting a bitmap of blocks to one of clusters: for a bitmap that starts at a cluster boundary
  and a new bitmap that covers its clusters, \<open>ext2fs_convert_subcluster_bitmap\<close> marks exactly the
  clusters of the marked blocks, those before the last block of the bitmap.
\<close>

theorem convert_subcluster_marks:
  assumes "rb_inv b" "rb_inv c" "bm_cluster_bits b = 0" "bm_cluster_bits c = k" "0 < k" "rb_bits c = {}"
    "bm_start b mod 2 ^ k = 0" "bm_start c = bm_start b div 2 ^ k" "bm_real_end b div 2 ^ k \<le> bm_real_end c"
  shows "\<exists>c'. ext2fs_convert_subcluster_bitmap ext2fs_blkmap64_rbtree ext2fs_blkmap64_rbtree k b (Inr c) = Inr (Inr c') \<and>
    rb_bits c' = (\<lambda>n. n div 2 ^ k) ` (rb_bits b \<inter> {bm_start b..<bm_real_end b})"
proof -
  let ?b = "b\<lparr>bm_end := bm_real_end b\<rparr>" and ?c = "c\<lparr>bm_end := bm_real_end c\<rparr>"
  have b: "rb_inv ?b" "rb_bits ?b = rb_bits b" using gen_rb.inv_end [OF assms(1)] gen_rb.inv_range [OF assms(1)] by auto
  have c: "rb_inv ?c" "rb_bits ?c = {}" using gen_rb.inv_end [OF assms(2)] gen_rb.inv_range [OF assms(2)] assms(6) by auto
  have range: "bm_start ?c \<le> m div 2 ^ bm_cluster_bits ?c \<and> m div 2 ^ bm_cluster_bits ?c \<le> bm_end ?c"
    if "bm_start ?b \<le> m" "m \<le> bm_real_end b" for m
    using div_le_mono [of "bm_start b" m "2 ^ k"] div_le_mono [of m "bm_real_end b" "2 ^ k"] that assms(4,8,9) by simp
  have "rb_bits (snd (convert_loop ext2fs_blkmap64_rbtree ext2fs_blkmap64_rbtree (2 ^ k) (bm_real_end b) (bm_start b) 0 ?b ?c)) =
      (\<lambda>n. n div 2 ^ k) ` (rb_bits b \<inter> {bm_start b..<bm_real_end b})"
    using rb_rb.convert_loop_ok [OF b(1) c(1), of "bm_real_end b" "bm_start b"] range b(2) c(2) assms(3,4,7) by auto
  then show ?thesis
    using assms(3,5) by (simp add: ext2fs_convert_subcluster_bitmap_def split_beta rb_bits_end)
qed

definition sample_clusters16 :: rb_bmap where
  "sample_clusters16 = \<lparr>bm_start = 0, bm_end = 2, bm_real_end = 2, bm_cluster_bits = 4, bm_private = Some rb_alloc_private_data\<rparr>"

definition sample_blocks :: rb_bmap where
  "sample_blocks = snd (rb_mark_bmap (bmap_of 0 40 47 (Some rb_alloc_private_data)) 17)"

lemma sample_blocks_ok:
  "rb_inv sample_blocks" "rb_bits sample_blocks = {17}" "bm_start sample_blocks = 0" "bm_real_end sample_blocks = 47"
  "bm_cluster_bits sample_blocks = 0"
proof -
  have new: "rb_inv (bmap_of 0 40 47 (Some rb_alloc_private_data))" "rb_bits (bmap_of 0 40 47 (Some rb_alloc_private_data)) = {}"
    by (rule rb_new_inv; simp add: rb_new_bmap_def)+
  have "in_range (bmap_of 0 40 47 (Some rb_alloc_private_data)) 17" by (simp add: in_range_def bmap_of_def)
  from rb_mark_step [OF new(1) this]
  show "rb_inv sample_blocks" "rb_bits sample_blocks = {17}" "bm_start sample_blocks = 0" "bm_real_end sample_blocks = 47"
    "bm_cluster_bits sample_blocks = 0"
    using new(2) by (simp_all add: sample_blocks_def same_geometry_def bmap_of_def)
qed

theorem convert_subcluster_marks_witness:
  "\<exists>c'. ext2fs_convert_subcluster_bitmap ext2fs_blkmap64_rbtree ext2fs_blkmap64_rbtree 4 sample_blocks
     (Inr sample_clusters16) = Inr (Inr c') \<and> rb_bits c' = {1}"
proof -
  have "rb_inv sample_clusters16" "rb_bits sample_clusters16 = {}"
    using rb_empty_ok(2) by (simp_all add: rb_inv_def rb_bits_def sample_clusters16_def rb_alloc_private_data_def)
  then show ?thesis
    using convert_subcluster_marks [of sample_blocks sample_clusters16 4] sample_blocks_ok
    by (simp add: sample_clusters16_def)
qed

end
