(* ===== verification/Sorted_Array.thy ===== *)
theory Sorted_Array
  imports Prelude "HOL-Library.Monad_Syntax"
begin

text \<open>
  What the sorted arrays of e2fsprogs share: accesses to an array that are None out of bounds, the
  loops that open and close a gap, and facts about the live prefix of an array that is kept strictly
  increasing. An array is a list as long as its allocation, and a count says how much of it is in use.
\<close>

definition rd :: "'a list \<Rightarrow> nat \<Rightarrow> 'a option" where
  "rd xs i = (if i < length xs then Some (xs ! i) else None)"

definition wr :: "'a list \<Rightarrow> nat \<Rightarrow> 'a \<Rightarrow> 'a list option" where
  "wr xs i v = (if i < length xs then Some (xs[i := v]) else None)"

lemma rd_in [simp]: "i < length xs \<Longrightarrow> rd xs i = Some (xs ! i)"
  by (simp add: rd_def)

lemma wr_in [simp]: "i < length xs \<Longrightarrow> wr xs i v = Some (xs[i := v])"
  by (simp add: wr_def)

text \<open>\<open>for (i = num; i > j; i--) list[i] = list[i - 1]\<close>\<close>

fun shift_up :: "'a list \<Rightarrow> nat \<Rightarrow> nat \<Rightarrow> 'a list option" where
  "shift_up xs j 0 = Some xs"
| "shift_up xs j (Suc i) =
     (if j < Suc i then do { v \<leftarrow> rd xs i; xs' \<leftarrow> wr xs (Suc i) v; shift_up xs' j i } else Some xs)"

text \<open>\<open>for (i = j; i < n - 1; i++) list[i] = list[i + 1]\<close>\<close>

function shift_down :: "'a list \<Rightarrow> nat \<Rightarrow> nat \<Rightarrow> 'a list option" where
  "shift_down xs i n =
     (if Suc i < n then do { v \<leftarrow> rd xs (Suc i); xs' \<leftarrow> wr xs i v; shift_down xs' (Suc i) n } else Some xs)"
  by pat_completeness auto
termination by (relation "measure (\<lambda>(xs, i, n). n - i)") auto

declare shift_down.simps [simp del]

lemma shift_up_nth:
  assumes "j \<le> i" "i < length xs"
  obtains ys where "shift_up xs j i = Some ys" "length ys = length xs"
    "\<And>k. k < length xs \<Longrightarrow> ys ! k = (if j < k \<and> k \<le> i then xs ! (k - 1) else xs ! k)"
proof -
  have "\<exists>ys. shift_up xs j i = Some ys \<and> length ys = length xs \<and>
      (\<forall>k < length xs. ys ! k = (if j < k \<and> k \<le> i then xs ! (k - 1) else xs ! k))"
    using assms
  proof (induction i arbitrary: xs)
    case 0
    then show ?case by auto
  next
    case (Suc i)
    show ?case
    proof (cases "j \<le> i")
      case False
      then show ?thesis using Suc.prems by (auto simp: le_Suc_eq)
    next
      case True
      let ?xs = "xs[Suc i := xs ! i]"
      obtain ys where ys: "shift_up ?xs j i = Some ys" "length ys = length xs"
          "\<forall>k < length xs. ys ! k = (if j < k \<and> k \<le> i then ?xs ! (k - 1) else ?xs ! k)"
        using Suc.IH [of ?xs] True Suc.prems by auto
      have "ys ! k = (if j < k \<and> k \<le> Suc i then xs ! (k - 1) else xs ! k)" if "k < length xs" for k
        using ys(3) that True by (cases "k = Suc i") (auto simp: nth_list_update)
      then show ?thesis using ys(1,2) True Suc.prems by auto
    qed
  qed
  then show ?thesis using that by blast
qed

lemma shift_down_nth:
  assumes "i < n" "n \<le> length xs"
  obtains ys where "shift_down xs i n = Some ys" "length ys = length xs"
    "\<And>k. k < n - 1 \<Longrightarrow> ys ! k = (if i \<le> k then xs ! Suc k else xs ! k)"
proof -
  have "\<exists>ys. shift_down xs i n = Some ys \<and> length ys = length xs \<and>
      (\<forall>k < n - 1. ys ! k = (if i \<le> k then xs ! Suc k else xs ! k))"
    using assms
  proof (induction "n - i" arbitrary: i xs)
    case 0
    then show ?case by simp
  next
    case (Suc d)
    show ?case
    proof (cases "Suc i < n")
      case False
      then show ?thesis using Suc.prems by (auto simp: shift_down.simps [of xs])
    next
      case True
      let ?xs = "xs[i := xs ! Suc i]"
      have d: "d = n - Suc i" using Suc.hyps(2) by simp
      obtain ys where ys: "shift_down ?xs (Suc i) n = Some ys" "length ys = length xs"
          "\<forall>k < n - 1. ys ! k = (if Suc i \<le> k then ?xs ! Suc k else ?xs ! k)"
        using Suc.hyps(1) [OF d, of ?xs] True Suc.prems by auto
      have "ys ! k = (if i \<le> k then xs ! Suc k else xs ! k)" if "k < n - 1" for k
        using ys(3) that True Suc.prems by (cases "k = i") (auto simp: nth_list_update)
      then show ?thesis using ys(1,2) True Suc.prems by (auto simp: shift_down.simps [of xs])
    qed
  qed
  then show ?thesis using that by blast
qed

lemma insert_in_array:
  assumes "j \<le> n" "n < length xs"
  obtains ys where "shift_up xs j n = Some ys" "length ys = length xs"
    "take (Suc n) (ys[j := v]) = take j xs @ v # drop j (take n xs)"
proof -
  obtain ys where ys: "shift_up xs j n = Some ys" "length ys = length xs"
      "\<And>k. k < length xs \<Longrightarrow> ys ! k = (if j < k \<and> k \<le> n then xs ! (k - 1) else xs ! k)"
    by (rule shift_up_nth [OF assms]) blast
  have "take (Suc n) (ys[j := v]) = take j xs @ v # drop j (take n xs)"
  proof (rule nth_equalityI)
    show "length (take (Suc n) (ys[j := v])) = length (take j xs @ v # drop j (take n xs))"
      using ys(2) assms by simp
    fix k
    assume "k < length (take (Suc n) (ys[j := v]))"
    then have k: "k \<le> n" using ys(2) assms by simp
    show "take (Suc n) (ys[j := v]) ! k = (take j xs @ v # drop j (take n xs)) ! k"
      using k ys(2) ys(3) [of k] assms by (cases k j rule: linorder_cases) (auto simp: nth_append nth_Cons')
  qed
  then show ?thesis using that ys(1,2) by blast
qed

lemma remove_from_array:
  assumes "j < n" "n \<le> length xs"
  obtains ys where "shift_down xs j n = Some ys" "length ys = length xs"
    "take (n - 1) ys = take j xs @ drop (Suc j) (take n xs)"
proof -
  obtain ys where ys: "shift_down xs j n = Some ys" "length ys = length xs"
      "\<And>k. k < n - 1 \<Longrightarrow> ys ! k = (if j \<le> k then xs ! Suc k else xs ! k)"
    by (rule shift_down_nth [OF assms]) blast
  have "take (n - 1) ys = take j xs @ drop (Suc j) (take n xs)"
  proof (rule nth_equalityI)
    show "length (take (n - 1) ys) = length (take j xs @ drop (Suc j) (take n xs))"
      using ys(2) assms by simp
    fix k
    assume "k < length (take (n - 1) ys)"
    then have k: "k < n - 1" using ys(2) assms by simp
    show "take (n - 1) ys ! k = (take j xs @ drop (Suc j) (take n xs)) ! k"
      using k ys(3) [OF k] ys(2) assms by (auto simp: nth_append)
  qed
  then show ?thesis using that ys(1,2) by blast
qed

text \<open>Strictly increasing lists.\<close>

lemma increasing_nth: "sorted_wrt (<) xs \<Longrightarrow> i < j \<Longrightarrow> j < length xs \<Longrightarrow> xs ! i < xs ! j"
  by (rule sorted_wrt_nth_less)

lemma increasing_insert:
  fixes xs :: "'a :: linorder list"
  assumes "sorted_wrt (<) xs" "j \<le> length xs" "\<And>i. i < j \<Longrightarrow> xs ! i < v" "\<And>i. j \<le> i \<Longrightarrow> i < length xs \<Longrightarrow> v < xs ! i"
  shows "sorted_wrt (<) (take j xs @ v # drop j xs)"
proof -
  have "sorted_wrt (<) (take j xs @ drop j xs)" using assms(1) by simp
  then have parts: "sorted_wrt (<) (take j xs)" "sorted_wrt (<) (drop j xs)" "\<forall>x\<in>set (take j xs). \<forall>y\<in>set (drop j xs). x < y"
    unfolding sorted_wrt_append by blast+
  have "x < v" if "x \<in> set (take j xs)" for x
    using that assms(2,3) by (auto simp: in_set_conv_nth)
  moreover have "v < y" if "y \<in> set (drop j xs)" for y
    using that assms(2,4) by (auto simp: in_set_conv_nth)
  ultimately show ?thesis using parts by (simp add: sorted_wrt_append)
qed

lemma increasing_remove: "sorted_wrt (<) xs \<Longrightarrow> sorted_wrt (<) (take j xs @ drop (Suc j) xs)"
proof -
  assume "sorted_wrt (<) xs"
  then have "sorted_wrt (<) (take j xs @ drop j xs)" by simp
  then have "sorted_wrt (<) (take j xs)" "sorted_wrt (<) (drop j xs)" "\<forall>x\<in>set (take j xs). \<forall>y\<in>set (drop j xs). x < y"
    unfolding sorted_wrt_append by blast+
  moreover have "drop (Suc j) xs = drop 1 (drop j xs)" by simp
  ultimately show ?thesis
    by (metis in_set_dropD sorted_wrt_append sorted_wrt_drop)
qed

lemma set_insert_at: "j \<le> length xs \<Longrightarrow> set (take j xs @ v # drop j xs) = insert v (set xs)"
  by (metis Un_insert_right append_take_drop_id list.simps(15) set_append)

lemma set_remove_at:
  fixes xs :: "'a :: linorder list"
  assumes "sorted_wrt (<) xs" "j < length xs"
  shows "set (take j xs @ drop (Suc j) xs) = set xs - {xs ! j}"
proof -
  have split: "xs = take j xs @ xs ! j # drop (Suc j) xs" using assms(2) by (simp add: id_take_nth_drop)
  have "distinct xs" using assms(1) by (simp add: strict_sorted_iff)
  then have "xs ! j \<notin> set (take j xs)" "xs ! j \<notin> set (drop (Suc j) xs)"
    using split by (metis distinct.simps(2) distinct_append not_distinct_conv_prefix, metis split distinct.simps(2) distinct_append)
  then show ?thesis by (subst (3) split) auto
qed

end
