(* ===== verification/Simulation.thy ===== *)
theory Simulation
  imports Main "HOL-Library.Monad_Syntax"
begin

text \<open>
  Sequences of calls on an object and the contract of an implementation against a specification: each
  call of the implementation returns, answers as the specification does in the abstract state, and
  keeps the invariant. A result None of a call stands for a fault such as an access out of bounds.
\<close>

primrec run_calls :: "('s \<Rightarrow> 'r \<Rightarrow> ('a \<times> 's) option) \<Rightarrow> 'r list \<Rightarrow> 's \<Rightarrow> ('a list \<times> 's) option" where
  "run_calls step [] s = Some ([], s)"
| "run_calls step (r # rs) s =
     do { (a, s) \<leftarrow> step s r; (as, s) \<leftarrow> run_calls step rs s; Some (a # as, s) }"

primrec run_spec :: "('t \<Rightarrow> 'r \<Rightarrow> 'a \<times> 't) \<Rightarrow> 'r list \<Rightarrow> 't \<Rightarrow> 'a list \<times> 't" where
  "run_spec spec [] t = ([], t)"
| "run_spec spec (r # rs) t =
     (let (a, t) = spec t r; (as, t) = run_spec spec rs t in (a # as, t))"

locale simulation =
  fixes inv :: "'s \<Rightarrow> bool" and abs :: "'s \<Rightarrow> 't"
    and step :: "'s \<Rightarrow> 'r \<Rightarrow> ('a \<times> 's) option" and spec :: "'t \<Rightarrow> 'r \<Rightarrow> 'a \<times> 't"
  assumes step_ok: "inv s \<Longrightarrow> \<exists>s'. step s r = Some (fst (spec (abs s) r), s') \<and> inv s' \<and> abs s' = snd (spec (abs s) r)"
begin

lemma run_ok:
  "inv s \<Longrightarrow> \<exists>s'. run_calls step rs s = Some (fst (run_spec spec rs (abs s)), s') \<and> inv s' \<and>
     abs s' = snd (run_spec spec rs (abs s))"
proof (induction rs arbitrary: s)
  case Nil
  then show ?case by simp
next
  case (Cons r rs)
  obtain s' where s': "step s r = Some (fst (spec (abs s) r), s')" "inv s'" "abs s' = snd (spec (abs s) r)"
    using step_ok [OF Cons.prems] by blast
  show ?case using Cons.IH [OF s'(2)] s' by (auto simp: split_beta)
qed

end

text \<open>
  The same for a specification that leaves a choice: a relation between the state before, the call, the
  answer and the state after. A trace is a sequence of such steps.
\<close>

inductive trace :: "('t \<Rightarrow> 'r \<Rightarrow> 'a \<Rightarrow> 't \<Rightarrow> bool) \<Rightarrow> 't \<Rightarrow> 'r list \<Rightarrow> 'a list \<Rightarrow> 't \<Rightarrow> bool" for spec where
  trace_Nil: "trace spec t [] [] t"
| trace_Cons: "spec t r a t' \<Longrightarrow> trace spec t' rs as t'' \<Longrightarrow> trace spec t (r # rs) (a # as) t''"

inductive_simps trace_simps [simp]: "trace spec t [] as t'" "trace spec t (r # rs) as t'"

locale trace_simulation =
  fixes rel :: "'s \<Rightarrow> 't \<Rightarrow> bool" and ok :: "'r \<Rightarrow> bool"
    and step :: "'s \<Rightarrow> 'r \<Rightarrow> ('a \<times> 's) option" and spec :: "'t \<Rightarrow> 'r \<Rightarrow> 'a \<Rightarrow> 't \<Rightarrow> bool"
  assumes step_trace: "rel s t \<Longrightarrow> ok r \<Longrightarrow> \<exists>a s' t'. step s r = Some (a, s') \<and> rel s' t' \<and> spec t r a t'"
begin

lemma run_trace:
  "rel s t \<Longrightarrow> list_all ok rs \<Longrightarrow> \<exists>as s' t'. run_calls step rs s = Some (as, s') \<and> rel s' t' \<and> trace spec t rs as t'"
proof (induction rs arbitrary: s t)
  case Nil
  then show ?case by auto
next
  case (Cons r rs)
  then obtain a s' t' where s': "step s r = Some (a, s')" "rel s' t'" "spec t r a t'" using step_trace by fastforce
  with Cons.IH [OF s'(2)] Cons.prems(2) obtain as s'' t'' where
      r: "run_calls step rs s' = Some (as, s'')" "rel s'' t''" "trace spec t' rs as t''"
    by auto
  then have "run_calls step (r # rs) s = Some (a # as, s'')" using s'(1) by simp
  then show ?case using r s'(3) trace_Cons by fast
qed

end

sublocale simulation \<subseteq> relational: trace_simulation "\<lambda>s t. inv s \<and> abs s = t" "\<lambda>_. True" step "\<lambda>t r a t'. spec t r = (a, t')"
proof
  show "\<exists>a s' t'. step s r = Some (a, s') \<and> (inv s' \<and> abs s' = t') \<and> spec t r = (a, t')" if "inv s \<and> abs s = t" for s t r
    using step_ok [of s r] that by (cases "spec t r") auto
qed

end
