(* ===== verification/Badblocks.thy ===== *)
theory Badblocks
  imports Bitops Sorted_Array Simulation
begin

text \<open>
  Lists of bad blocks, \<open>external/e2fsprogs/lib/ext2fs/badblocks.c\<close>: a growing array of 32-bit numbers
  that is kept strictly increasing and searched by bisection. An access outside the array is None.
  The list is shown to answer every sequence of calls as a finite set of numbers does.
\<close>

section \<open>The list\<close>

text \<open>\<open>bb_magic\<close> says that the magic number is right.\<close>

record u32_list =
  bb_magic :: bool
  bb_num :: nat
  bb_size :: nat
  bb_list :: "u32 list"
  bb_flags :: u32

record u32_iterate =
  it_magic :: bool
  it_ptr :: nat

text \<open>\<open>mem1\<close> and \<open>mem2\<close> say whether the two allocations succeed.\<close>

definition make_u32_list :: "bool \<Rightarrow> bool \<Rightarrow> nat \<Rightarrow> nat \<Rightarrow> u32 list option \<Rightarrow> (errcode + u32_list) option" where
  "make_u32_list mem1 mem2 sz num list =
     (let sz = (if sz \<noteq> 0 then sz else 10)
      in if \<not> mem1 \<or> \<not> mem2 then Some (Inl EXT2_ET_NO_MEMORY)
         else case list of
           None \<Rightarrow> Some (Inr \<lparr>bb_magic = True, bb_num = num, bb_size = sz, bb_list = replicate sz 0, bb_flags = 0\<rparr>)
         | Some xs \<Rightarrow>
             if length xs < sz then None
             else Some (Inr \<lparr>bb_magic = True, bb_num = num, bb_size = sz, bb_list = take sz xs, bb_flags = 0\<rparr>))"

definition ext2fs_u32_list_create :: "bool \<Rightarrow> bool \<Rightarrow> nat \<Rightarrow> (errcode + u32_list) option" where
  "ext2fs_u32_list_create mem1 mem2 sz = make_u32_list mem1 mem2 sz 0 None"

definition ext2fs_u32_copy :: "bool \<Rightarrow> bool \<Rightarrow> u32_list \<Rightarrow> (errcode + u32_list) option" where
  "ext2fs_u32_copy mem1 mem2 src =
     map_option (map_sum id (bb_flags_update (\<lambda>_. bb_flags src)))
       (make_u32_list mem1 mem2 (bb_size src) (bb_num src) (Some (bb_list src)))"

text \<open>
  The search for the place of a new number: None inside if the number is there. \<open>junk\<close> is the
  content of the memory that a reallocation adds.
\<close>

function add_place :: "u32 list \<Rightarrow> u32 \<Rightarrow> nat \<Rightarrow> nat \<Rightarrow> nat option option" where
  "add_place xs blk num i =
     (if i < num then
        do { x \<leftarrow> rd xs i;
             if x = blk then Some None
             else if blk < x then Some (Some i)
             else add_place xs blk num (i + 1) }
      else Some (Some num))"
  by pat_completeness auto
termination by (relation "measure (\<lambda>(xs, blk, num, i). num - i)") auto

declare add_place.simps [simp del]

definition add_append :: "u32_list \<Rightarrow> u32 \<Rightarrow> u32_list option" where
  "add_append bb blk =
     do { xs \<leftarrow> wr (bb_list bb) (bb_num bb) blk;
          Some (bb\<lparr>bb_list := xs, bb_num := bb_num bb + 1\<rparr>) }"

definition add_inside :: "u32_list \<Rightarrow> u32 \<Rightarrow> u32_list option" where
  "add_inside bb blk =
     do { place \<leftarrow> add_place (bb_list bb) blk (bb_num bb) 0;
          case place of
            None \<Rightarrow> Some bb
          | Some j \<Rightarrow>
              do { xs \<leftarrow> shift_up (bb_list bb) j (bb_num bb);
                   xs \<leftarrow> wr xs j blk;
                   Some (bb\<lparr>bb_list := xs, bb_num := bb_num bb + 1\<rparr>) } }"

definition add_grow :: "(nat \<Rightarrow> u32) \<Rightarrow> u32_list \<Rightarrow> u32_list" where
  "add_grow junk bb =
     (if bb_size bb \<le> bb_num bb
      then bb\<lparr>bb_size := bb_size bb + 100, bb_list := bb_list bb @ map junk [0..<100]\<rparr> else bb)"

definition ext2fs_u32_list_add :: "bool \<Rightarrow> (nat \<Rightarrow> u32) \<Rightarrow> u32_list \<Rightarrow> u32 \<Rightarrow> (errcode \<times> u32_list) option" where
  "ext2fs_u32_list_add mem junk bb blk =
     (if \<not> bb_magic bb then Some (EXT2_ET_MAGIC_BADBLOCKS_LIST, bb)
      else if bb_size bb \<le> bb_num bb \<and> \<not> mem then Some (EXT2_ET_NO_MEMORY, bb)
      else
        let bb = add_grow junk bb
        in if bb_num bb = 0 then map_option (Pair Success) (add_append bb blk)
           else do { x \<leftarrow> rd (bb_list bb) (bb_num bb - 1);
                     if x = blk then Some (Success, bb)
                     else if x < blk then map_option (Pair Success) (add_append bb blk)
                     else map_option (Pair Success) (add_inside bb blk) })"

text \<open>The index of a number, None inside for -1.\<close>

function find_loop :: "u32 list \<Rightarrow> u32 \<Rightarrow> nat \<Rightarrow> nat \<Rightarrow> nat option option" where
  "find_loop xs blk low high =
     (if low < high then
        let mid = (low + high) div 2
        in if mid = low \<or> mid = high then Some None
           else do { x \<leftarrow> rd xs mid;
                     if blk = x then Some (Some mid)
                     else if blk < x then find_loop xs blk low mid
                     else find_loop xs blk mid high }
      else Some None)"
  by pat_completeness auto
termination by (relation "measure (\<lambda>(xs, blk, low, high). high - low)") (auto simp: Let_def)

declare find_loop.simps [simp del]

definition ext2fs_u32_list_find :: "u32_list \<Rightarrow> u32 \<Rightarrow> nat option option" where
  "ext2fs_u32_list_find bb blk =
     (if \<not> bb_magic bb \<or> bb_num bb = 0 then Some None
      else
        let high = bb_num bb - 1
        in do { first \<leftarrow> rd (bb_list bb) 0;
                if blk = first then Some (Some 0)
                else do { last \<leftarrow> rd (bb_list bb) high;
                          if blk = last then Some (Some high)
                          else find_loop (bb_list bb) blk 0 high } })"

definition ext2fs_u32_list_test :: "u32_list \<Rightarrow> u32 \<Rightarrow> bool option" where
  "ext2fs_u32_list_test bb blk = map_option (\<lambda>r. r \<noteq> None) (ext2fs_u32_list_find bb blk)"

text \<open>The result says whether the number was removed (the code returns 0, or else -1).\<close>

definition ext2fs_u32_list_del :: "u32_list \<Rightarrow> u32 \<Rightarrow> (bool \<times> u32_list) option" where
  "ext2fs_u32_list_del bb blk =
     (if bb_num bb = 0 then Some (False, bb)
      else do { r \<leftarrow> ext2fs_u32_list_find bb blk;
                case r of
                  None \<Rightarrow> Some (False, bb)
                | Some remloc \<Rightarrow>
                    do { xs \<leftarrow> shift_down (bb_list bb) remloc (bb_num bb);
                         Some (True, bb\<lparr>bb_list := xs, bb_num := bb_num bb - 1\<rparr>) } })"

definition ext2fs_u32_list_iterate_begin :: "bool \<Rightarrow> u32_list \<Rightarrow> errcode + u32_iterate" where
  "ext2fs_u32_list_iterate_begin mem bb =
     (if \<not> bb_magic bb then Inl EXT2_ET_MAGIC_BADBLOCKS_LIST
      else if \<not> mem then Inl EXT2_ET_NO_MEMORY
      else Inr \<lparr>it_magic = True, it_ptr = 0\<rparr>)"

text \<open>One step of an iterator over the list \<open>bb\<close> it points to; None inside at the end.\<close>

definition ext2fs_u32_list_iterate :: "u32_list \<Rightarrow> u32_iterate \<Rightarrow> (u32 option \<times> u32_iterate) option" where
  "ext2fs_u32_list_iterate bb iter =
     (if \<not> it_magic iter \<or> \<not> bb_magic bb then Some (None, iter)
      else if it_ptr iter < bb_num bb then
        do { x \<leftarrow> rd (bb_list bb) (it_ptr iter); Some (Some x, iter\<lparr>it_ptr := it_ptr iter + 1\<rparr>) }
      else Some (None, iter))"

text \<open>The \<open>memcmp\<close> reads the first \<open>bb_num\<close> numbers of both arrays.\<close>

definition ext2fs_u32_list_equal :: "u32_list \<Rightarrow> u32_list \<Rightarrow> (errcode + bool) option" where
  "ext2fs_u32_list_equal bb1 bb2 =
     (if \<not> bb_magic bb1 \<or> \<not> bb_magic bb2 then Some (Inl EXT2_ET_MAGIC_BADBLOCKS_LIST)
      else if bb_num bb1 \<noteq> bb_num bb2 then Some (Inr False)
      else if length (bb_list bb1) < bb_num bb1 \<or> length (bb_list bb2) < bb_num bb1 then None
      else Some (Inr (take (bb_num bb1) (bb_list bb1) = take (bb_num bb1) (bb_list bb2))))"

definition ext2fs_u32_list_count :: "u32_list \<Rightarrow> nat" where
  "ext2fs_u32_list_count bb = bb_num bb"

section \<open>The list as a set\<close>

definition bb_inv :: "u32_list \<Rightarrow> bool" where
  "bb_inv bb \<longleftrightarrow> bb_magic bb \<and> bb_num bb \<le> bb_size bb \<and> length (bb_list bb) = bb_size bb \<and>
     sorted_wrt (<) (take (bb_num bb) (bb_list bb))"

definition bb_elems :: "u32_list \<Rightarrow> u32 set" where
  "bb_elems bb = set (take (bb_num bb) (bb_list bb))"

lemma bb_inv_nth: "bb_inv bb \<Longrightarrow> i < j \<Longrightarrow> j < bb_num bb \<Longrightarrow> bb_list bb ! i < bb_list bb ! j"
  using increasing_nth [of "take (bb_num bb) (bb_list bb)" i j] by (simp add: bb_inv_def)

lemma bb_elems_nth: "bb_inv bb \<Longrightarrow> x \<in> bb_elems bb \<longleftrightarrow> (\<exists>i < bb_num bb. bb_list bb ! i = x)"
  by (auto simp: bb_elems_def bb_inv_def in_set_conv_nth)

lemma create_inv:
  "\<exists>bb. ext2fs_u32_list_create True True sz = Some (Inr bb) \<and> bb_inv bb \<and> bb_elems bb = {}"
  by (simp add: ext2fs_u32_list_create_def make_u32_list_def bb_inv_def bb_elems_def)

lemma copy_inv:
  assumes "bb_inv bb" "bb_size bb \<noteq> 0"
  shows "ext2fs_u32_copy True True bb = Some (Inr bb)"
  using assms by (simp add: ext2fs_u32_copy_def make_u32_list_def bb_inv_def)

lemma add_grow_inv:
  assumes "bb_inv bb"
  shows "bb_inv (add_grow junk bb)" "bb_elems (add_grow junk bb) = bb_elems bb" "bb_num (add_grow junk bb) = bb_num bb"
    "bb_num (add_grow junk bb) < bb_size (add_grow junk bb)"
  using assms by (auto simp: add_grow_def bb_inv_def bb_elems_def)

lemma add_place_ok:
  assumes "bb_inv bb" "i \<le> bb_num bb" "\<forall>k < i. bb_list bb ! k < blk"
  shows "(blk \<in> bb_elems bb \<and> add_place (bb_list bb) blk (bb_num bb) i = Some None) \<or>
    (\<exists>j \<le> bb_num bb. add_place (bb_list bb) blk (bb_num bb) i = Some (Some j) \<and>
       (\<forall>k < j. bb_list bb ! k < blk) \<and> (\<forall>k. j \<le> k \<and> k < bb_num bb \<longrightarrow> blk < bb_list bb ! k))"
  using assms(2,3)
proof (induction "bb_num bb - i" arbitrary: i)
  case 0
  then have "i = bb_num bb" by simp
  then show ?case using 0 by (intro disjI2 exI [of _ "bb_num bb"]) (auto simp: add_place.simps [of _ _ _ "bb_num bb"])
next
  case (Suc d)
  then have i: "i < bb_num bb" by simp
  then have r: "rd (bb_list bb) i = Some (bb_list bb ! i)" using assms(1) by (simp add: bb_inv_def)
  note run = add_place.simps [of "bb_list bb" blk "bb_num bb" i]
  show ?case
  proof (cases "bb_list bb ! i" blk rule: linorder_cases)
    case less
    have "\<forall>k < Suc i. bb_list bb ! k < blk" using less Suc.prems(2) by (simp add: less_Suc_eq)
    moreover have "d = bb_num bb - Suc i" using Suc.hyps(2) by simp
    moreover have "add_place (bb_list bb) blk (bb_num bb) i = add_place (bb_list bb) blk (bb_num bb) (Suc i)"
      using i r run order_less_imp_not_less [OF less] order_less_imp_not_eq [OF less] by simp
    ultimately show ?thesis using Suc.hyps(1) [of "Suc i"] i by simp
  next
    case equal
    then have "blk \<in> bb_elems bb" using i bb_elems_nth [OF assms(1)] by blast
    then show ?thesis using equal i r run by simp
  next
    case greater
    have "blk < bb_list bb ! k" if "i \<le> k" "k < bb_num bb" for k
      using greater bb_inv_nth [OF assms(1), of i k] that by (cases "i = k") auto
    then show ?thesis using greater i r run Suc.prems(2) by (intro disjI2 exI [of _ i]) auto
  qed
qed

text \<open>Putting a number at its place into an array with room for it.\<close>

lemma placed_inv:
  assumes "bb_inv bb" "bb_num bb < bb_size bb" "j \<le> bb_num bb"
    "\<forall>k < j. bb_list bb ! k < blk" "\<forall>k. j \<le> k \<and> k < bb_num bb \<longrightarrow> blk < bb_list bb ! k"
    "length xs = bb_size bb"
    "take (Suc (bb_num bb)) xs = take j (bb_list bb) @ blk # drop j (take (bb_num bb) (bb_list bb))"
  shows "bb_inv (bb\<lparr>bb_list := xs, bb_num := bb_num bb + 1\<rparr>)"
    "bb_elems (bb\<lparr>bb_list := xs, bb_num := bb_num bb + 1\<rparr>) = insert blk (bb_elems bb)"
proof -
  let ?l = "take (bb_num bb) (bb_list bb)"
  have len: "length ?l = bb_num bb" using assms(1) by (simp add: bb_inv_def)
  have t: "take j (bb_list bb) = take j ?l" using assms(3) by (simp add: min_def)
  have sorted: "sorted_wrt (<) (take j ?l @ blk # drop j ?l)"
  proof (rule increasing_insert)
    show "sorted_wrt (<) ?l" using assms(1) by (simp add: bb_inv_def)
    show "j \<le> length ?l" using assms(3) len by simp
    show "?l ! i < blk" if "i < j" for i using assms(3,4) that by simp
    show "blk < ?l ! i" if "j \<le> i" "i < length ?l" for i using assms(5) that len by simp
  qed
  have xs: "take (Suc (bb_num bb)) xs = take j ?l @ blk # drop j ?l" using assms(7) t by simp
  show "bb_inv (bb\<lparr>bb_list := xs, bb_num := bb_num bb + 1\<rparr>)"
    using assms(1,2,6) sorted xs by (simp add: bb_inv_def)
  show "bb_elems (bb\<lparr>bb_list := xs, bb_num := bb_num bb + 1\<rparr>) = insert blk (bb_elems bb)"
    using set_insert_at [of j ?l blk] xs assms(3) len by (simp add: bb_elems_def)
qed

lemma add_append_ok:
  assumes "bb_inv bb" "bb_num bb < bb_size bb" "\<forall>k < bb_num bb. bb_list bb ! k < blk"
  shows "\<exists>bb'. add_append bb blk = Some bb' \<and> bb_inv bb' \<and> bb_elems bb' = insert blk (bb_elems bb)"
proof -
  have len: "length (bb_list bb) = bb_size bb" using assms(1) by (simp add: bb_inv_def)
  have "take (Suc (bb_num bb)) ((bb_list bb)[bb_num bb := blk]) = take (bb_num bb) (bb_list bb) @ [blk]"
    using assms(2) len by (simp add: take_Suc_conv_app_nth)
  moreover have "\<forall>k. bb_num bb \<le> k \<and> k < bb_num bb \<longrightarrow> blk < bb_list bb ! k" by auto
  ultimately show ?thesis
    using placed_inv [OF assms(1,2) order_refl assms(3), of "(bb_list bb)[bb_num bb := blk]"] len assms(2)
    by (simp add: add_append_def)
qed

lemma add_inside_ok:
  assumes "bb_inv bb" "bb_num bb < bb_size bb"
  shows "\<exists>bb'. add_inside bb blk = Some bb' \<and> bb_inv bb' \<and> bb_elems bb' = insert blk (bb_elems bb)"
proof -
  have len: "length (bb_list bb) = bb_size bb" using assms(1) by (simp add: bb_inv_def)
  have "\<forall>k<0. bb_list bb ! k < blk" by simp
  from add_place_ok [OF assms(1) le0 this] show ?thesis
  proof (elim disjE exE conjE)
    assume "blk \<in> bb_elems bb" "add_place (bb_list bb) blk (bb_num bb) 0 = Some None"
    then show ?thesis using assms(1) by (simp add: add_inside_def insert_absorb)
  next
    fix j
    assume j: "j \<le> bb_num bb" "add_place (bb_list bb) blk (bb_num bb) 0 = Some (Some j)"
      "\<forall>k < j. bb_list bb ! k < blk" "\<forall>k. j \<le> k \<and> k < bb_num bb \<longrightarrow> blk < bb_list bb ! k"
    obtain ys where ys: "shift_up (bb_list bb) j (bb_num bb) = Some ys" "length ys = bb_size bb"
        "take (Suc (bb_num bb)) (ys[j := blk]) = take j (bb_list bb) @ blk # drop j (take (bb_num bb) (bb_list bb))"
      using insert_in_array [OF j(1), of "bb_list bb" blk] assms(2) len by auto
    show ?thesis
      using placed_inv [OF assms j(1,3,4), of "ys[j := blk]"] ys j(1,2) assms(2) by (simp add: add_inside_def)
  qed
qed

lemma add_ok:
  assumes "bb_inv bb"
  shows "\<exists>bb'. ext2fs_u32_list_add True junk bb blk = Some (Success, bb') \<and> bb_inv bb' \<and>
    bb_elems bb' = insert blk (bb_elems bb)"
proof -
  let ?b = "add_grow junk bb"
  let ?last = "bb_list ?b ! (bb_num ?b - 1)"
  note g = add_grow_inv [OF assms, of junk]
  have r: "rd (bb_list ?b) (bb_num ?b - 1) = Some ?last" using g(1,4) by (simp add: bb_inv_def)
  have "bb_magic bb" using assms by (simp add: bb_inv_def)
  with r have run: "ext2fs_u32_list_add True junk bb blk =
      (if bb_num ?b = 0 then map_option (Pair Success) (add_append ?b blk)
       else if ?last = blk then Some (Success, ?b)
       else if ?last < blk then map_option (Pair Success) (add_append ?b blk)
       else map_option (Pair Success) (add_inside ?b blk))"
    by (simp add: ext2fs_u32_list_add_def Let_def)
  consider "bb_num ?b = 0 \<or> ?last < blk" | "bb_num ?b \<noteq> 0" "?last = blk" | "bb_num ?b \<noteq> 0" "blk < ?last"
    by (cases ?last blk rule: linorder_cases) auto
  then show ?thesis
  proof cases
    case 1
    have "\<forall>k < bb_num ?b. bb_list ?b ! k < blk"
    proof (intro allI impI)
      fix k
      assume k: "k < bb_num ?b"
      then have "bb_list ?b ! k \<le> ?last"
        using bb_inv_nth [OF g(1), of k "bb_num ?b - 1"] by (cases "k < bb_num ?b - 1") (auto simp: not_less le_eq_less_or_eq)
      then show "bb_list ?b ! k < blk" using 1 k by auto
    qed
    from add_append_ok [OF g(1,4) this] g(2) obtain bb' where
      "add_append ?b blk = Some bb'" "bb_inv bb'" "bb_elems bb' = insert blk (bb_elems bb)" by auto
    moreover have "bb_num ?b = 0 \<or> ?last \<noteq> blk" using 1 by auto
    ultimately show ?thesis using run 1 by (cases "bb_num ?b = 0") simp_all
  next
    case 2
    then have "\<exists>i < bb_num ?b. bb_list ?b ! i = blk" by (intro exI [of _ "bb_num ?b - 1"]) simp
    then have "blk \<in> bb_elems ?b" by (simp only: bb_elems_nth [OF g(1)])
    then show ?thesis using run 2 g(1,2) by (simp add: insert_absorb)
  next
    case 3
    from add_inside_ok [OF g(1,4), of blk] g(2) obtain bb' where
      "add_inside ?b blk = Some bb'" "bb_inv bb'" "bb_elems bb' = insert blk (bb_elems bb)" by auto
    moreover have "ext2fs_u32_list_add True junk bb blk = map_option (Pair Success) (add_inside ?b blk)"
      using run 3(1) order_less_imp_not_less [OF 3(2)] order_less_imp_not_eq2 [OF 3(2)] by simp
    ultimately show ?thesis by simp
  qed
qed

lemma find_loop_ok:
  assumes "\<And>i j. i < j \<Longrightarrow> j \<le> high \<Longrightarrow> xs ! i < xs ! j" "high < length xs"
  shows "(\<exists>p. low < p \<and> p < high \<and> xs ! p = blk \<and> find_loop xs blk low high = Some (Some p)) \<or>
    ((\<forall>p. low < p \<and> p < high \<longrightarrow> xs ! p \<noteq> blk) \<and> find_loop xs blk low high = Some None)"
  using assms
proof (induction "high - low" arbitrary: low high rule: less_induct)
  case less
  let ?m = "(low + high) div 2"
  note run = find_loop.simps [of xs blk low high]
  show ?case
  proof (cases "low < ?m \<and> ?m < high")
    case False
    then have "\<not> low < high \<or> ?m = low \<or> ?m = high" by linarith
    moreover from False have "\<not> (low < p \<and> p < high)" for p by linarith
    ultimately show ?thesis using run by (auto simp: Let_def)
  next
    case True
    then have "rd xs ?m = Some (xs ! ?m)" using less.prems(2) by simp
    then have step: "find_loop xs blk low high =
        (if blk = xs ! ?m then Some (Some ?m) else if blk < xs ! ?m then find_loop xs blk low ?m else find_loop xs blk ?m high)"
      using run True by (simp add: Let_def)
    show ?thesis
    proof (cases blk "xs ! ?m" rule: linorder_cases)
      case equal
      then show ?thesis using step True by auto
    next
      case (less)
      have above: "xs ! p \<noteq> blk" if "?m \<le> p" "p < high" for p
        using less less.prems(1) [of ?m p] that by (cases "?m = p") auto
      have "find_loop xs blk low high = find_loop xs blk low ?m" using step less by auto
      moreover have "(\<exists>p. low < p \<and> p < ?m \<and> xs ! p = blk \<and> find_loop xs blk low ?m = Some (Some p)) \<or>
          ((\<forall>p. low < p \<and> p < ?m \<longrightarrow> xs ! p \<noteq> blk) \<and> find_loop xs blk low ?m = Some None)"
        using True by (intro less.hyps) (auto intro: less.prems(1) less_trans [OF _ less.prems(2)])
      ultimately show ?thesis
      proof (elim disjE exE conjE)
        fix p
        assume "low < p" "p < ?m" "xs ! p = blk" "find_loop xs blk low ?m = Some (Some p)"
        then show ?thesis using \<open>find_loop xs blk low high = find_loop xs blk low ?m\<close> True
          by (intro disjI1 exI [of _ p]) simp
      next
        assume none: "\<forall>p. low < p \<and> p < ?m \<longrightarrow> xs ! p \<noteq> blk" "find_loop xs blk low ?m = Some None"
        have "xs ! p \<noteq> blk" if "low < p \<and> p < high" for p
          using none(1) above [of p] that by (cases "?m \<le> p") auto
        then show ?thesis using none(2) \<open>find_loop xs blk low high = find_loop xs blk low ?m\<close> by simp
      qed
    next
      case greater
      have below: "xs ! p \<noteq> blk" if "low < p" "p \<le> ?m" for p
        using greater less.prems(1) [of p ?m] that True by (cases "?m = p") auto
      have "find_loop xs blk low high = find_loop xs blk ?m high" using step greater by auto
      moreover have "(\<exists>p. ?m < p \<and> p < high \<and> xs ! p = blk \<and> find_loop xs blk ?m high = Some (Some p)) \<or>
          ((\<forall>p. ?m < p \<and> p < high \<longrightarrow> xs ! p \<noteq> blk) \<and> find_loop xs blk ?m high = Some None)"
        using True by (intro less.hyps) (auto intro: less.prems)
      ultimately show ?thesis
      proof (elim disjE exE conjE)
        fix p
        assume "?m < p" "p < high" "xs ! p = blk" "find_loop xs blk ?m high = Some (Some p)"
        then show ?thesis using \<open>find_loop xs blk low high = find_loop xs blk ?m high\<close> True
          by (intro disjI1 exI [of _ p]) simp
      next
        assume none: "\<forall>p. ?m < p \<and> p < high \<longrightarrow> xs ! p \<noteq> blk" "find_loop xs blk ?m high = Some None"
        have "xs ! p \<noteq> blk" if "low < p \<and> p < high" for p
          using none(1) below [of p] that by (cases "p \<le> ?m") auto
        then show ?thesis using none(2) \<open>find_loop xs blk low high = find_loop xs blk ?m high\<close> by simp
      qed
    qed
  qed
qed

lemma find_ok:
  assumes "bb_inv bb"
  shows "(\<exists>p < bb_num bb. bb_list bb ! p = blk \<and> ext2fs_u32_list_find bb blk = Some (Some p)) \<or>
    (blk \<notin> bb_elems bb \<and> ext2fs_u32_list_find bb blk = Some None)"
proof (cases "bb_num bb = 0")
  case True
  then show ?thesis by (simp add: ext2fs_u32_list_find_def bb_elems_def)
next
  case False
  let ?xs = "bb_list bb" and ?h = "bb_num bb - 1"
  have len: "?h < length ?xs" using assms False by (auto simp: bb_inv_def)
  have run: "ext2fs_u32_list_find bb blk =
      (if blk = ?xs ! 0 then Some (Some 0) else if blk = ?xs ! ?h then Some (Some ?h) else find_loop ?xs blk 0 ?h)"
    using assms False len by (simp add: ext2fs_u32_list_find_def bb_inv_def Let_def)
  have "(\<exists>p. 0 < p \<and> p < ?h \<and> ?xs ! p = blk \<and> find_loop ?xs blk 0 ?h = Some (Some p)) \<or>
      ((\<forall>p. 0 < p \<and> p < ?h \<longrightarrow> ?xs ! p \<noteq> blk) \<and> find_loop ?xs blk 0 ?h = Some None)"
    using False by (intro find_loop_ok [OF _ len] bb_inv_nth [OF assms]) auto
  then consider "blk = ?xs ! 0" | "blk = ?xs ! ?h" |
      p where "p < ?h" "?xs ! p = blk" "ext2fs_u32_list_find bb blk = Some (Some p)" |
      "blk \<noteq> ?xs ! 0" "blk \<noteq> ?xs ! ?h" "\<forall>p. 0 < p \<and> p < ?h \<longrightarrow> ?xs ! p \<noteq> blk" "ext2fs_u32_list_find bb blk = Some None"
    using run by metis
  then show ?thesis
  proof cases
    case 1
    then show ?thesis using run False by auto
  next
    case 2
    then show ?thesis using run False by (cases "blk = ?xs ! 0") auto
  next
    case 3
    then show ?thesis by auto
  next
    case 4
    have "?xs ! p \<noteq> blk" if "p < bb_num bb" for p
      using 4(1,2) 4(3) [rule_format, of p] that by (cases "p = 0"; cases "p = ?h") auto
    then show ?thesis using 4(4) bb_elems_nth [OF assms] by blast
  qed
qed

lemma test_ok: "bb_inv bb \<Longrightarrow> ext2fs_u32_list_test bb blk = Some (blk \<in> bb_elems bb)"
  using find_ok [of bb blk] bb_elems_nth [of bb blk] by (auto simp: ext2fs_u32_list_test_def)

lemma del_ok:
  assumes "bb_inv bb"
  shows "\<exists>bb'. ext2fs_u32_list_del bb blk = Some (blk \<in> bb_elems bb, bb') \<and> bb_inv bb' \<and> bb_elems bb' = bb_elems bb - {blk}"
  using find_ok [OF assms, of blk]
proof (elim disjE exE conjE)
  fix p
  assume p: "p < bb_num bb" "bb_list bb ! p = blk" "ext2fs_u32_list_find bb blk = Some (Some p)"
  let ?l = "take (bb_num bb) (bb_list bb)"
  have l: "sorted_wrt (<) ?l" "length ?l = bb_num bb" "?l ! p = blk" using assms p(1,2) by (auto simp: bb_inv_def)
  obtain ys where ys: "shift_down (bb_list bb) p (bb_num bb) = Some ys" "length ys = length (bb_list bb)"
      "take (bb_num bb - 1) ys = take p (bb_list bb) @ drop (Suc p) ?l"
    using remove_from_array [OF p(1), of "bb_list bb"] assms by (auto simp: bb_inv_def)
  have t: "take p (bb_list bb) = take p ?l" using p(1) by (simp add: min_def)
  have "sorted_wrt (<) (take (bb_num bb - 1) ys)" unfolding ys(3) t by (rule increasing_remove [OF l(1)])
  moreover have "set (take (bb_num bb - 1) ys) = bb_elems bb - {blk}"
    unfolding ys(3) t using set_remove_at [OF l(1), of p] l(2,3) p(1) by (simp add: bb_elems_def)
  moreover have "blk \<in> bb_elems bb" using p(1,2) bb_elems_nth [OF assms] by blast
  moreover have "bb_num bb - 1 \<le> bb_size bb" using assms by (auto simp: bb_inv_def)
  moreover have "ext2fs_u32_list_del bb blk = Some (True, bb\<lparr>bb_list := ys, bb_num := bb_num bb - 1\<rparr>)"
    using p(1,3) ys(1) by (simp add: ext2fs_u32_list_del_def)
  ultimately show ?thesis
    using ys(2) assms by (simp add: bb_inv_def bb_elems_def)
next
  assume "blk \<notin> bb_elems bb" "ext2fs_u32_list_find bb blk = Some None"
  then show ?thesis using assms by (auto simp: ext2fs_u32_list_del_def)
qed

lemma count_ok: "bb_inv bb \<Longrightarrow> ext2fs_u32_list_count bb = card (bb_elems bb)"
  by (simp add: ext2fs_u32_list_count_def bb_elems_def bb_inv_def strict_sorted_iff distinct_card)

lemma equal_ok:
  assumes "bb_inv bb1" "bb_inv bb2"
  shows "ext2fs_u32_list_equal bb1 bb2 = Some (Inr (bb_elems bb1 = bb_elems bb2))"
proof -
  let ?l = "\<lambda>bb. take (bb_num bb) (bb_list bb)"
  have "bb_elems bb1 = bb_elems bb2 \<longleftrightarrow> ?l bb1 = ?l bb2"
    using assms by (auto simp: bb_elems_def bb_inv_def intro: strict_sorted_equal)
  moreover have "length (?l bb1) = bb_num bb1" "length (?l bb2) = bb_num bb2" using assms by (auto simp: bb_inv_def)
  moreover from this have "?l bb1 = ?l bb2 \<Longrightarrow> bb_num bb1 = bb_num bb2" by metis
  ultimately show ?thesis
    using assms by (auto simp: ext2fs_u32_list_equal_def bb_inv_def)
qed

text \<open>A caller's loop over an iterator, until it returns 0.\<close>

function iterate_all :: "u32_list \<Rightarrow> u32_iterate \<Rightarrow> u32 list option" where
  "iterate_all bb iter =
     (case ext2fs_u32_list_iterate bb iter of
        None \<Rightarrow> None
      | Some (None, _) \<Rightarrow> Some []
      | Some (Some x, iter') \<Rightarrow> map_option (Cons x) (iterate_all bb iter'))"
  by pat_completeness auto
termination
  by (relation "measure (\<lambda>(bb, iter). bb_num bb - it_ptr iter)")
    (auto simp: ext2fs_u32_list_iterate_def split: if_splits bind_splits)

declare iterate_all.simps [simp del]

lemma iterate_all_ok:
  "bb_inv bb \<Longrightarrow> it_magic iter \<Longrightarrow> iterate_all bb iter = Some (drop (it_ptr iter) (take (bb_num bb) (bb_list bb)))"
proof (induction "bb_num bb - it_ptr iter" arbitrary: iter)
  case 0
  then show ?case by (simp add: iterate_all.simps [of bb iter] ext2fs_u32_list_iterate_def bb_inv_def)
next
  case (Suc d)
  let ?it = "iter\<lparr>it_ptr := it_ptr iter + 1\<rparr>" and ?l = "take (bb_num bb) (bb_list bb)"
  have i: "it_ptr iter < bb_num bb" "d = bb_num bb - it_ptr ?it" using Suc.hyps(2) by simp_all
  have "iterate_all bb ?it = Some (drop (it_ptr ?it) ?l)"
    using Suc.prems by (intro Suc.hyps(1) [OF i(2)]) simp_all
  moreover have "drop (it_ptr iter) ?l = bb_list bb ! it_ptr iter # drop (it_ptr ?it) ?l"
    using i(1) Suc.prems(1) by (simp add: bb_inv_def Cons_nth_drop_Suc [symmetric])
  moreover have "ext2fs_u32_list_iterate bb iter = Some (Some (bb_list bb ! it_ptr iter), ?it)"
    using i(1) Suc.prems by (auto simp: ext2fs_u32_list_iterate_def bb_inv_def)
  ultimately show ?case by (simp add: iterate_all.simps [of bb iter])
qed

section \<open>Sequences of calls\<close>

datatype request = Add u32 | Del u32 | Test u32 | Count | List_all
datatype answer = Code errcode | Truth bool | Number nat | Numbers "u32 list"

text \<open>A call, as long as memory can be allocated.\<close>

primrec list_call :: "(nat \<Rightarrow> u32) \<Rightarrow> u32_list \<Rightarrow> request \<Rightarrow> (answer \<times> u32_list) option" where
  "list_call junk bb (Add blk) = map_option (map_prod Code id) (ext2fs_u32_list_add True junk bb blk)"
| "list_call junk bb (Del blk) = map_option (map_prod Truth id) (ext2fs_u32_list_del bb blk)"
| "list_call junk bb (Test blk) = map_option (\<lambda>r. (Truth r, bb)) (ext2fs_u32_list_test bb blk)"
| "list_call junk bb Count = Some (Number (ext2fs_u32_list_count bb), bb)"
| "list_call junk bb List_all =
     (case ext2fs_u32_list_iterate_begin True bb of
        Inl e \<Rightarrow> Some (Code e, bb)
      | Inr iter \<Rightarrow> map_option (\<lambda>xs. (Numbers xs, bb)) (iterate_all bb iter))"

primrec set_call :: "u32 set \<Rightarrow> request \<Rightarrow> answer \<times> u32 set" where
  "set_call S (Add blk) = (Code Success, insert blk S)"
| "set_call S (Del blk) = (Truth (blk \<in> S), S - {blk})"
| "set_call S (Test blk) = (Truth (blk \<in> S), S)"
| "set_call S Count = (Number (card S), S)"
| "set_call S List_all = (Numbers (sorted_list_of_set S), S)"

interpretation bb_sim: simulation bb_inv bb_elems "list_call junk" set_call
proof
  fix bb r
  assume inv: "bb_inv bb"
  show "\<exists>bb'. list_call junk bb r = Some (fst (set_call (bb_elems bb) r), bb') \<and> bb_inv bb' \<and>
      bb_elems bb' = snd (set_call (bb_elems bb) r)"
  proof (cases r)
    case (Add blk)
    then show ?thesis using add_ok [OF inv, of junk blk] by auto
  next
    case (Del blk)
    then show ?thesis using del_ok [OF inv, of blk] by auto
  next
    case (Test blk)
    then show ?thesis using test_ok [OF inv, of blk] inv by simp
  next
    case Count
    then show ?thesis using count_ok [OF inv] inv by simp
  next
    case List_all
    have "sorted_list_of_set (bb_elems bb) = take (bb_num bb) (bb_list bb)"
      using inv by (simp add: bb_elems_def bb_inv_def strict_sorted_iff sorted_list_of_set_sort_remdups distinct_remdups_id sort_key_id_if_sorted)
    then show ?thesis
      using List_all inv iterate_all_ok [OF inv, of "\<lparr>it_magic = True, it_ptr = 0\<rparr>"]
      by (simp add: ext2fs_u32_list_iterate_begin_def bb_inv_def)
  qed
qed

text \<open>
  C9. A list of bad blocks is a set: after \<open>ext2fs_u32_list_create\<close>, any sequence of additions,
  removals, tests, counts and iterations is answered as by the set of the numbers, an iteration yielding
  them in increasing order without duplicates, and no call reads or writes outside the array.
\<close>

theorem u32_list_refines_set:
  "\<exists>bb bb'. ext2fs_u32_list_create True True sz = Some (Inr bb) \<and>
     run_calls (list_call junk) rs bb = Some (fst (run_spec set_call rs {}), bb') \<and>
     bb_inv bb' \<and> bb_elems bb' = snd (run_spec set_call rs {})"
  using create_inv [of sz] bb_sim.run_ok [of _ junk rs] by metis

end
