(* ===== verification/Ea_Refcount.thy ===== *)
theory Ea_Refcount
  imports Bitops Sorted_Array Simulation
begin

text \<open>
  Reference counts of extended attribute blocks, \<open>external/e2fsprogs/e2fsck/ea_refcount.c\<close>: an array of blocks
  with counts, kept sorted by block and searched by bisection after a look at a cursor. Entries whose
  count is zero stay until the array is full. The array exists; an access outside it is None. The array is shown
  to answer every sequence of calls as a map from blocks to counts does. A count is a word, with the
  two's complement arithmetic that the code is compiled to.
\<close>

section \<open>The array\<close>

type_synonym ea_refcount_el = "u64 \<times> u32"

record ea_refcount =
  rc_count :: nat
  rc_size :: nat
  rc_cursor :: nat
  rc_list :: "ea_refcount_el list"

text \<open>\<open>mem1\<close> and \<open>mem2\<close> say whether the two allocations succeed.\<close>

definition ea_refcount_create :: "bool \<Rightarrow> bool \<Rightarrow> nat \<Rightarrow> errcode + ea_refcount" where
  "ea_refcount_create mem1 mem2 sz =
     (if \<not> mem1 \<or> \<not> mem2 then Inl EXT2_ET_NO_MEMORY
      else let sz = (if sz = 0 then 500 else sz)
           in Inr \<lparr>rc_count = 0, rc_size = sz, rc_cursor = 0, rc_list = replicate sz (0, 0)\<rparr>)"

text \<open>The loop of \<open>refcount_collapse\<close>; the result has the array and the new count.\<close>

function collapse_loop :: "ea_refcount_el list \<Rightarrow> nat \<Rightarrow> nat \<Rightarrow> nat \<Rightarrow> (ea_refcount_el list \<times> nat) option" where
  "collapse_loop list count i j =
     (if i < count then
        do { el \<leftarrow> rd list i;
             if snd el \<noteq> 0 then
               do { list \<leftarrow> (if i \<noteq> j then wr list j el else Some list);
                    collapse_loop list count (i + 1) (j + 1) }
             else collapse_loop list count (i + 1) j }
      else Some (list, j))"
  by pat_completeness auto
termination by (relation "measure (\<lambda>(list, count, i, j). count - i)") auto

declare collapse_loop.simps [simp del]

definition refcount_collapse :: "ea_refcount \<Rightarrow> ea_refcount option" where
  "refcount_collapse rc =
     do { (list, j) \<leftarrow> collapse_loop (rc_list rc) (rc_count rc) 0 0;
          Some (rc\<lparr>rc_list := list, rc_count := j\<rparr>) }"

text \<open>\<open>memmove (&list[pos + 1], &list[pos], num)\<close>\<close>

definition move_up :: "'a list \<Rightarrow> nat \<Rightarrow> nat \<Rightarrow> 'a list option" where
  "move_up list pos num =
     (if pos + 1 + num \<le> length list
      then Some (take (pos + 1) list @ take num (drop pos list) @ drop (pos + 1 + num) list) else None)"

text \<open>
  The index of the new entry, None if there is no memory; \<open>junk\<close> is the content of the memory that a
  reallocation adds.
\<close>

definition insert_refcount_el ::
  "bool \<Rightarrow> (nat \<Rightarrow> ea_refcount_el) \<Rightarrow> ea_refcount \<Rightarrow> u64 \<Rightarrow> nat \<Rightarrow> (nat option \<times> ea_refcount) option" where
  "insert_refcount_el mem junk rc blk pos =
     (if rc_size rc \<le> rc_count rc \<and> \<not> mem then Some (None, rc)
      else
        let rc = (if rc_size rc \<le> rc_count rc
                  then rc\<lparr>rc_size := rc_size rc + 100, rc_list := rc_list rc @ map junk [0..<100]\<rparr> else rc)
        in if rc_count rc < pos then Some (None, rc)
           else do { list \<leftarrow> (if rc_count rc \<noteq> pos then move_up (rc_list rc) pos (rc_count rc - pos) else Some (rc_list rc));
                     list \<leftarrow> wr list pos (blk, 0);
                     Some (Some pos, rc\<lparr>rc_list := list, rc_count := rc_count rc + 1\<rparr>) })"

text \<open>The bisection: the index of the block, or the place where it belongs.\<close>

datatype search = Hit nat | Place nat

function bisect :: "ea_refcount_el list \<Rightarrow> u64 \<Rightarrow> int \<Rightarrow> int \<Rightarrow> search option" where
  "bisect list blk low high =
     (if low \<le> high then
        let mid = (low + high) div 2
        in do { el \<leftarrow> rd list (nat mid);
                if blk = fst el then Some (Hit (nat mid))
                else if blk < fst el then bisect list blk low (mid - 1)
                else bisect list blk (mid + 1) high }
      else Some (Place (nat low)))"
  by pat_completeness auto
termination by (relation "measure (\<lambda>(list, blk, low, high). nat (high + 1 - low))") auto

declare bisect.simps [simp del]

text \<open>The first test of \<open>get_refcount_el\<close>: a new entry belongs at the end.\<close>

definition at_end :: "ea_refcount \<Rightarrow> u64 \<Rightarrow> bool option" where
  "at_end rc blk =
     (if rc_count rc = 0 then Some True
      else map_option (\<lambda>el. fst el < blk) (rd (rc_list rc) (rc_count rc - 1)))"

definition append_el :: "bool \<Rightarrow> (nat \<Rightarrow> ea_refcount_el) \<Rightarrow> ea_refcount \<Rightarrow> u64 \<Rightarrow> (nat option \<times> ea_refcount) option" where
  "append_el mem junk rc blk =
     do { rc \<leftarrow> (if rc_size rc \<le> rc_count rc then refcount_collapse rc else Some rc);
          insert_refcount_el mem junk rc blk (rc_count rc) }"

text \<open>The look at the cursor and the bisection, for a count that is not zero.\<close>

definition search_el :: "ea_refcount \<Rightarrow> u64 \<Rightarrow> (search \<times> ea_refcount) option" where
  "search_el rc blk =
     (let rc = (if rc_count rc \<le> rc_cursor rc then rc\<lparr>rc_cursor := 0\<rparr> else rc)
      in do { el \<leftarrow> rd (rc_list rc) (rc_cursor rc);
              if blk = fst el then Some (Hit (rc_cursor rc), rc\<lparr>rc_cursor := rc_cursor rc + 1\<rparr>)
              else do { r \<leftarrow> bisect (rc_list rc) blk 0 (int (rc_count rc) - 1);
                        case r of
                          Hit mid \<Rightarrow> Some (Hit mid, rc\<lparr>rc_cursor := mid + 1\<rparr>)
                        | Place low \<Rightarrow> Some (Place low, rc) } })"

lemma search_el_size: "search_el rc blk = Some (r, rc') \<Longrightarrow> rc_size rc' = rc_size rc \<and> rc_count rc' = rc_count rc"
  by (auto simp: search_el_def Let_def split: if_splits search.splits bind_splits)

lemma collapse_size: "refcount_collapse rc = Some rc' \<Longrightarrow> rc_size rc' = rc_size rc"
  by (auto simp: refcount_collapse_def split: bind_splits)

function get_refcount_el ::
  "bool \<Rightarrow> (nat \<Rightarrow> ea_refcount_el) \<Rightarrow> ea_refcount \<Rightarrow> u64 \<Rightarrow> bool \<Rightarrow> (nat option \<times> ea_refcount) option" where
  "get_refcount_el mem junk rc blk create =
     (case (if create then at_end rc blk else Some False) of
        None \<Rightarrow> None
      | Some True \<Rightarrow> append_el mem junk rc blk
      | Some False \<Rightarrow>
          if rc_count rc = 0 then Some (None, rc)
          else case search_el rc blk of
            None \<Rightarrow> None
          | Some (Hit mid, rc) \<Rightarrow> Some (Some mid, rc)
          | Some (Place low, rc) \<Rightarrow>
              if \<not> create then Some (None, rc)
              else if rc_size rc \<le> rc_count rc then
                (case refcount_collapse rc of
                   None \<Rightarrow> None
                 | Some rc \<Rightarrow>
                     if rc_count rc < rc_size rc then get_refcount_el mem junk rc blk create
                     else insert_refcount_el mem junk rc blk low)
              else insert_refcount_el mem junk rc blk low)"
  by pat_completeness auto
termination
  by (relation "measure (\<lambda>(mem, junk, rc, blk, create). if rc_size rc \<le> rc_count rc then 1 else 0)")
    (auto dest!: search_el_size)

declare get_refcount_el.simps [simp del]

section \<open>The operations\<close>

definition ea_refcount_fetch :: "(nat \<Rightarrow> ea_refcount_el) \<Rightarrow> ea_refcount \<Rightarrow> u64 \<Rightarrow> (u32 \<times> ea_refcount) option" where
  "ea_refcount_fetch junk rc blk =
     do { (el, rc) \<leftarrow> get_refcount_el True junk rc blk False;
          case el of
            None \<Rightarrow> Some (0, rc)
          | Some p \<Rightarrow> do { e \<leftarrow> rd (rc_list rc) p; Some (snd e, rc) } }"

definition set_count :: "ea_refcount \<Rightarrow> nat \<Rightarrow> u32 \<Rightarrow> ea_refcount option" where
  "set_count rc p n =
     do { e \<leftarrow> rd (rc_list rc) p; list \<leftarrow> wr (rc_list rc) p (fst e, n); Some (rc\<lparr>rc_list := list\<rparr>) }"

text \<open>The code, the new count and the array.\<close>

definition ea_refcount_increment ::
  "bool \<Rightarrow> (nat \<Rightarrow> ea_refcount_el) \<Rightarrow> ea_refcount \<Rightarrow> u64 \<Rightarrow> ((errcode + u32) \<times> ea_refcount) option" where
  "ea_refcount_increment mem junk rc blk =
     do { (el, rc) \<leftarrow> get_refcount_el mem junk rc blk True;
          case el of
            None \<Rightarrow> Some (Inl EXT2_ET_NO_MEMORY, rc)
          | Some p \<Rightarrow> do { e \<leftarrow> rd (rc_list rc) p; rc \<leftarrow> set_count rc p (snd e + 1); Some (Inr (snd e + 1), rc) } }"

definition ea_refcount_decrement ::
  "(nat \<Rightarrow> ea_refcount_el) \<Rightarrow> ea_refcount \<Rightarrow> u64 \<Rightarrow> ((errcode + u32) \<times> ea_refcount) option" where
  "ea_refcount_decrement junk rc blk =
     do { (el, rc) \<leftarrow> get_refcount_el True junk rc blk False;
          case el of
            None \<Rightarrow> Some (Inl EXT2_ET_INVALID_ARGUMENT, rc)
          | Some p \<Rightarrow>
              do { e \<leftarrow> rd (rc_list rc) p;
                   if snd e = 0 then Some (Inl EXT2_ET_INVALID_ARGUMENT, rc)
                   else do { rc \<leftarrow> set_count rc p (snd e - 1); Some (Inr (snd e - 1), rc) } } }"

definition ea_refcount_store ::
  "bool \<Rightarrow> (nat \<Rightarrow> ea_refcount_el) \<Rightarrow> ea_refcount \<Rightarrow> u64 \<Rightarrow> u32 \<Rightarrow> (errcode \<times> ea_refcount) option" where
  "ea_refcount_store mem junk rc blk count =
     do { (el, rc) \<leftarrow> get_refcount_el mem junk rc blk (count \<noteq> 0);
          case el of
            None \<Rightarrow> Some (if count \<noteq> 0 then EXT2_ET_NO_MEMORY else Success, rc)
          | Some p \<Rightarrow> do { rc \<leftarrow> set_count rc p count; Some (Success, rc) } }"

definition ext2fs_get_refcount_size :: "ea_refcount option \<Rightarrow> nat" where
  "ext2fs_get_refcount_size rc = (case rc of None \<Rightarrow> 0 | Some rc \<Rightarrow> rc_size rc)"

definition ea_refcount_intr_begin :: "ea_refcount \<Rightarrow> ea_refcount" where
  "ea_refcount_intr_begin rc = rc\<lparr>rc_cursor := 0\<rparr>"

text \<open>The next block whose count is not zero, with its count; at the end block 0, and no count is stored.\<close>

function ea_refcount_intr_next :: "ea_refcount \<Rightarrow> ((u64 \<times> u32 option) \<times> ea_refcount) option" where
  "ea_refcount_intr_next rc =
     (if rc_cursor rc < rc_count rc then
        do { el \<leftarrow> rd (rc_list rc) (rc_cursor rc);
             if snd el \<noteq> 0 then Some ((fst el, Some (snd el)), rc\<lparr>rc_cursor := rc_cursor rc + 1\<rparr>)
             else ea_refcount_intr_next (rc\<lparr>rc_cursor := rc_cursor rc + 1\<rparr>) }
      else Some ((0, None), rc))"
  by pat_completeness auto
termination by (relation "measure (\<lambda>rc. rc_count rc - rc_cursor rc)") auto

declare ea_refcount_intr_next.simps [simp del]

section \<open>Invariant\<close>

definition entries :: "ea_refcount \<Rightarrow> ea_refcount_el list" where
  "entries rc = take (rc_count rc) (rc_list rc)"

definition rc_inv :: "ea_refcount \<Rightarrow> bool" where
  "rc_inv rc \<longleftrightarrow> rc_count rc \<le> rc_size rc \<and> length (rc_list rc) = rc_size rc \<and> sorted_wrt (<) (map fst (entries rc))"

definition counted :: "ea_refcount_el list \<Rightarrow> u64 \<Rightarrow> u32" where
  "counted es blk = (case map_of es blk of None \<Rightarrow> 0 | Some n \<Rightarrow> n)"

abbreviation counts :: "ea_refcount \<Rightarrow> u64 \<Rightarrow> u32" where
  "counts rc \<equiv> counted (entries rc)"

lemma rc_inv_nth: "rc_inv rc \<Longrightarrow> i < j \<Longrightarrow> j < rc_count rc \<Longrightarrow> fst (rc_list rc ! i) < fst (rc_list rc ! j)"
  using increasing_nth [of "map fst (entries rc)" i j] by (simp add: rc_inv_def entries_def)

lemma rc_inv_cursor [simp]: "rc_inv (rc\<lparr>rc_cursor := c\<rparr>) = rc_inv rc" "entries (rc\<lparr>rc_cursor := c\<rparr>) = entries rc"
  by (simp_all add: rc_inv_def entries_def)

lemma entries_nth: "rc_inv rc \<Longrightarrow> length (entries rc) = rc_count rc \<and> (\<forall>i < rc_count rc. entries rc ! i = rc_list rc ! i)"
  by (auto simp: rc_inv_def entries_def)

lemma counted_at:
  assumes "rc_inv rc" "p < rc_count rc"
  shows "counts rc (fst (rc_list rc ! p)) = snd (rc_list rc ! p)"
proof -
  have "distinct (map fst (entries rc))" using assms(1) by (simp add: rc_inv_def strict_sorted_iff)
  moreover have "(fst (rc_list rc ! p), snd (rc_list rc ! p)) \<in> set (entries rc)"
    using entries_nth [OF assms(1)] assms(2) nth_mem [of p "entries rc"] by simp
  ultimately have "map_of (entries rc) (fst (rc_list rc ! p)) = Some (snd (rc_list rc ! p))" by (rule map_of_is_SomeI)
  then show ?thesis by (simp add: counted_def)
qed

lemma counted_none: "(\<And>i. i < length es \<Longrightarrow> fst (es ! i) \<noteq> blk) \<Longrightarrow> counted es blk = 0"
proof -
  assume "\<And>i. i < length es \<Longrightarrow> fst (es ! i) \<noteq> blk"
  then have "\<forall>e\<in>set es. fst e \<noteq> blk" by (simp add: all_set_conv_all_nth)
  then have "blk \<notin> fst ` set es" by blast
  then show ?thesis by (simp add: counted_def map_of_eq_None_iff [THEN iffD2])
qed

section \<open>Collapsing\<close>

lemma counted_filter: "distinct (map fst es) \<Longrightarrow> counted (filter (\<lambda>e. snd e \<noteq> 0) es) = counted es"
proof (induction es)
  case (Cons e es)
  have "counted (e # es) = (counted es)(fst e := snd e)" for e es by (cases e) (auto simp: counted_def)
  moreover have "counted es (fst e) = 0" using Cons.prems by (auto simp: counted_def map_of_eq_None_iff [THEN iffD2])
  ultimately show ?case using Cons by (auto simp: fun_upd_idem)
qed simp

lemma sorted_filter_fst: "sorted_wrt (<) (map fst es) \<Longrightarrow> sorted_wrt (<) (map fst (filter P es))"
  by (induction es) auto

lemma collapse_loop_ok:
  assumes "j \<le> i" "i \<le> count" "count \<le> length list"
  shows "\<exists>list' j'. collapse_loop list count i j = Some (list', j') \<and> length list' = length list \<and> j' \<le> count \<and>
    take j' list' = take j list @ filter (\<lambda>e. snd e \<noteq> 0) (drop i (take count list))"
  using assms
proof (induction "count - i" arbitrary: i j list)
  case 0
  then show ?case by (simp add: collapse_loop.simps [of list])
next
  case (Suc d)
  then have i: "i < count" "d = count - (i + 1)" by simp_all
  have split: "drop i (take count list) = list ! i # drop (i + 1) (take count list)"
    using i(1) Suc.prems(3) by (simp add: Cons_nth_drop_Suc [symmetric])
  show ?case
  proof (cases "snd (list ! i) = 0")
    case True
    have "collapse_loop list count i j = collapse_loop list count (i + 1) j"
      using True i(1) Suc.prems(3) by (simp add: collapse_loop.simps [of list count i])
    then show ?thesis using Suc.hyps(1) [OF i(2), of j list] Suc.prems i(1) split True by simp
  next
    case False
    let ?list = "list[j := list ! i]"
    have "(if i \<noteq> j then wr list j (list ! i) else Some list) = Some ?list" using Suc.prems i(1) by auto
    then have "collapse_loop list count i j = collapse_loop ?list count (i + 1) (j + 1)"
      using False i(1) Suc.prems(3) by (simp add: collapse_loop.simps [of list count i])
    moreover have "take (j + 1) ?list = take j list @ [list ! i]" using Suc.prems i(1) by (simp add: upd_conv_take_nth_drop)
    moreover have "drop (i + 1) (take count ?list) = drop (i + 1) (take count list)"
      using Suc.prems(1) by (simp add: take_update_swap)
    ultimately show ?thesis using Suc.hyps(1) [OF i(2), of "j + 1" ?list] Suc.prems i(1) split False by simp
  qed
qed

lemma collapse_ok:
  assumes "rc_inv rc"
  obtains rc' where "refcount_collapse rc = Some rc'" "rc_inv rc'" "counts rc' = counts rc" "entries rc' = filter (\<lambda>e. snd e \<noteq> 0) (entries rc)"
proof -
  obtain list j where r: "collapse_loop (rc_list rc) (rc_count rc) 0 0 = Some (list, j)" "length list = length (rc_list rc)"
      "j \<le> rc_count rc" "take j list = filter (\<lambda>e. snd e \<noteq> 0) (entries rc)"
    using collapse_loop_ok [of 0 0 "rc_count rc" "rc_list rc"] assms by (auto simp: rc_inv_def entries_def)
  let ?rc = "rc\<lparr>rc_list := list, rc_count := j\<rparr>"
  have e: "entries ?rc = filter (\<lambda>e. snd e \<noteq> 0) (entries rc)" using r(4) by (simp add: entries_def)
  have "distinct (map fst (entries rc))" using assms by (simp add: rc_inv_def strict_sorted_iff)
  then have "counts ?rc = counts rc" using counted_filter e by simp
  moreover have "rc_inv ?rc" using assms r(2,3) sorted_filter_fst [of "entries rc"] e by (simp add: rc_inv_def)
  moreover have "refcount_collapse rc = Some ?rc" using r(1) by (simp add: refcount_collapse_def)
  ultimately show ?thesis using e by (intro that [of ?rc])
qed

section \<open>Insertion\<close>

text \<open>\<open>pos\<close> is the place of a block: smaller blocks stand before it and larger ones from there on.\<close>

definition place_of :: "ea_refcount \<Rightarrow> u64 \<Rightarrow> nat \<Rightarrow> bool" where
  "place_of rc blk pos \<longleftrightarrow> pos \<le> rc_count rc \<and> (\<forall>i < pos. fst (rc_list rc ! i) < blk) \<and>
     (\<forall>i. pos \<le> i \<and> i < rc_count rc \<longrightarrow> blk < fst (rc_list rc ! i))"

lemma place_absent: "rc_inv rc \<Longrightarrow> place_of rc blk pos \<Longrightarrow> counts rc blk = 0"
proof (rule counted_none)
  fix i
  assume a: "rc_inv rc" "place_of rc blk pos" "i < length (entries rc)"
  have i: "i < rc_count rc" "entries rc ! i = rc_list rc ! i" using entries_nth [OF a(1)] a(3) by auto
  show "fst (entries rc ! i) \<noteq> blk"
  proof (cases "i < pos")
    case True
    then have "fst (rc_list rc ! i) < blk" using a(2) by (simp add: place_of_def)
    then show ?thesis using i(2) by (simp add: order_less_imp_not_eq)
  next
    case False
    then have "blk < fst (rc_list rc ! i)" using a(2) i(1) by (simp add: place_of_def)
    then show ?thesis using i(2) by (simp add: order_less_imp_not_eq2)
  qed
qed

lemma counted_insert:
  assumes "counted es blk = 0"
  shows "counted (take p es @ (blk, 0) # drop p es) = counted es"
proof
  fix b
  have "map_of es = map_of (drop p es) ++ map_of (take p es)" using map_of_append [of "take p es" "drop p es"] by simp
  then show "counted (take p es @ (blk, 0) # drop p es) b = counted es b"
    using assms by (auto simp: counted_def map_add_def split: option.splits if_splits)
qed

lemma move_up_entries:
  assumes "pos \<le> n" "n < length xs"
  obtains ys where "(if n \<noteq> pos then move_up xs pos (n - pos) else Some xs) = Some ys" "length ys = length xs"
    "take (Suc n) (ys[pos := v]) = take pos (take n xs) @ v # drop pos (take n xs)"
proof (cases "n = pos")
  case True
  then show ?thesis using assms by (intro that [of xs]) (simp_all add: upd_conv_take_nth_drop)
next
  case False
  let ?ys = "take (pos + 1) xs @ take (n - pos) (drop pos xs) @ drop (n + 1) xs"
  have "move_up xs pos (n - pos) = Some ?ys" using assms by (simp add: move_up_def)
  moreover have "length ?ys = length xs" using assms by simp
  moreover have "?ys[pos := v] = take pos xs @ v # (take (n - pos) (drop pos xs) @ drop (n + 1) xs)"
    using assms by (simp add: upd_conv_take_nth_drop take_Suc_conv_app_nth)
  moreover from this have "take (Suc n) (?ys[pos := v]) = take pos (take n xs) @ v # drop pos (take n xs)"
    using assms by (auto simp: drop_take min_def Suc_diff_le)
  ultimately show ?thesis using False by (intro that [of ?ys]) simp_all
qed

lemma insert_ok:
  assumes "rc_inv rc" "place_of rc blk pos"
  obtains r rc' where "insert_refcount_el mem junk rc blk pos = Some (r, rc')" "rc_inv rc'" "counts rc' = counts rc"
    "r = None \<longrightarrow> \<not> mem" "\<forall>p. r = Some p \<longrightarrow> p < rc_count rc' \<and> fst (rc_list rc' ! p) = blk"
proof (cases "rc_size rc \<le> rc_count rc \<and> \<not> mem")
  case True
  then show ?thesis using assms(1) by (intro that [of None rc]) (simp_all add: insert_refcount_el_def)
next
  case False
  let ?rc = "if rc_size rc \<le> rc_count rc then rc\<lparr>rc_size := rc_size rc + 100, rc_list := rc_list rc @ map junk [0..<100]\<rparr> else rc"
  let ?n = "rc_count rc" and ?es = "entries rc"
  have grown: "rc_count ?rc = ?n" "?n < rc_size ?rc" "length (rc_list ?rc) = rc_size ?rc" "take ?n (rc_list ?rc) = ?es"
    using assms(1) by (auto simp: rc_inv_def entries_def)
  have pos: "pos \<le> ?n" using assms(2) by (simp add: place_of_def)
  obtain ys where ys: "(if ?n \<noteq> pos then move_up (rc_list ?rc) pos (?n - pos) else Some (rc_list ?rc)) = Some ys" "length ys = rc_size ?rc"
      "take (Suc ?n) (ys[pos := (blk, 0)]) = take pos ?es @ (blk, 0) # drop pos ?es"
    using move_up_entries [OF pos, of "rc_list ?rc" "(blk, 0)"] grown by auto
  let ?rc' = "?rc\<lparr>rc_list := ys[pos := (blk, 0)], rc_count := ?n + 1\<rparr>"
  have e: "entries ?rc' = take pos ?es @ (blk, 0) # drop pos ?es" using ys(3) by (simp add: entries_def)
  have len: "pos \<le> length ?es" "length ?es = ?n" using pos entries_nth [OF assms(1)] by auto
  have "sorted_wrt (<) (take pos (map fst ?es) @ blk # drop pos (map fst ?es))"
  proof (rule increasing_insert)
    show "sorted_wrt (<) (map fst ?es)" using assms(1) by (simp add: rc_inv_def)
    show "pos \<le> length (map fst ?es)" using len by simp
    show "map fst ?es ! i < blk" if "i < pos" for i
      using that assms(2) len entries_nth [OF assms(1)] by (simp add: place_of_def)
    show "blk < map fst ?es ! i" if "pos \<le> i" "i < length (map fst ?es)" for i
      using that assms(2) len entries_nth [OF assms(1)] by (simp add: place_of_def)
  qed
  then have "rc_inv ?rc'" using e grown(2) ys(2) by (simp add: rc_inv_def take_map drop_map)
  moreover have "counts ?rc' = counts rc" unfolding e by (rule counted_insert [OF place_absent [OF assms]])
  moreover have "insert_refcount_el mem junk rc blk pos = Some (Some pos, ?rc')"
    using False pos ys(1,2) grown(1,2) by (auto simp: insert_refcount_el_def Let_def)
  moreover have "pos < length ys" using pos ys(2) grown(2) by simp
  ultimately show ?thesis using pos by (intro that [of "Some pos" ?rc']) simp_all
qed

section \<open>Search\<close>

lemma bisect_ok:
  assumes "rc_inv rc" "0 \<le> low" "low \<le> high + 1" "high < int (rc_count rc)"
    "\<forall>i. int i < low \<longrightarrow> fst (rc_list rc ! i) < blk" "\<forall>i. high < int i \<and> i < rc_count rc \<longrightarrow> blk < fst (rc_list rc ! i)"
  shows "(\<exists>p < rc_count rc. bisect (rc_list rc) blk low high = Some (Hit p) \<and> fst (rc_list rc ! p) = blk) \<or>
    (\<exists>p. bisect (rc_list rc) blk low high = Some (Place p) \<and> place_of rc blk p)"
  using assms(2-)
proof (induction "nat (high + 1 - low)" arbitrary: low high rule: less_induct)
  case less
  show ?case
  proof (cases "low \<le> high")
    case False
    then have "low = high + 1" using less.prems(2) by simp
    then have "place_of rc blk (nat low)" using less.prems by (auto simp: place_of_def nat_less_iff nat_le_iff)
    then show ?thesis using False by (simp add: bisect.simps [of _ _ low])
  next
    case True
    let ?mid = "(low + high) div 2" and ?m = "nat ((low + high) div 2)"
    have mid: "low \<le> ?mid" "?mid \<le> high" using True by auto
    then have m: "int ?m = ?mid" "?m < rc_count rc" using less.prems(1,3) by auto
    then have in_list: "?m < length (rc_list rc)" using assms(1) by (simp add: rc_inv_def)
    have step: "bisect (rc_list rc) blk low high =
        (if blk = fst (rc_list rc ! ?m) then Some (Hit ?m)
         else if blk < fst (rc_list rc ! ?m) then bisect (rc_list rc) blk low (?mid - 1)
         else bisect (rc_list rc) blk (?mid + 1) high)"
      using True in_list by (subst bisect.simps) (simp add: Let_def)
    consider "blk = fst (rc_list rc ! ?m)" | (left) "blk < fst (rc_list rc ! ?m)" | (right) "fst (rc_list rc ! ?m) < blk"
      by (rule linorder_cases)
    then show ?thesis
    proof cases
      case 1
      then show ?thesis using step m(2) by auto
    next
      case left
      have "\<forall>i. ?mid - 1 < int i \<and> i < rc_count rc \<longrightarrow> blk < fst (rc_list rc ! i)"
      proof (intro allI impI, elim conjE)
        fix i
        assume "?mid - 1 < int i" "i < rc_count rc"
        then show "blk < fst (rc_list rc ! i)"
          using left rc_inv_nth [OF assms(1), of ?m i] m(1) by (cases "?m = i") (auto intro: less_trans)
      qed
      moreover have "bisect (rc_list rc) blk low high = bisect (rc_list rc) blk low (?mid - 1)"
        using step left by (simp add: order_less_imp_not_eq)
      ultimately show ?thesis using less.hyps [of "?mid - 1" low] less.prems mid by auto
    next
      case right
      have "\<forall>i. int i < ?mid + 1 \<longrightarrow> fst (rc_list rc ! i) < blk"
      proof (intro allI impI)
        fix i
        assume "int i < ?mid + 1"
        then show "fst (rc_list rc ! i) < blk"
          using right rc_inv_nth [OF assms(1), of i ?m] m by (cases "?m = i") (auto intro: less_trans)
      qed
      moreover have "bisect (rc_list rc) blk low high = bisect (rc_list rc) blk (?mid + 1) high"
        using step order_less_imp_not_less [OF right] order_less_imp_not_eq2 [OF right] by simp
      ultimately show ?thesis using less.hyps [of high "?mid + 1"] less.prems mid by auto
    qed
  qed
qed

text \<open>What a call of \<open>get_refcount_el\<close> yields: the counts are as before, and the entry has the block.\<close>

definition got :: "bool \<Rightarrow> bool \<Rightarrow> ea_refcount \<Rightarrow> u64 \<Rightarrow> (nat option \<times> ea_refcount) option \<Rightarrow> bool" where
  "got mem create rc blk x \<longleftrightarrow> (\<exists>r rc'. x = Some (r, rc') \<and> rc_inv rc' \<and> counts rc' = counts rc \<and>
     (r = None \<longrightarrow> (if create then \<not> mem else counts rc blk = 0)) \<and>
     (\<forall>p. r = Some p \<longrightarrow> p < rc_count rc' \<and> fst (rc_list rc' ! p) = blk))"

lemma place_of_cursor [simp]: "place_of (rc\<lparr>rc_cursor := c\<rparr>) blk p = place_of rc blk p"
  by (simp add: place_of_def)

lemma insert_got:
  assumes "rc_inv rc" "place_of rc blk pos"
  shows "got mem True rc blk (insert_refcount_el mem junk rc blk pos)"
  by (rule insert_ok [OF assms, of mem junk]) (simp add: got_def)

lemma search_ok:
  assumes "rc_inv rc" "0 < rc_count rc"
  obtains r c where "search_el rc blk = Some (r, rc\<lparr>rc_cursor := c\<rparr>)"
    "case r of Hit p \<Rightarrow> p < rc_count rc \<and> fst (rc_list rc ! p) = blk | Place p \<Rightarrow> place_of rc blk p"
proof -
  let ?c = "if rc_count rc \<le> rc_cursor rc then 0 else rc_cursor rc"
  have c: "?c < rc_count rc" "?c < length (rc_list rc)" using assms by (auto simp: rc_inv_def)
  have run: "search_el rc blk =
      (if blk = fst (rc_list rc ! ?c) then Some (Hit ?c, rc\<lparr>rc_cursor := ?c + 1\<rparr>)
       else do { r \<leftarrow> bisect (rc_list rc) blk 0 (int (rc_count rc) - 1);
                 case r of Hit mid \<Rightarrow> Some (Hit mid, rc\<lparr>rc_cursor := mid + 1\<rparr>)
                 | Place low \<Rightarrow> Some (Place low, rc\<lparr>rc_cursor := ?c\<rparr>) })"
    using c by (auto simp: search_el_def Let_def)
  show ?thesis
  proof (cases "blk = fst (rc_list rc ! ?c)")
    case True
    then show ?thesis using run c(1) by (intro that [of "Hit ?c" "?c + 1"]) simp_all
  next
    case False
    have "(\<exists>p < rc_count rc. bisect (rc_list rc) blk 0 (int (rc_count rc) - 1) = Some (Hit p) \<and> fst (rc_list rc ! p) = blk) \<or>
        (\<exists>p. bisect (rc_list rc) blk 0 (int (rc_count rc) - 1) = Some (Place p) \<and> place_of rc blk p)"
      by (rule bisect_ok [OF assms(1)]) auto
    then show ?thesis
    proof (elim disjE exE conjE)
      fix p
      assume "p < rc_count rc" "bisect (rc_list rc) blk 0 (int (rc_count rc) - 1) = Some (Hit p)" "fst (rc_list rc ! p) = blk"
      then show ?thesis using run False by (intro that [of "Hit p" "p + 1"]) simp_all
    next
      fix p
      assume "bisect (rc_list rc) blk 0 (int (rc_count rc) - 1) = Some (Place p)" "place_of rc blk p"
      then show ?thesis using run False by (intro that [of "Place p" ?c]) simp_all
    qed
  qed
qed

lemma append_got:
  assumes "rc_inv rc" "at_end rc blk = Some True"
  shows "got mem True rc blk (append_el mem junk rc blk)"
proof -
  have below: "fst e < blk" if "e \<in> set (entries rc)" for e
  proof -
    obtain i where i: "i < rc_count rc" "e = rc_list rc ! i" using \<open>e \<in> _\<close> entries_nth [OF assms(1)] by (auto simp: in_set_conv_nth)
    have last: "fst (rc_list rc ! (rc_count rc - 1)) < blk"
      using assms i(1) by (auto simp: at_end_def rc_inv_def rd_def split: if_splits)
    show ?thesis
    proof (cases "i = rc_count rc - 1")
      case False
      then have "fst e < fst (rc_list rc ! (rc_count rc - 1))" using rc_inv_nth [OF assms(1), of i "rc_count rc - 1"] i by simp
      then show ?thesis using last by (rule less_trans)
    qed (use last i in simp)
  qed
  obtain rc1 where rc1: "(if rc_size rc \<le> rc_count rc then refcount_collapse rc else Some rc) = Some rc1" "rc_inv rc1"
      "counts rc1 = counts rc" "set (entries rc1) \<subseteq> set (entries rc)"
  proof (cases "rc_size rc \<le> rc_count rc")
    case True
    obtain rc1 where "refcount_collapse rc = Some rc1" "rc_inv rc1" "counts rc1 = counts rc"
        "entries rc1 = filter (\<lambda>e. snd e \<noteq> 0) (entries rc)"
      by (rule collapse_ok [OF assms(1)])
    then show ?thesis using True by (intro that [of rc1]) auto
  qed (use assms(1) that [of rc] in simp)
  have "fst (rc_list rc1 ! i) < blk" if "i < rc_count rc1" for i
    using below [of "entries rc1 ! i"] rc1(4) entries_nth [OF rc1(2)] nth_mem [of i "entries rc1"] that by auto
  then have "place_of rc1 blk (rc_count rc1)" by (auto simp: place_of_def)
  from insert_got [OF rc1(2) this, of mem junk] rc1(1,3) show ?thesis by (simp add: append_el_def got_def)
qed

text \<open>A collapse that makes no room keeps all entries.\<close>

lemma collapse_full:
  assumes "rc_inv rc" "refcount_collapse rc = Some rc1" "rc_inv rc1" "entries rc1 = filter (\<lambda>e. snd e \<noteq> 0) (entries rc)"
    "rc_size rc1 \<le> rc_count rc1" "place_of rc blk p"
  shows "place_of rc1 blk p"
proof -
  let ?P = "\<lambda>e. snd e \<noteq> (0 :: u32)"
  have l: "length (entries rc) = rc_count rc" "length (entries rc1) = rc_count rc1"
    using entries_nth [OF assms(1)] entries_nth [OF assms(3)] by blast+
  have "rc_count rc1 \<le> rc_count rc" using length_filter_le [of ?P "entries rc"] l assms(4) by simp
  moreover have "rc_count rc \<le> rc_size rc" using assms(1) by (simp add: rc_inv_def)
  ultimately have n: "rc_count rc1 = rc_count rc" using collapse_size [OF assms(2)] assms(5) by linarith
  have "entries rc1 = entries rc"
  proof -
    have "?P e" if "e \<in> set (entries rc)" for e
      using length_filter_less [OF that, of ?P] l n assms(4) by auto
    then show ?thesis using assms(4) by simp
  qed
  then have "rc_list rc1 ! i = rc_list rc ! i" if "i < rc_count rc" for i
    using entries_nth [OF assms(1)] entries_nth [OF assms(3)] n that by metis
  then show ?thesis using assms(6) n by (auto simp: place_of_def)
qed

lemma at_end_some: "rc_inv rc \<Longrightarrow> \<exists>b. at_end rc blk = Some b"
  by (auto simp: at_end_def rc_inv_def)

lemma got_trans: "got mem create rc1 blk x \<Longrightarrow> counts rc1 = counts rc \<Longrightarrow> got mem create rc blk x"
  by (cases create) (simp_all add: got_def)

lemma get_ok: "rc_inv rc \<Longrightarrow> got mem create rc blk (get_refcount_el mem junk rc blk create)"
proof (induction "if rc_size rc \<le> rc_count rc then 1 else (0 :: nat)" arbitrary: rc rule: less_induct)
  case less
  obtain b where b: "(if create then at_end rc blk else Some False) = Some b" using at_end_some [OF less.prems, of blk] by (cases create) auto
  show ?case
  proof (cases b)
    case True
    then show ?thesis using append_got [OF less.prems, of blk] b by (auto simp: get_refcount_el.simps [of mem] split: if_splits)
  next
    case b_False: False
    show ?thesis
    proof (cases "rc_count rc = 0")
      case True
      have "\<not> create" using b b_False True by (auto simp: at_end_def split: if_splits)
      moreover have "counts rc blk = 0" using True by (simp add: counted_def entries_def)
      ultimately show ?thesis using b b_False True less.prems by (simp add: get_refcount_el.simps [of mem] got_def)
    next
      case False
      then obtain r c where s: "search_el rc blk = Some (r, rc\<lparr>rc_cursor := c\<rparr>)"
          "case r of Hit p \<Rightarrow> p < rc_count rc \<and> fst (rc_list rc ! p) = blk | Place p \<Rightarrow> place_of rc blk p"
        using search_ok [OF less.prems] by blast
      note run = get_refcount_el.simps [of mem junk rc blk create, unfolded b s(1)]
      show ?thesis
      proof (cases r)
        case (Hit p)
        then show ?thesis using run s b_False False less.prems by (simp add: got_def)
      next
        case (Place p)
        let ?rc = "rc\<lparr>rc_cursor := c\<rparr>"
        have inv: "rc_inv ?rc" "place_of ?rc blk p" using less.prems s(2) Place by simp_all
        obtain rc1 where rc1: "refcount_collapse ?rc = Some rc1" "rc_inv rc1" "counts rc1 = counts rc"
            "entries rc1 = filter (\<lambda>e. snd e \<noteq> 0) (entries ?rc)"
          by (rule collapse_ok [OF inv(1)]) simp
        have here: "got mem True rc blk (insert_refcount_el mem junk ?rc blk p)" using insert_got [OF inv] got_trans [of mem True ?rc] by simp
        have retry: "got mem create rc1 blk (get_refcount_el mem junk rc1 blk create)" if "rc_size rc \<le> rc_count rc" "rc_count rc1 < rc_size rc1"
          using less.hyps [OF _ rc1(2)] that by simp
        have full: "got mem True rc1 blk (insert_refcount_el mem junk rc1 blk p)" if "rc_size rc1 \<le> rc_count rc1"
          using insert_got [OF rc1(2) collapse_full [OF inv(1) rc1(1,2,4) that inv(2)]] .
        show ?thesis
          using run b_False False Place rc1(1) here got_trans [OF retry rc1(3)] got_trans [OF full rc1(3)] place_absent [OF inv] inv(1)
          by (auto simp: got_def [of mem False] not_le)
      qed
    qed
  qed
qed

section \<open>Sequences of calls\<close>

lemma counted_Cons: "counted (e # es) = (counted es)(fst e := snd e)"
  by (cases e) (auto simp: counted_def)

lemma counted_update:
  "distinct (map fst es) \<Longrightarrow> p < length es \<Longrightarrow> counted (es[p := (fst (es ! p), n)]) = (counted es)(fst (es ! p) := n)"
proof (induction es arbitrary: p)
  case (Cons e es)
  show ?case
  proof (cases p)
    case (Suc q)
    then have "fst (es ! q) \<in> fst ` set es" using Cons.prems by (intro imageI nth_mem) simp
    moreover have "fst e \<notin> fst ` set es" using Cons.prems by simp
    ultimately have "fst (es ! q) \<noteq> fst e" by metis
    then show ?thesis using Cons Suc by (auto simp: counted_Cons fun_eq_iff)
  qed (auto simp: counted_Cons fun_eq_iff)
qed simp

lemma set_count_ok:
  assumes "rc_inv rc" "p < rc_count rc" "fst (rc_list rc ! p) = blk"
  obtains rc' where "set_count rc p n = Some rc'" "rc_inv rc'" "counts rc' = (counts rc)(blk := n)"
proof -
  let ?rc = "rc\<lparr>rc_list := (rc_list rc)[p := (blk, n)]\<rparr>"
  have len: "p < length (rc_list rc)" "length (entries rc) = rc_count rc" "entries rc ! p = rc_list rc ! p"
    using assms(1,2) entries_nth [OF assms(1)] by (auto simp: rc_inv_def)
  have e: "entries ?rc = (entries rc)[p := (blk, n)]" by (simp add: entries_def take_update_swap)
  have "map fst (entries ?rc) = map fst (entries rc)"
    unfolding e map_update using len(2,3) assms(2,3) by (simp add: list_update_same_conv)
  then have "rc_inv ?rc" using assms(1) by (simp add: rc_inv_def)
  moreover have "distinct (map fst (entries rc))" using assms(1) by (simp add: rc_inv_def strict_sorted_iff)
  then have "counts ?rc = (counts rc)(blk := n)" using counted_update [of "entries rc" p n] len(2,3) assms(2,3) e by simp
  moreover have "set_count rc p n = Some ?rc" using len(1) assms(3) by (simp add: set_count_def)
  ultimately show ?thesis by (intro that [of ?rc])
qed

text \<open>A caller's loop over the blocks with counts, until the call returns 0.\<close>

lemma intr_next_ok:
  assumes "rc_inv rc"
  shows "case filter (\<lambda>e. snd e \<noteq> 0) (drop (rc_cursor rc) (entries rc)) of
      [] \<Rightarrow> \<exists>c. ea_refcount_intr_next rc = Some ((0, None), rc\<lparr>rc_cursor := c\<rparr>)
    | e # es \<Rightarrow> \<exists>c. ea_refcount_intr_next rc = Some ((fst e, Some (snd e)), rc\<lparr>rc_cursor := c\<rparr>) \<and> rc_cursor rc < c \<and>
        filter (\<lambda>e. snd e \<noteq> 0) (drop c (entries rc)) = es"
  using assms
proof (induction "rc_count rc - rc_cursor rc" arbitrary: rc)
  case 0
  then show ?case by (simp add: ea_refcount_intr_next.simps [of rc] entries_def) (rule exI [of _ "rc_cursor rc"], simp)
next
  case (Suc d)
  let ?c = "rc_cursor rc"
  let ?rc = "rc\<lparr>rc_cursor := ?c + 1\<rparr>"
  have c: "?c < rc_count rc" "d = rc_count ?rc - rc_cursor ?rc" using Suc.hyps(2) by simp_all
  have l: "?c < length (rc_list rc)" "length (entries rc) = rc_count rc" "entries rc ! ?c = rc_list rc ! ?c"
    using c(1) Suc.prems entries_nth [OF Suc.prems] by (auto simp: rc_inv_def)
  have split: "drop ?c (entries rc) = rc_list rc ! ?c # drop (?c + 1) (entries rc)"
    using c(1) l by (simp add: Cons_nth_drop_Suc [symmetric])
  show ?case
  proof (cases "snd (rc_list rc ! ?c) = 0")
    case True
    then have "ea_refcount_intr_next rc = ea_refcount_intr_next ?rc" using c(1) l(1) by (simp add: ea_refcount_intr_next.simps [of rc])
    moreover note Suc.hyps(1) [OF c(2)]
    ultimately show ?thesis
      using Suc.prems True split by (cases "filter (\<lambda>e. snd e \<noteq> 0) (drop (?c + 1) (entries rc))") (auto simp: Suc_le_eq)
  next
    case False
    then show ?thesis using c(1) l(1) split by (auto simp: ea_refcount_intr_next.simps [of rc])
  qed
qed

lemma intr_next_cursor:
  "ea_refcount_intr_next rc = Some ((blk, Some n), rc') \<Longrightarrow> rc_count rc' = rc_count rc \<and> rc_cursor rc < rc_cursor rc' \<and> rc_cursor rc < rc_count rc"
proof (induction rc rule: ea_refcount_intr_next.induct)
  case (1 rc)
  from "1.prems" show ?case
    by (subst (asm) ea_refcount_intr_next.simps) (fastforce split: if_splits bind_splits dest: "1.IH")
qed

function list_counts :: "ea_refcount \<Rightarrow> ((u64 \<times> u32) list \<times> ea_refcount) option" where
  "list_counts rc =
     (case ea_refcount_intr_next rc of
        None \<Rightarrow> None
      | Some ((blk, None), rc') \<Rightarrow> Some ([], rc')
      | Some ((blk, Some n), rc') \<Rightarrow> if blk = 0 then Some ([], rc') else map_option (apfst (Cons (blk, n))) (list_counts rc'))"
  by pat_completeness auto
termination
  by (relation "measure (\<lambda>rc. rc_count rc - rc_cursor rc)") (auto dest: intr_next_cursor)

declare list_counts.simps [simp del]

lemma list_counts_ok:
  assumes "rc_inv rc"
  shows "\<exists>c. list_counts rc =
    Some (takeWhile (\<lambda>e. fst e \<noteq> 0) (filter (\<lambda>e. snd e \<noteq> 0) (drop (rc_cursor rc) (entries rc))), rc\<lparr>rc_cursor := c\<rparr>)"
  using assms
proof (induction "filter (\<lambda>e. snd e \<noteq> 0) (drop (rc_cursor rc) (entries rc))" arbitrary: rc)
  case Nil
  then show ?case using intr_next_ok [OF Nil.prems] by (auto simp: list_counts.simps [of rc])
next
  case (Cons e es)
  then obtain c where c: "ea_refcount_intr_next rc = Some ((fst e, Some (snd e)), rc\<lparr>rc_cursor := c\<rparr>)"
      "filter (\<lambda>e. snd e \<noteq> 0) (drop c (entries rc)) = es"
    using intr_next_ok [OF Cons.prems] by (auto simp flip: Cons.hyps(2))
  show ?case
  proof (cases "fst e = 0")
    case True
    then show ?thesis using c(1) by (auto simp: list_counts.simps [of rc] simp flip: Cons.hyps(2))
  next
    case False
    from Cons.hyps(1) [of "rc\<lparr>rc_cursor := c\<rparr>"] c(2) Cons.prems obtain c' where
        "list_counts (rc\<lparr>rc_cursor := c\<rparr>) = Some (takeWhile (\<lambda>e. fst e \<noteq> 0) es, rc\<lparr>rc_cursor := c'\<rparr>)"
      by auto
    then show ?thesis using c(1) False by (auto simp: list_counts.simps [of rc] simp flip: Cons.hyps(2))
  qed
qed

text \<open>The blocks with counts, in increasing order; block 0 would end the loop at once.\<close>

definition listing :: "(u64 \<Rightarrow> u32) \<Rightarrow> (u64 \<times> u32) list" where
  "listing f = (if f 0 \<noteq> 0 then [] else map (\<lambda>b. (b, f b)) (sorted_list_of_set {b. f b \<noteq> 0}))"

lemma listing_entries:
  assumes "rc_inv rc"
  shows "takeWhile (\<lambda>e. fst e \<noteq> 0) (filter (\<lambda>e. snd e \<noteq> 0) (entries rc)) = listing (counts rc)"
proof -
  let ?L = "filter (\<lambda>e. snd e \<noteq> 0) (entries rc)" and ?f = "counts rc"
  have dist: "distinct (map fst (entries rc))" using assms by (simp add: rc_inv_def strict_sorted_iff)
  have val: "?f (fst e) = snd e" if "e \<in> set (entries rc)" for e
    using map_of_is_SomeI [OF dist, of "fst e" "snd e"] that by (simp add: counted_def)
  have keys_set: "set (map fst ?L) = {b. ?f b \<noteq> 0}"
  proof (intro set_eqI iffI)
    fix b
    assume "b \<in> {b. ?f b \<noteq> 0}"
    then obtain n where "map_of (entries rc) b = Some n" "n \<noteq> 0" by (auto simp: counted_def split: option.splits)
    then have "(b, n) \<in> set ?L" using map_of_SomeD by fastforce
    then show "b \<in> set (map fst ?L)" by force
  qed (use val in auto)
  have sorted: "sorted_wrt (<) (map fst ?L)" using sorted_filter_fst [of "entries rc"] assms by (simp add: rc_inv_def)
  then have keys: "map fst ?L = sorted_list_of_set {b. ?f b \<noteq> 0}"
    using sorted_list_of_set.idem_if_sorted_distinct [of "map fst ?L"] unfolding keys_set by (simp add: strict_sorted_iff)
  have "map (\<lambda>b. (b, ?f b)) (map fst ?L) = ?L" unfolding map_map by (rule map_idI) (use val in auto)
  then have L: "?L = map (\<lambda>b. (b, ?f b)) (sorted_list_of_set {b. ?f b \<noteq> 0})" using keys by metis
  show ?thesis
  proof (cases "?f 0 = 0")
    case True
    then have "\<forall>e\<in>set ?L. fst e \<noteq> 0" using val by auto
    then show ?thesis using True L by (simp add: listing_def takeWhile_eq_all_conv [THEN iffD2])
  next
    case False
    then have "0 \<in> set (map fst ?L)" unfolding keys_set by simp
    then have "\<exists>e es. ?L = e # es \<and> fst e = 0" using sorted by (cases ?L) auto
    then show ?thesis using False by (auto simp: listing_def)
  qed
qed

text \<open>Calls; the flags say whether memory can be allocated.\<close>

datatype rc_call = Fetch u64 | Increment bool u64 | Decrement u64 | Store bool u64 u32 | List_counts

datatype rc_answer = Count u32 | Code errcode | Listed "(u64 \<times> u32) list"

definition rc_step :: "(nat \<Rightarrow> ea_refcount_el) \<Rightarrow> ea_refcount \<Rightarrow> rc_call \<Rightarrow> (rc_answer \<times> ea_refcount) option" where
  "rc_step junk rc call =
     (case call of
        Fetch blk \<Rightarrow> map_option (apfst Count) (ea_refcount_fetch junk rc blk)
      | Increment mem blk \<Rightarrow> map_option (apfst (case_sum Code Count)) (ea_refcount_increment mem junk rc blk)
      | Decrement blk \<Rightarrow> map_option (apfst (case_sum Code Count)) (ea_refcount_decrement junk rc blk)
      | Store mem blk n \<Rightarrow> map_option (apfst Code) (ea_refcount_store mem junk rc blk n)
      | List_counts \<Rightarrow> map_option (apfst Listed) (list_counts (ea_refcount_intr_begin rc)))"

inductive rc_spec :: "(u64 \<Rightarrow> u32) \<Rightarrow> rc_call \<Rightarrow> rc_answer \<Rightarrow> (u64 \<Rightarrow> u32) \<Rightarrow> bool" where
  spec_fetch: "rc_spec f (Fetch blk) (Count (f blk)) f"
| spec_increment: "rc_spec f (Increment mem blk) (Count (f blk + 1)) (f(blk := f blk + 1))"
| spec_increment_failed: "rc_spec f (Increment False blk) (Code EXT2_ET_NO_MEMORY) f"
| spec_decrement: "f blk \<noteq> 0 \<Longrightarrow> rc_spec f (Decrement blk) (Count (f blk - 1)) (f(blk := f blk - 1))"
| spec_decrement_zero: "f blk = 0 \<Longrightarrow> rc_spec f (Decrement blk) (Code EXT2_ET_INVALID_ARGUMENT) f"
| spec_store: "rc_spec f (Store mem blk n) (Code Success) (f(blk := n))"
| spec_store_failed: "n \<noteq> 0 \<Longrightarrow> rc_spec f (Store False blk n) (Code EXT2_ET_NO_MEMORY) f"
| spec_list: "rc_spec f List_counts (Listed (listing f)) f"

text \<open>The two results of \<open>get_refcount_el\<close>.\<close>

lemma get_cases:
  assumes "rc_inv rc"
  obtains (none) rc' where "get_refcount_el mem junk rc blk create = Some (None, rc')" "rc_inv rc'" "counts rc' = counts rc"
      "if create then \<not> mem else counts rc blk = 0"
  | (el) p rc' where "get_refcount_el mem junk rc blk create = Some (Some p, rc')" "rc_inv rc'" "counts rc' = counts rc"
      "rd (rc_list rc') p = Some (blk, counts rc blk)" "\<And>n. \<exists>rc''. set_count rc' p n = Some rc'' \<and> rc_inv rc'' \<and> counts rc'' = (counts rc)(blk := n)"
proof -
  obtain r rc' where g: "get_refcount_el mem junk rc blk create = Some (r, rc')" "rc_inv rc'" "counts rc' = counts rc"
      "r = None \<longrightarrow> (if create then \<not> mem else counts rc blk = 0)"
      "\<forall>p. r = Some p \<longrightarrow> p < rc_count rc' \<and> fst (rc_list rc' ! p) = blk"
    using get_ok [OF assms] unfolding got_def by blast
  show ?thesis
  proof (cases r)
    case None
    then show ?thesis using g none by blast
  next
    case (Some p)
    then have p: "p < rc_count rc'" "fst (rc_list rc' ! p) = blk" using g(5) by auto
    have "rd (rc_list rc') p = Some (blk, counts rc blk)"
      using counted_at [OF g(2) p(1)] p g(2,3) by (simp add: rc_inv_def prod_eq_iff)
    moreover have "\<exists>rc''. set_count rc' p n = Some rc'' \<and> rc_inv rc'' \<and> counts rc'' = (counts rc)(blk := n)" for n
      by (rule set_count_ok [OF g(2) p, of n]) (use g(3) in auto)
    ultimately show ?thesis using g Some el by blast
  qed
qed

lemma fetch_step:
  assumes "rc_inv rc"
  shows "\<exists>a rc'. rc_step junk rc (Fetch blk) = Some (a, rc') \<and> rc_inv rc' \<and> rc_spec (counts rc) (Fetch blk) a (counts rc')"
  using assms
proof (cases rule: get_cases [where mem = True and junk = junk and blk = blk and create = False])
  case (none rc')
  then show ?thesis using spec_fetch [of "counts rc" blk] by (simp add: rc_step_def ea_refcount_fetch_def)
next
  case (el p rc')
  then show ?thesis using spec_fetch [of "counts rc" blk] by (simp add: rc_step_def ea_refcount_fetch_def)
qed

lemma increment_step:
  assumes "rc_inv rc"
  shows "\<exists>a rc'. rc_step junk rc (Increment mem blk) = Some (a, rc') \<and> rc_inv rc' \<and> rc_spec (counts rc) (Increment mem blk) a (counts rc')"
  using assms
proof (cases rule: get_cases [where mem = mem and junk = junk and blk = blk and create = True])
  case (none rc')
  then show ?thesis using spec_increment_failed [of "counts rc" blk] by (simp add: rc_step_def ea_refcount_increment_def)
next
  case (el p rc')
  then obtain rc'' where "set_count rc' p (counts rc blk + 1) = Some rc''" "rc_inv rc''" "counts rc'' = (counts rc)(blk := counts rc blk + 1)"
    by blast
  then show ?thesis using el(1-4) spec_increment [of "counts rc" mem blk] by (simp add: rc_step_def ea_refcount_increment_def)
qed

lemma decrement_step:
  assumes "rc_inv rc"
  shows "\<exists>a rc'. rc_step junk rc (Decrement blk) = Some (a, rc') \<and> rc_inv rc' \<and> rc_spec (counts rc) (Decrement blk) a (counts rc')"
  using assms
proof (cases rule: get_cases [where mem = True and junk = junk and blk = blk and create = False])
  case (none rc')
  then show ?thesis using spec_decrement_zero [of "counts rc" blk] by (simp add: rc_step_def ea_refcount_decrement_def)
next
  case (el p rc')
  then obtain rc'' where "set_count rc' p (counts rc blk - 1) = Some rc''" "rc_inv rc''" "counts rc'' = (counts rc)(blk := counts rc blk - 1)"
    by blast
  then show ?thesis
    using el(1-4) spec_decrement [of "counts rc" blk] spec_decrement_zero [of "counts rc" blk]
    by (cases "counts rc blk = 0") (simp_all add: rc_step_def ea_refcount_decrement_def)
qed

lemma store_step:
  assumes "rc_inv rc"
  shows "\<exists>a rc'. rc_step junk rc (Store mem blk n) = Some (a, rc') \<and> rc_inv rc' \<and> rc_spec (counts rc) (Store mem blk n) a (counts rc')"
  using assms
proof (cases rule: get_cases [where mem = mem and junk = junk and blk = blk and create = "n \<noteq> 0"])
  case (none rc')
  have "n = 0 \<Longrightarrow> (counts rc)(blk := n) = counts rc" using none(4) by (simp add: fun_upd_idem)
  then show ?thesis
    using none spec_store [of "counts rc" mem blk n] spec_store_failed [of n "counts rc" blk]
    by (cases "n = 0") (simp_all add: rc_step_def ea_refcount_store_def)
next
  case (el p rc')
  then obtain rc'' where "set_count rc' p n = Some rc''" "rc_inv rc''" "counts rc'' = (counts rc)(blk := n)" by blast
  then show ?thesis using el(1) spec_store [of "counts rc" mem blk n] by (simp add: rc_step_def ea_refcount_store_def)
qed

lemma list_step:
  assumes "rc_inv rc"
  shows "\<exists>a rc'. rc_step junk rc List_counts = Some (a, rc') \<and> rc_inv rc' \<and> rc_spec (counts rc) List_counts a (counts rc')"
  using list_counts_ok [of "ea_refcount_intr_begin rc"] listing_entries [OF assms] spec_list [of "counts rc"] assms
  by (auto simp: rc_step_def ea_refcount_intr_begin_def)

interpretation refcounts: trace_simulation "\<lambda>rc f. rc_inv rc \<and> counts rc = f" "\<lambda>_. True" "rc_step junk" rc_spec for junk
proof
  fix rc f call
  assume "rc_inv rc \<and> counts rc = f"
  then show "\<exists>a rc' f'. rc_step junk rc call = Some (a, rc') \<and> (rc_inv rc' \<and> counts rc' = f') \<and> rc_spec f call a f'"
    using fetch_step [of rc junk] increment_step [of rc junk] decrement_step [of rc junk] store_step [of rc junk] list_step [of rc junk]
    by (cases call) blast+
qed


end
