(* ===== verification/Fp_Nav.thy ===== *)
theory Fp_Nav
  imports Prelude "HOL-Library.Signed_Division"
begin

text \<open>
  Gestures on the fingerprint sensor, \<open>chipone-qsee/ta_entry/fp_nav.cpp\<close> and the loop of
  \<open>fpTa_entryproxy.cpp\<close> that feeds it: a finger that is put down, moves and is lifted becomes a touch,
  a double click, a long press or a direction key. Times are 64-bit milliseconds and wrap; coordinates
  are integers (the sensor's deltas are far from the limits of \<open>int\<close>, see \<open>scaled_fits\<close>). Every operation
  returns the key events it reports and the new state.
\<close>

section \<open>State\<close>

datatype key = LEFT | RIGHT | UP | DOWN | TOUCH | LONG_PRESS | DOUBLE_CLICK

datatype finger_status =
  FNGR_ST_NONE | FNGR_ST_DETECTED | FNGR_ST_LOST | FNGR_ST_TAP | FNGR_ST_HOLD | FNGR_ST_MOVING | FNGR_ST_L_HOLD
| FNGR_ST_DOUBLE_TAP

record gesture_config =
  enable_direction :: nat
  enable_long_press :: nat
  enable_double_click :: nat
  long_press_time :: u64
  double_click_time :: u64
  enable_touch :: nat
  cfg_up :: nat
  cfg_down :: nat
  cfg_left :: nat
  cfg_right :: nat
  two_dimensional_nav :: nat
  report_touch_by_timer :: nat

text \<open>The configuration of the product, \<open>fp_config_external_qsee.cpp\<close>.\<close>

definition product_config :: gesture_config where
  "product_config = \<lparr>enable_direction = 0, enable_long_press = 1, enable_double_click = 1, long_press_time = 500,
     double_click_time = 300, enable_touch = 1, cfg_up = 2, cfg_down = 2, cfg_left = 2, cfg_right = 2,
     two_dimensional_nav = 1, report_touch_by_timer = 1\<rparr>"

text \<open>
  The fields of \<open>fpsensor_nav_struct\<close> that the code writes; the parameters that only
  \<open>init_enhanced_navi_setting\<close> sets are a record of their own.
\<close>

record nav_setting =
  p_sensitivity_key :: int
  p_sensitivity_ptr :: int
  p_multiplier_x :: int
  p_multiplier_y :: int
  multiplier_key_accel :: int
  multiplier_ptr_accel :: int
  threshold_key_accel :: int
  threshold_ptr_accel :: int
  threshold_ptr_start :: int
  duration_ptr_clear :: int
  nav_finger_up_threshold :: int
  move_time_threshold :: u64
  double_click_time_threshold :: u64
  move_distance_threshold :: int

record nav_task =
  setting :: nav_setting
  nav_time :: u64
  tap_status :: int
  nav_sum_x :: int
  nav_sum_y :: int
  touch_time :: u64
  leave_time :: u64
  moving_key :: nat
  left_threshold :: nat
  right_threshold :: nat
  up_threshold :: nat
  down_threshold :: nat
  right_count :: nat
  left_count :: nat
  up_count :: nat
  down_count :: nat
  nup :: nat
  ndown :: nat
  nleft :: nat
  nright :: nat
  sumy :: int
  col_x :: int
  col_y :: int

text \<open>
  The static variables of the file and what its calls change outside: the state reported to the driver
  and the time after which the timer fires, None if it is not armed.
\<close>

record fp_state =
  nav :: nav_task
  finger_state :: nat
  timerid :: bool
  timer :: "u64 option"
  deviation_x :: int
  deviation_y :: int
  tick_down :: u64

type_synonym report = "(key \<times> nat) list"

text \<open>
  What the calls of the C library return during an event: the clock, in \<open>process_navi_event\<close> and in
  \<open>dispatch_move_event\<close>, whether a timer can be created and whether one can be set. Setting one fails
  for a number of nanoseconds of a second or more.
\<close>

record env =
  now0 :: u64
  now1 :: u64
  create_ok :: bool
  settime_ok :: bool

definition timer_settime :: "env \<Rightarrow> u64 \<Rightarrow> bool" where
  "timer_settime e nsec \<longleftrightarrow> settime_ok e \<and> nsec < 1000000000"

section \<open>Operations\<close>

definition init_enhanced_navi_setting :: "gesture_config \<Rightarrow> fp_state \<Rightarrow> fp_state" where
  "init_enhanced_navi_setting cfg s =
     s\<lparr>nav := (nav s)\<lparr>setting :=
         \<lparr>p_sensitivity_key = 180, p_sensitivity_ptr = 180, p_multiplier_x = 200, p_multiplier_y = 200,
          multiplier_key_accel = 1, multiplier_ptr_accel = 2, threshold_key_accel = 40, threshold_ptr_accel = 20,
          threshold_ptr_start = 5, duration_ptr_clear = 100, nav_finger_up_threshold = 3,
          move_time_threshold = (if enable_long_press cfg \<noteq> 0 then long_press_time cfg else 0),
          double_click_time_threshold =
            (if enable_double_click cfg \<noteq> 0 then double_click_time cfg
             else double_click_time_threshold (setting (nav s))),
          move_distance_threshold = 50\<rparr>\<rparr>\<rparr>"

definition click :: "key \<Rightarrow> report" where
  "click k = [(k, 1), (k, 0)]"

definition finger_detected :: "gesture_config \<Rightarrow> u64 \<Rightarrow> fp_state \<Rightarrow> fp_state" where
  "finger_detected cfg now s =
     s\<lparr>finger_state := 1,
       nav := (nav s)\<lparr>nav_sum_x := 640, nav_sum_y := 640, touch_time := now,
         moving_key := (if enable_direction cfg \<noteq> 0 then 3 else 0),
         sumy := 0, nup := 0, ndown := 0, nright := 0, nleft := 0,
         left_count := 0, right_count := 0, down_count := 0, up_count := 0, col_y := 0, col_x := 0,
         left_threshold := cfg_left cfg, right_threshold := cfg_right cfg,
         up_threshold := cfg_up cfg, down_threshold := cfg_down cfg\<rparr>\<rparr>"

text \<open>The tap: report it, or start the timer that will.\<close>

definition lost_touch :: "gesture_config \<Rightarrow> env \<Rightarrow> fp_state \<Rightarrow> report \<times> fp_state" where
  "lost_touch cfg e s =
     (let nsec = (double_click_time_threshold (setting (nav s)) + 1) * 1000 * 1000;
          left = (\<lambda>s. s\<lparr>nav := (nav s)\<lparr>leave_time := (if enable_double_click cfg = 1 then now1 e else 0)\<rparr>\<rparr>)
      in if report_touch_by_timer cfg = 1 then
           if timerid s then
             if timer_settime e nsec then ([], left (s\<lparr>timer := Some nsec\<rparr>)) else ([], s)
           else ([], left s)
         else (click TOUCH, left s))"

text \<open>Stopping the timer; None if the call fails, at which the code gives up the event.\<close>

definition stop_timer :: "gesture_config \<Rightarrow> env \<Rightarrow> fp_state \<Rightarrow> fp_state option" where
  "stop_timer cfg e s =
     (if timerid s \<and> report_touch_by_timer cfg = 1
      then if timer_settime e 0 then Some (s\<lparr>timer := None\<rparr>) else None
      else Some s)"

definition lost_double :: "gesture_config \<Rightarrow> env \<Rightarrow> fp_state \<Rightarrow> report \<times> fp_state" where
  "lost_double cfg e s =
     (case stop_timer cfg e s of
        None \<Rightarrow> ([], s)
      | Some s \<Rightarrow> (click DOUBLE_CLICK, s\<lparr>nav := (nav s)\<lparr>leave_time := 0\<rparr>\<rparr>))"

definition direction_2d :: "nav_task \<Rightarrow> report" where
  "direction_2d n =
     (if \<bar>col_x n\<bar> > \<bar>col_y n\<bar> then if col_x n > 0 then click RIGHT else click LEFT
      else if col_y n > 0 then click UP else click DOWN)"

definition direction_1d :: "nav_task \<Rightarrow> report" where
  "direction_1d n =
     (if nup n > ndown n \<and> nup n + ndown n > 2 then click UP
      else if ndown n > nup n \<and> nup n + ndown n > 2 then click DOWN
      else if sumy n > 1 \<and> nup n > 1 then click UP
      else if sumy n < -1 \<and> ndown n > 1 then click DOWN
      else []) @
     (if nleft n > nright n + 1 then click LEFT
      else if nright n > nleft n + 1 then click RIGHT
      else [])"

definition lost_direction :: "gesture_config \<Rightarrow> env \<Rightarrow> fp_state \<Rightarrow> report \<times> fp_state" where
  "lost_direction cfg e s =
     (case stop_timer cfg e s of
        None \<Rightarrow> ([], s)
      | Some s \<Rightarrow> (if two_dimensional_nav cfg = 1 then direction_2d (nav s) else direction_1d (nav s), s))"

definition finger_lost :: "gesture_config \<Rightarrow> env \<Rightarrow> fp_state \<Rightarrow> report \<times> fp_state" where
  "finger_lost cfg e s =
     (let s = s\<lparr>finger_state := 2\<rparr>; n = nav s; waited = now1 e - leave_time n;
          limit = double_click_time_threshold (setting n)
      in if moving_key n = 0 \<and> enable_touch cfg = 1 \<and> waited > limit then lost_touch cfg e s
         else if moving_key n = 0 \<and> enable_double_click cfg = 1 \<and> waited \<le> limit then lost_double cfg e s
         else if moving_key n = 2 then lost_direction cfg e s
         else ([], s))"

text \<open>The scaling of a coordinate, with the division of C that rounds towards zero.\<close>

definition scaled :: "nav_setting \<Rightarrow> int \<Rightarrow> int \<Rightarrow> int" where
  "scaled c multiplier v =
     (let t = threshold_key_accel c;
          v = (if \<bar>v\<bar> > t then (t + (\<bar>v\<bar> - t) * multiplier_key_accel c) * (if v > 0 then 1 else -1) else v);
          v = (v * multiplier) sdiv 100
      in (v * p_sensitivity_key c) sdiv 100)"

definition long_press :: "gesture_config \<Rightarrow> u64 \<Rightarrow> nav_task \<Rightarrow> report \<times> nav_task" where
  "long_press cfg now n =
     (if now - touch_time n \<ge> move_time_threshold (setting n) \<and> enable_long_press cfg \<noteq> 0 \<and> moving_key n = 0
      then (click LONG_PRESS, n\<lparr>moving_key := 1\<rparr>) else ([], n))"

definition count_x :: "int \<Rightarrow> nav_task \<Rightarrow> nav_task" where
  "count_x x n =
     (if x > 0 then
        let n = n\<lparr>right_count := right_count n + 1\<rparr>
        in if right_count n > right_threshold n
           then n\<lparr>moving_key := 2, nright := nright n + 1, left_threshold := 0, right_threshold := 0\<rparr> else n
      else
        let n = n\<lparr>left_count := left_count n + 1\<rparr>
        in if left_count n > left_threshold n
           then n\<lparr>moving_key := 2, nleft := nleft n + 1, left_threshold := 0, right_threshold := 0\<rparr> else n)"

definition count_y :: "int \<Rightarrow> nav_task \<Rightarrow> nav_task" where
  "count_y y n =
     (if y > 0 then
        let n = n\<lparr>up_count := up_count n + 1\<rparr>
        in if up_count n > up_threshold n
           then n\<lparr>moving_key := 2, nup := nup n + 1, up_threshold := 0, down_threshold := 0,
                  up_count := 0, down_count := 0\<rparr> else n
      else
        let n = n\<lparr>down_count := down_count n + 1\<rparr>
        in if down_count n > down_threshold n
           then n\<lparr>moving_key := 2, ndown := ndown n + 1, down_threshold := 0, up_count := 0, down_count := 0\<rparr>
           else n)"

definition count_move :: "gesture_config \<Rightarrow> int \<Rightarrow> int \<Rightarrow> nav_task \<Rightarrow> nav_task" where
  "count_move cfg x y n =
     (if enable_direction cfg \<noteq> 0 \<and> moving_key n \<noteq> 1 \<and> (x \<noteq> 0 \<or> y \<noteq> 0) then
        let n = count_x x n;
            n = n\<lparr>col_x := col_x n + x\<rparr>;
            n = count_y y n
        in n\<lparr>col_y := col_y n + y\<rparr>
      else n)"

definition finger_moving :: "gesture_config \<Rightarrow> u64 \<Rightarrow> int \<Rightarrow> int \<Rightarrow> nav_task \<Rightarrow> report \<times> nav_task" where
  "finger_moving cfg now dx dy n =
     (let y = scaled (setting n) (p_multiplier_y (setting n)) dy;
          x = scaled (setting n) (p_multiplier_x (setting n)) dx;
          n = n\<lparr>sumy := sumy n + y\<rparr>;
          n = (if moving_key n = 3 then n\<lparr>moving_key := 0\<rparr> else n);
          (out, n) = long_press cfg now n
      in (out, count_move cfg x y n))"

definition dispatch_move_event :: "gesture_config \<Rightarrow> env \<Rightarrow> int \<Rightarrow> int \<Rightarrow> finger_status \<Rightarrow> fp_state \<Rightarrow> report \<times> fp_state" where
  "dispatch_move_event cfg e x y st s =
     (case st of
        FNGR_ST_DETECTED \<Rightarrow> ([], finger_detected cfg (now1 e) s)
      | FNGR_ST_LOST \<Rightarrow> finger_lost cfg e s
      | FNGR_ST_MOVING \<Rightarrow> (let (out, n) = finger_moving cfg (now1 e) x y (nav s) in (out, s\<lparr>nav := n\<rparr>))
      | _ \<Rightarrow> ([], s))"

text \<open>The timer fires once.\<close>

definition timer_thread :: "fp_state \<Rightarrow> report \<times> fp_state" where
  "timer_thread s = (click TOUCH, s\<lparr>timer := None\<rparr>)"

definition make_timer :: "gesture_config \<Rightarrow> env \<Rightarrow> fp_state \<Rightarrow> fp_state" where
  "make_timer cfg e s =
     (if report_touch_by_timer cfg = 1 \<and> \<not> timerid s then s\<lparr>timerid := create_ok e\<rparr> else s)"

text \<open>The filter in front: the accumulated deviation, and the status \<open>FNGR_ST_HOLD\<close> in its place.\<close>

definition filter_hold :: "env \<Rightarrow> int \<Rightarrow> int \<Rightarrow> finger_status \<Rightarrow> fp_state \<Rightarrow> finger_status \<times> fp_state" where
  "filter_hold e dx dy st s =
     (let tick_curr = now0 e div 1000;
          s = (if st = FNGR_ST_DETECTED then s\<lparr>tick_down := tick_curr, deviation_x := 0, deviation_y := 0\<rparr> else s)
      in if tick_down s > 0 then
           let duration = tick_curr - tick_down s;
               s = s\<lparr>deviation_x := deviation_x s + dx, deviation_y := deviation_y s + dy\<rparr>;
               deviation = deviation_x s * deviation_x s + deviation_y s * deviation_y s
           in if deviation > 100
              then (st, s\<lparr>deviation_x := 0, deviation_y := 0, tick_down := 0, nav := (nav s)\<lparr>tap_status := -1\<rparr>\<rparr>)
              else if duration > 200
              then (FNGR_ST_HOLD, s\<lparr>tick_down := 0, deviation_x := 0, deviation_y := 0\<rparr>)
              else (st, s)
         else (st, s))"

definition process_navi_event :: "gesture_config \<Rightarrow> env \<Rightarrow> int \<Rightarrow> int \<Rightarrow> finger_status \<Rightarrow> fp_state \<Rightarrow> report \<times> fp_state" where
  "process_navi_event cfg e dx dy st s =
     (let (st, s) = filter_hold e dx dy st (make_timer cfg e s) in dispatch_move_event cfg e dx dy st s)"

section \<open>The loop of the service\<close>

text \<open>
  What an iteration of \<open>fpTaEntryProxy::nav_loop\<close> gets from outside: the result of the wait for a finger,
  whether the service shall stop, the answer of the trusted application (None if a command fails) and
  the clock at the places where it is read. The difference of times goes through the \<open>abs\<close> of C, which
  takes a 32-bit integer.
\<close>

record iteration =
  down_ret :: int
  stopped :: bool
  answer :: "(int \<times> int \<times> int) option"
  e_down :: env
  e_lost :: env
  e_move :: env
  t_down :: u64
  t_diff :: u64
  t_move :: u64

record loop_state =
  fp :: fp_state
  lost :: bool
  delta_x :: int
  delta_y :: int
  sum_x :: int
  sum_y :: int

datatype loop_end = Down_failed int | User_cancel

definition diff_time :: "u64 \<Rightarrow> int" where
  "diff_time d = \<bar>sint (ucast d :: u32)\<bar>"

definition nav_time_update :: "u64 \<Rightarrow> fp_state \<Rightarrow> fp_state" where
  "nav_time_update t s = s\<lparr>nav := (nav s)\<lparr>nav_time := t\<rparr>\<rparr>"

definition wait_down :: "gesture_config \<Rightarrow> iteration \<Rightarrow> fp_state \<Rightarrow> report \<times> fp_state" where
  "wait_down cfg it s =
     map_prod id (nav_time_update (t_down it))
       (process_navi_event cfg (e_down it) 0 0 FNGR_ST_DETECTED (init_enhanced_navi_setting cfg s))"

definition poll_answer :: "gesture_config \<Rightarrow> iteration \<Rightarrow> loop_state \<Rightarrow> report \<times> loop_state" where
  "poll_answer cfg it ls =
     (case answer it of
        None \<Rightarrow> ([], ls)
      | Some (x, y, gone) \<Rightarrow>
          let ls = ls\<lparr>delta_x := x, delta_y := y\<rparr>
          in if gone \<noteq> 0 then
               let (out, s) = process_navi_event cfg (e_lost it) 0 0 FNGR_ST_LOST (fp ls)
               in (out, ls\<lparr>fp := nav_time_update 0 s, sum_x := 0, sum_y := 0, lost := True\<rparr>)
             else ([], ls))"

definition report_move :: "gesture_config \<Rightarrow> iteration \<Rightarrow> loop_state \<Rightarrow> report \<times> loop_state" where
  "report_move cfg it ls =
     (let ls = ls\<lparr>sum_x := sum_x ls + delta_x ls, sum_y := sum_y ls + delta_y ls\<rparr>
      in if diff_time (t_diff it - nav_time (nav (fp ls))) \<ge> 5 then
           let (out, s) = process_navi_event cfg (e_move it) (sum_x ls) (sum_y ls) FNGR_ST_MOVING (fp ls)
           in (out, ls\<lparr>fp := nav_time_update (t_move it) s, sum_x := 0, sum_y := 0\<rparr>)
         else ([], ls))"

definition nav_iteration :: "gesture_config \<Rightarrow> iteration \<Rightarrow> loop_state \<Rightarrow> report \<times> (loop_end + loop_state)" where
  "nav_iteration cfg it ls =
     (if lost ls \<and> down_ret it \<noteq> 0 then ([], Inl (Down_failed (down_ret it)))
      else
        let (out1, s) = (if lost ls then wait_down cfg it (fp ls) else ([], fp ls));
            ls = ls\<lparr>fp := s, lost := False\<rparr>
        in if stopped it then (out1, Inl User_cancel)
           else let (out2, ls) = poll_answer cfg it ls; (out3, ls) = report_move cfg it ls
                in (out1 @ out2 @ out3, Inr ls))"

primrec nav_loop :: "gesture_config \<Rightarrow> iteration list \<Rightarrow> loop_state \<Rightarrow> report \<times> (loop_end + loop_state)" where
  "nav_loop cfg [] ls = ([], Inr ls)"
| "nav_loop cfg (it # its) ls =
     (case nav_iteration cfg it ls of
        (out, Inl r) \<Rightarrow> (out, Inl r)
      | (out, Inr ls) \<Rightarrow> map_prod ((@) out) id (nav_loop cfg its ls))"

section \<open>Gestures\<close>

type_synonym move = "env \<times> int \<times> int"

primrec moves :: "gesture_config \<Rightarrow> move list \<Rightarrow> fp_state \<Rightarrow> report \<times> fp_state" where
  "moves cfg [] s = ([], s)"
| "moves cfg (m # ms) s =
     (let (e, dx, dy) = m; (out, s) = process_navi_event cfg e dx dy FNGR_ST_MOVING s;
          (out', s) = moves cfg ms s
      in (out @ out', s))"

text \<open>A finger is put down at \<open>e0\<close>, moves, and is lifted at \<open>e1\<close>.\<close>

definition gesture :: "gesture_config \<Rightarrow> env \<Rightarrow> move list \<Rightarrow> env \<Rightarrow> fp_state \<Rightarrow> report \<times> fp_state" where
  "gesture cfg e0 ms e1 s =
     (let (out0, s) = process_navi_event cfg e0 0 0 FNGR_ST_DETECTED s;
          (out1, s) = moves cfg ms s;
          (out2, s) = process_navi_event cfg e1 0 0 FNGR_ST_LOST s
      in (out0 @ out1 @ out2, s))"

lemma make_timer_nav [simp]: "nav (make_timer cfg e s) = nav s" "tick_down (make_timer cfg e s) = tick_down s"
    "timer (make_timer cfg e s) = timer s" "finger_state (make_timer cfg e s) = finger_state s"
  by (simp_all add: make_timer_def)

lemma filter_hold_status: "fst (filter_hold e dx dy st s) = st \<or> fst (filter_hold e dx dy st s) = FNGR_ST_HOLD"
  by (simp add: filter_hold_def Let_def)

lemma filter_hold_nav:
  "nav (snd (filter_hold e dx dy st s)) = nav s \<or> nav (snd (filter_hold e dx dy st s)) = (nav s)\<lparr>tap_status := -1\<rparr>"
  by (simp add: filter_hold_def Let_def)

lemma filter_hold_timer: "timer (snd (filter_hold e dx dy st s)) = timer s" "timerid (snd (filter_hold e dx dy st s)) = timerid s"
    "finger_state (snd (filter_hold e dx dy st s)) = finger_state s"
  by (simp_all add: filter_hold_def Let_def)

lemma filter_hold_quick:
  assumes "tick_down s = 0 \<or> now0 e div 1000 - tick_down s \<le> 200" "st \<noteq> FNGR_ST_DETECTED"
  shows "fst (filter_hold e dx dy st s) = st"
    "tick_down (snd (filter_hold e dx dy st s)) = 0 \<or> tick_down (snd (filter_hold e dx dy st s)) = tick_down s"
  using assms by (auto simp: filter_hold_def Let_def)

lemma filter_hold_detected:
  "fst (filter_hold e 0 0 FNGR_ST_DETECTED s) = FNGR_ST_DETECTED"
  "tick_down (snd (filter_hold e 0 0 FNGR_ST_DETECTED s)) = now0 e div 1000"
  by (auto simp: filter_hold_def Let_def)

text \<open>A movement either is held back by the filter, or handled with the old task up to its tap status.\<close>

lemma moving_cases:
  assumes "process_navi_event cfg e dx dy FNGR_ST_MOVING s = (out, s')"
  obtains (held) "out = []" "nav s' = nav s \<or> nav s' = (nav s)\<lparr>tap_status := -1\<rparr>"
  | (moved) n where "n = nav s \<or> n = (nav s)\<lparr>tap_status := -1\<rparr>" "finger_moving cfg (now1 e) dx dy n = (out, nav s')"
proof -
  let ?f = "filter_hold e dx dy FNGR_ST_MOVING (make_timer cfg e s)"
  have n: "nav (snd ?f) = nav s \<or> nav (snd ?f) = (nav s)\<lparr>tap_status := -1\<rparr>"
    using filter_hold_nav [of e dx dy FNGR_ST_MOVING "make_timer cfg e s"] by simp
  from filter_hold_status [of e dx dy FNGR_ST_MOVING "make_timer cfg e s"] show ?thesis
  proof
    assume "fst ?f = FNGR_ST_MOVING"
    then have "finger_moving cfg (now1 e) dx dy (nav (snd ?f)) = (out, nav s')"
      using assms by (auto simp: process_navi_event_def dispatch_move_event_def split_beta)
    then show ?thesis using n moved by blast
  next
    assume "fst ?f = FNGR_ST_HOLD"
    then have "out = []" "s' = snd ?f" using assms by (auto simp: process_navi_event_def dispatch_move_event_def split_beta)
    then show ?thesis using n held by blast
  qed
qed

section \<open>One gesture, one kind of key\<close>

lemma count_x_key: "moving_key (count_x x n) = moving_key n \<or> moving_key (count_x x n) = 2"
  by (simp add: count_x_def Let_def)

lemma count_y_key: "moving_key (count_y y n) = moving_key n \<or> moving_key (count_y y n) = 2"
  by (simp add: count_y_def Let_def)

lemma count_move_key:
  "moving_key (count_move cfg x y n) = moving_key n \<or>
   moving_key (count_move cfg x y n) = 2 \<and> enable_direction cfg \<noteq> 0 \<and> moving_key n \<noteq> 1"
proof (cases "enable_direction cfg \<noteq> 0 \<and> moving_key n \<noteq> 1 \<and> (x \<noteq> 0 \<or> y \<noteq> 0)")
  case True
  let ?n = "(count_x x n)\<lparr>col_x := col_x (count_x x n) + x\<rparr>"
  have "moving_key (count_move cfg x y n) = moving_key (count_y y ?n)" using True by (simp add: count_move_def Let_def)
  then show ?thesis using True count_y_key [of y ?n] count_x_key [of x n] by auto
next
  case False
  then have "count_move cfg x y n = n" unfolding count_move_def by (rule if_not_P)
  then show ?thesis by simp
qed

text \<open>Between the events of a gesture: nothing reported yet, or a long press and nothing to follow.\<close>

definition pending :: "gesture_config \<Rightarrow> report \<Rightarrow> nav_task \<Rightarrow> bool" where
  "pending cfg out n \<longleftrightarrow>
     out = [] \<and> moving_key n \<in> {0, 2, 3} \<and> (moving_key n \<noteq> 0 \<longrightarrow> enable_direction cfg \<noteq> 0) \<or>
     out = click LONG_PRESS \<and> moving_key n = 1 \<and> enable_long_press cfg \<noteq> 0"

lemma pending_tap_status [simp]: "pending cfg out (n\<lparr>tap_status := t\<rparr>) = pending cfg out n"
  by (simp add: pending_def)

lemma finger_moving_pending:
  assumes "pending cfg out n" "finger_moving cfg now dx dy n = (out', n')"
  shows "pending cfg (out @ out') n'"
proof -
  let ?c = "setting n"
  let ?m = "n\<lparr>sumy := sumy n + scaled ?c (p_multiplier_y ?c) dy\<rparr>"
  let ?n = "if moving_key ?m = 3 then ?m\<lparr>moving_key := 0\<rparr> else ?m"
  obtain o1 n1 where lp: "long_press cfg now ?n = (o1, n1)" by fastforce
  have n': "out' = o1" "n' = count_move cfg (scaled ?c (p_multiplier_x ?c) dx) (scaled ?c (p_multiplier_y ?c) dy) n1"
    using assms(2) lp by (auto simp: finger_moving_def Let_def)
  have "moving_key ?n = (if moving_key n = 3 then 0 else moving_key n)" by simp
  moreover have "moving_key n' = moving_key n1 \<or> moving_key n' = 2 \<and> enable_direction cfg \<noteq> 0 \<and> moving_key n1 \<noteq> 1"
    using count_move_key [of cfg "scaled ?c (p_multiplier_x ?c) dx" "scaled ?c (p_multiplier_y ?c) dy" n1] n'(2) by simp
  moreover have "o1 = [] \<and> moving_key n1 = moving_key ?n \<or>
      o1 = click LONG_PRESS \<and> moving_key n1 = 1 \<and> enable_long_press cfg \<noteq> 0 \<and> moving_key ?n = 0"
    using lp unfolding long_press_def by (cases "moving_key n = 3") (auto split: if_splits)
  ultimately show ?thesis using assms(1) n'(1) by (auto simp: pending_def split: if_splits)
qed

lemma moves_pending:
  "pending cfg out (nav s) \<Longrightarrow> moves cfg ms s = (out', s') \<Longrightarrow> pending cfg (out @ out') (nav s')"
proof (induction ms arbitrary: s s' out out')
  case Nil
  then show ?case by simp
next
  case (Cons m ms)
  obtain e dx dy where m: "m = (e, dx, dy)" by (cases m)
  obtain o1 s1 where one: "process_navi_event cfg e dx dy FNGR_ST_MOVING s = (o1, s1)" by fastforce
  obtain o2 s2 where rest: "moves cfg ms s1 = (o2, s2)" by fastforce
  have "pending cfg (out @ o1) (nav s1)"
    using one
  proof (cases rule: moving_cases)
    case held
    then show ?thesis using Cons.prems(1) by auto
  next
    case (moved n)
    then show ?thesis using Cons.prems(1) by (intro finger_moving_pending [of cfg out n]) auto
  qed
  from Cons.IH [OF this rest] show ?case using Cons.prems(2) one rest m by auto
qed

lemma detected_ok:
  "pending cfg [] (nav (snd (process_navi_event cfg e 0 0 FNGR_ST_DETECTED s)))"
  by (cases "enable_direction cfg = 0")
    (simp_all add: process_navi_event_def dispatch_move_event_def finger_detected_def split_beta filter_hold_detected
      pending_def)

lemma detected_out: "fst (process_navi_event cfg e 0 0 FNGR_ST_DETECTED s) = []"
  by (simp add: process_navi_event_def dispatch_move_event_def split_beta filter_hold_detected)

definition direction_reports :: "report set" where
  "direction_reports = {v @ h | v h. v \<in> {[], click UP, click DOWN} \<and> h \<in> {[], click LEFT, click RIGHT}}"

lemma direction_1d_reports: "direction_1d n \<in> direction_reports"
  unfolding direction_1d_def direction_reports_def
  by (rule CollectI, rule exI, rule exI, rule conjI, rule refl) simp

lemma direction_2d_reports: "direction_2d n \<in> direction_reports"
proof -
  have "click k \<in> direction_reports" if "k \<in> {UP, DOWN}" for k
    using that unfolding direction_reports_def by (intro CollectI exI [of _ "click k"] exI [of _ "[]"]) auto
  moreover have "click k \<in> direction_reports" if "k \<in> {LEFT, RIGHT}" for k
    using that unfolding direction_reports_def by (intro CollectI exI [of _ "[]"] exI [of _ "click k"]) auto
  ultimately show ?thesis by (simp add: direction_2d_def)
qed

lemma lost_report:
  assumes "pending cfg out (nav s)" "process_navi_event cfg e 0 0 FNGR_ST_LOST s = (out', s')"
  shows "out @ out' = [] \<or>
    out @ out' = click LONG_PRESS \<and> enable_long_press cfg \<noteq> 0 \<or>
    out @ out' = click TOUCH \<and> enable_touch cfg = 1 \<and> report_touch_by_timer cfg \<noteq> 1 \<or>
    out @ out' = click DOUBLE_CLICK \<and> enable_double_click cfg = 1 \<or>
    out @ out' \<in> direction_reports \<and> enable_direction cfg \<noteq> 0"
proof -
  let ?f = "filter_hold e 0 0 FNGR_ST_LOST (make_timer cfg e s)"
  have n: "nav (snd ?f) = nav s \<or> nav (snd ?f) = (nav s)\<lparr>tap_status := -1\<rparr>"
    using filter_hold_nav [of e 0 0 FNGR_ST_LOST "make_timer cfg e s"] by simp
  have key: "moving_key (nav (snd ?f)) = moving_key (nav s)" using n by auto
  have dir: "x \<in> direction_reports" if "x = direction_1d m \<or> x = direction_2d m" for x m
    using that direction_1d_reports direction_2d_reports by auto
  have "out' = [] \<or> (moving_key (nav s) = 0 \<and> out' = click TOUCH \<and> enable_touch cfg = 1 \<and> report_touch_by_timer cfg \<noteq> 1) \<or>
      (moving_key (nav s) = 0 \<and> out' = click DOUBLE_CLICK \<and> enable_double_click cfg = 1) \<or>
      (moving_key (nav s) = 2 \<and> out' \<in> direction_reports)"
    using filter_hold_status [of e 0 0 FNGR_ST_LOST "make_timer cfg e s"] assms(2) key
    by (auto simp: process_navi_event_def dispatch_move_event_def split_beta finger_lost_def lost_touch_def lost_double_def
      lost_direction_def Let_def direction_1d_reports direction_2d_reports split: if_splits option.splits)
  then show ?thesis using assms(1) by (auto simp: pending_def)
qed


section \<open>Taps\<close>

text \<open>Every event comes before a long press and before the filter's time is over.\<close>

definition in_time :: "gesture_config \<Rightarrow> env \<Rightarrow> env \<Rightarrow> bool" where
  "in_time cfg e0 e \<longleftrightarrow> (enable_long_press cfg = 0 \<or> now1 e - now1 e0 < long_press_time cfg) \<and>
     now0 e div 1000 - now0 e0 div 1000 \<le> 200"

definition quick :: "gesture_config \<Rightarrow> env \<Rightarrow> move list \<Rightarrow> env \<Rightarrow> bool" where
  "quick cfg e0 ms e1 \<longleftrightarrow> list_all (\<lambda>(e, _). in_time cfg e0 e) ms \<and> in_time cfg e0 e1"

text \<open>The state while the finger rests, without direction keys.\<close>

definition resting :: "gesture_config \<Rightarrow> env \<Rightarrow> u64 \<Rightarrow> u64 option \<Rightarrow> fp_state \<Rightarrow> bool" where
  "resting cfg e0 left t s \<longleftrightarrow> moving_key (nav s) = 0 \<and> touch_time (nav s) = now1 e0 \<and> leave_time (nav s) = left \<and>
     (enable_long_press cfg \<noteq> 0 \<longrightarrow> move_time_threshold (setting (nav s)) = long_press_time cfg) \<and>
     double_click_time_threshold (setting (nav s)) = double_click_time cfg \<and> timerid s \<and> timer s = t \<and>
     (tick_down s = 0 \<or> tick_down s = now0 e0 div 1000)"

lemma make_timer_timerid [simp]: "timerid s \<Longrightarrow> make_timer cfg e s = s"
  by (simp add: make_timer_def)

lemma resting_filter:
  assumes "resting cfg e0 left t s" "in_time cfg e0 e" "st \<noteq> FNGR_ST_DETECTED"
  shows "fst (filter_hold e dx dy st s) = st" "resting cfg e0 left t (snd (filter_hold e dx dy st s))"
proof -
  let ?f = "filter_hold e dx dy st s"
  have tick: "tick_down s = 0 \<or> now0 e div 1000 - tick_down s \<le> 200"
    using assms(1,2) by (auto simp: resting_def in_time_def)
  show "fst ?f = st" by (rule filter_hold_quick(1) [OF tick assms(3)])
  have "tick_down (snd ?f) = 0 \<or> tick_down (snd ?f) = tick_down s" by (rule filter_hold_quick(2) [OF tick assms(3)])
  then have tick': "tick_down (snd ?f) = 0 \<or> tick_down (snd ?f) = now0 e0 div 1000"
    using assms(1) by (auto simp: resting_def)
  from filter_hold_nav [of e dx dy st s] show "resting cfg e0 left t (snd ?f)"
    using assms(1) tick' by (elim disjE) (simp_all add: resting_def filter_hold_timer)
qed

lemma finger_moving_resting:
  assumes "moving_key n = 0" "touch_time n = now1 e0" "enable_direction cfg = 0" "in_time cfg e0 e"
    "enable_long_press cfg \<noteq> 0 \<longrightarrow> move_time_threshold (setting n) = long_press_time cfg"
  shows "finger_moving cfg (now1 e) dx dy n =
    ([], n\<lparr>sumy := sumy n + scaled (setting n) (p_multiplier_y (setting n)) dy\<rparr>)"
proof -
  have "long_press cfg (now1 e) n' = ([], n')" if "touch_time n' = now1 e0" "setting n' = setting n" for n'
    using assms(4,5) that by (auto simp: long_press_def in_time_def not_le)
  then show ?thesis using assms(1-3) by (simp add: finger_moving_def count_move_def)
qed

lemma moving_resting:
  assumes "resting cfg e0 left t s" "enable_direction cfg = 0" "in_time cfg e0 e"
  shows "\<exists>s'. process_navi_event cfg e dx dy FNGR_ST_MOVING s = ([], s') \<and> resting cfg e0 left t s'"
proof -
  let ?f = "filter_hold e dx dy FNGR_ST_MOVING s"
  have s: "make_timer cfg e s = s" using assms(1) by (simp add: resting_def)
  note f = resting_filter [OF assms(1,3), of FNGR_ST_MOVING dx dy, simplified]
  let ?n = "(nav (snd ?f))\<lparr>sumy := sumy (nav (snd ?f)) +
    scaled (setting (nav (snd ?f))) (p_multiplier_y (setting (nav (snd ?f)))) dy\<rparr>"
  have "finger_moving cfg (now1 e) dx dy (nav (snd ?f)) = ([], ?n)"
    using f(2) by (intro finger_moving_resting [OF _ _ assms(2,3)]) (simp_all add: resting_def)
  then have "process_navi_event cfg e dx dy FNGR_ST_MOVING s = ([], (snd ?f)\<lparr>nav := ?n\<rparr>)"
    using s f(1) by (simp add: process_navi_event_def dispatch_move_event_def split_beta)
  moreover have "resting cfg e0 left t ((snd ?f)\<lparr>nav := ?n\<rparr>)" using f(2) by (simp add: resting_def)
  ultimately show ?thesis by blast
qed

lemma moves_resting:
  "resting cfg e0 left t s \<Longrightarrow> enable_direction cfg = 0 \<Longrightarrow> list_all (\<lambda>(e, _). in_time cfg e0 e) ms \<Longrightarrow>
    \<exists>s'. moves cfg ms s = ([], s') \<and> resting cfg e0 left t s'"
proof (induction ms arbitrary: s)
  case Nil
  then show ?case by simp
next
  case (Cons m ms)
  obtain e dx dy where m: "m = (e, dx, dy)" by (cases m)
  obtain s1 where "process_navi_event cfg e dx dy FNGR_ST_MOVING s = ([], s1)" "resting cfg e0 left t s1"
    using moving_resting [OF Cons.prems(1,2), of e dx dy] Cons.prems(3) m by auto
  then show ?case using Cons.IH [of s1] Cons.prems(2,3) m by auto
qed

lemma init_setting:
  "enable_long_press cfg \<noteq> 0 \<Longrightarrow> move_time_threshold (setting (nav (init_enhanced_navi_setting cfg s))) = long_press_time cfg"
  "enable_double_click cfg = 1 \<Longrightarrow> double_click_time_threshold (setting (nav (init_enhanced_navi_setting cfg s))) = double_click_time cfg"
  by (simp_all add: init_enhanced_navi_setting_def)

lemma detected_resting:
  assumes "enable_direction cfg = 0" "report_touch_by_timer cfg = 1" "enable_double_click cfg = 1" "timerid s \<or> create_ok e0"
  shows "\<exists>s'. process_navi_event cfg e0 0 0 FNGR_ST_DETECTED (init_enhanced_navi_setting cfg s) = ([], s') \<and>
    resting cfg e0 (leave_time (nav s)) (timer s) s'"
proof -
  let ?s = "init_enhanced_navi_setting cfg s"
  let ?f = "filter_hold e0 0 0 FNGR_ST_DETECTED (make_timer cfg e0 ?s)"
  have "nav (snd ?f) = nav ?s \<or> nav (snd ?f) = (nav ?s)\<lparr>tap_status := -1\<rparr>"
    using filter_hold_nav [of e0 0 0 FNGR_ST_DETECTED "make_timer cfg e0 ?s"] by simp
  then have n: "leave_time (nav (snd ?f)) = leave_time (nav s)" "setting (nav (snd ?f)) = setting (nav ?s)"
    by (auto simp: init_enhanced_navi_setting_def)
  have "timerid (make_timer cfg e0 ?s)" "timer (make_timer cfg e0 ?s) = timer s"
    using assms(2,4) by (auto simp: make_timer_def init_enhanced_navi_setting_def)
  then have t: "timerid (snd ?f)" "timer (snd ?f) = timer s" by (simp_all add: filter_hold_timer)
  have "process_navi_event cfg e0 0 0 FNGR_ST_DETECTED ?s = ([], finger_detected cfg (now1 e0) (snd ?f))"
    by (simp add: process_navi_event_def dispatch_move_event_def split_beta filter_hold_detected)
  moreover have "resting cfg e0 (leave_time (nav s)) (timer s) (finger_detected cfg (now1 e0) (snd ?f))"
    using n t assms(1) init_setting [of cfg s] assms(3) filter_hold_detected(2) [of e0 "make_timer cfg e0 ?s"]
    by (simp add: resting_def finger_detected_def)
  ultimately show ?thesis by blast
qed

lemma lost_resting:
  assumes "resting cfg e0 left t s" "in_time cfg e0 e"
  shows "\<exists>s'. process_navi_event cfg e 0 0 FNGR_ST_LOST s = finger_lost cfg e s' \<and> resting cfg e0 left t s'"
proof -
  let ?f = "filter_hold e 0 0 FNGR_ST_LOST s"
  have "make_timer cfg e s = s" using assms(1) by (simp add: resting_def)
  then have "process_navi_event cfg e 0 0 FNGR_ST_LOST s = finger_lost cfg e (snd ?f)"
    using resting_filter(1) [OF assms, of FNGR_ST_LOST 0 0]
    by (simp add: process_navi_event_def dispatch_move_event_def split_beta)
  then show ?thesis using resting_filter(2) [OF assms, of FNGR_ST_LOST 0 0] by auto
qed

text \<open>A quick gesture ends in the handler for the lifted finger, in a state that has seen no movement.\<close>

lemma quick_gesture:
  assumes "enable_direction cfg = 0" "report_touch_by_timer cfg = 1" "enable_double_click cfg = 1"
    "timerid s \<or> create_ok e0" "quick cfg e0 ms e1"
  shows "\<exists>s'. gesture cfg e0 ms e1 (init_enhanced_navi_setting cfg s) = finger_lost cfg e1 s' \<and>
    resting cfg e0 (leave_time (nav s)) (timer s) s'"
proof -
  obtain s1 where s1: "process_navi_event cfg e0 0 0 FNGR_ST_DETECTED (init_enhanced_navi_setting cfg s) = ([], s1)"
      "resting cfg e0 (leave_time (nav s)) (timer s) s1"
    using detected_resting [OF assms(1-4)] by blast
  obtain s2 where s2: "moves cfg ms s1 = ([], s2)" "resting cfg e0 (leave_time (nav s)) (timer s) s2"
    using moves_resting [OF s1(2) assms(1)] assms(5) by (auto simp: quick_def)
  obtain s3 where "process_navi_event cfg e1 0 0 FNGR_ST_LOST s2 = finger_lost cfg e1 s3"
      "resting cfg e0 (leave_time (nav s)) (timer s) s3"
    using lost_resting [OF s2(2)] assms(5) by (auto simp: quick_def)
  then show ?thesis using s1(1) s2(1) by (auto simp: gesture_def split_beta)
qed

lemma settime_ok_bound: "t < 999 \<Longrightarrow> (t + 1) * 1000 * 1000 < (1000000000 :: u64)"
proof -
  assume "t < 999"
  then have t: "unat t < 999" by (simp add: word_less_nat_alt)
  then have "unat ((t + 1) * 1000 * 1000) = (unat t + 1) * 1000 * 1000" by (simp add: unat_word_ariths)
  then show ?thesis using t by (simp add: word_less_nat_alt)
qed

text \<open>
  C30. Taps with the touch reported by a timer: a quick tap reports nothing by itself but leaves the timer
  armed, whose expiry reports one touch; a second quick tap within the time for double clicks reports one
  double click and stops the timer, so that no touch is reported.
\<close>

theorem double_tap:
  assumes "enable_direction cfg = 0" "enable_touch cfg = 1" "enable_double_click cfg = 1" "report_touch_by_timer cfg = 1"
    "double_click_time cfg < 999" "timerid s \<or> create_ok e0" "settime_ok e1" "settime_ok e3"
    "quick cfg e0 ms e1" "quick cfg e2 ms' e3"
    "now1 e1 - leave_time (nav s) > double_click_time cfg" "now1 e3 - now1 e1 \<le> double_click_time cfg"
    "gesture cfg e0 ms e1 (init_enhanced_navi_setting cfg s) = (out1, s1)"
    "gesture cfg e2 ms' e3 (init_enhanced_navi_setting cfg s1) = (out2, s2)"
  shows "out1 = [] \<and> timer s1 = Some ((double_click_time cfg + 1) * 1000 * 1000) \<and> fst (timer_thread s1) = click TOUCH \<and>
    out2 = click DOUBLE_CLICK \<and> timer s2 = None"
proof -
  obtain s' where s': "gesture cfg e0 ms e1 (init_enhanced_navi_setting cfg s) = finger_lost cfg e1 s'"
      "resting cfg e0 (leave_time (nav s)) (timer s) s'"
    using quick_gesture [OF assms(1,4,3,6,9)] by blast
  have one: "out1 = []" "timer s1 = Some ((double_click_time cfg + 1) * 1000 * 1000)" "leave_time (nav s1) = now1 e1" "timerid s1"
    using s' assms(2-5,7,11,13) settime_ok_bound [OF assms(5)]
    by (auto simp: finger_lost_def resting_def lost_touch_def timer_settime_def Let_def)
  obtain t' where t': "gesture cfg e2 ms' e3 (init_enhanced_navi_setting cfg s1) = finger_lost cfg e3 t'"
      "resting cfg e2 (leave_time (nav s1)) (timer s1) t'"
    using quick_gesture [OF assms(1,4,3) _ assms(10), of s1] one(4) by blast
  have "\<not> double_click_time cfg < now1 e3 - now1 e1" using assms(12) by (simp add: not_less)
  then have "out2 = click DOUBLE_CLICK" "timer s2 = None"
    using t' assms(3,4,8,12,14) one(3)
    by (auto simp: finger_lost_def resting_def lost_double_def stop_timer_def timer_settime_def Let_def)
  then show ?thesis using one by (simp add: timer_thread_def)
qed

text \<open>The static data before the first event.\<close>

definition nav_zero :: nav_task where
  "nav_zero = \<lparr>setting =
       \<lparr>p_sensitivity_key = 0, p_sensitivity_ptr = 0, p_multiplier_x = 0, p_multiplier_y = 0,
        multiplier_key_accel = 0, multiplier_ptr_accel = 0, threshold_key_accel = 0, threshold_ptr_accel = 0,
        threshold_ptr_start = 0, duration_ptr_clear = 0, nav_finger_up_threshold = 0,
        move_time_threshold = 0, double_click_time_threshold = 0, move_distance_threshold = 0\<rparr>,
     nav_time = 0, tap_status = 0, nav_sum_x = 0, nav_sum_y = 0, touch_time = 0, leave_time = 0, moving_key = 0,
     left_threshold = 0, right_threshold = 0, up_threshold = 0, down_threshold = 0,
     right_count = 0, left_count = 0, up_count = 0, down_count = 0, nup = 0, ndown = 0, nleft = 0, nright = 0,
     sumy = 0, col_x = 0, col_y = 0\<rparr>"

definition fp_zero :: fp_state where
  "fp_zero = \<lparr>nav = nav_zero, finger_state = 0, timerid = False, timer = None, deviation_x = 0, deviation_y = 0,
     tick_down = 0\<rparr>"

definition env_at :: "u64 \<Rightarrow> env" where
  "env_at t = \<lparr>now0 = t, now1 = t, create_ok = True, settime_ok = True\<rparr>"

lemma in_time_at:
  "in_time cfg (env_at a) (env_at b) \<longleftrightarrow> (enable_long_press cfg = 0 \<or> b - a < long_press_time cfg) \<and> b div 1000 - a div 1000 \<le> 200"
  by (simp add: in_time_def env_at_def)

theorem double_tap_witness:
  "fst (gesture product_config (env_at 100000) [] (env_at 100100) (init_enhanced_navi_setting product_config fp_zero)) = [] \<and>
   fst (gesture product_config (env_at 100200) [] (env_at 100300) (init_enhanced_navi_setting product_config
     (snd (gesture product_config (env_at 100000) [] (env_at 100100) (init_enhanced_navi_setting product_config fp_zero))))) =
     click DOUBLE_CLICK"
proof -
  let ?g = "gesture product_config (env_at 100000) [] (env_at 100100) (init_enhanced_navi_setting product_config fp_zero)"
  let ?h = "gesture product_config (env_at 100200) [] (env_at 100300) (init_enhanced_navi_setting product_config (snd ?g))"
  have "fst ?g = [] \<and> timer (snd ?g) = Some ((double_click_time product_config + 1) * 1000 * 1000) \<and>
      fst (timer_thread (snd ?g)) = click TOUCH \<and> fst ?h = click DOUBLE_CLICK \<and> timer (snd ?h) = None"
    by (rule double_tap [of product_config fp_zero "env_at 100000" "env_at 100100" "env_at 100300" "[]" "env_at 100200" "[]"])
      (simp_all add: product_config_def quick_def in_time_at, simp_all add: env_at_def fp_zero_def nav_zero_def)
  then show ?thesis by simp
qed

section \<open>Swipes\<close>

definition awake :: "env \<Rightarrow> fp_state \<Rightarrow> bool" where
  "awake e0 s \<longleftrightarrow> tick_down s = 0 \<or> tick_down s = now0 e0 div 1000"

text \<open>The task after a movement that is no long press; the tap status plays no role.\<close>

definition moved_task :: "gesture_config \<Rightarrow> int \<Rightarrow> int \<Rightarrow> nav_task \<Rightarrow> nav_task" where
  "moved_task cfg x y n = count_move cfg x y (n\<lparr>sumy := sumy n + y, moving_key := (if moving_key n = 3 then 0 else moving_key n)\<rparr>)"

text \<open>With the settings of \<open>init_enhanced_navi_setting\<close> a coordinate is multiplied by 3.6.\<close>

definition move_setting :: "gesture_config \<Rightarrow> nav_setting \<Rightarrow> bool" where
  "move_setting cfg c \<longleftrightarrow> p_sensitivity_key c = 180 \<and> p_multiplier_x c = 200 \<and> p_multiplier_y c = 200 \<and>
     multiplier_key_accel c = 1 \<and> threshold_key_accel c = 40 \<and>
     (enable_long_press cfg \<noteq> 0 \<longrightarrow> move_time_threshold c = long_press_time cfg)"

lemma init_move_setting: "move_setting cfg (setting (nav (init_enhanced_navi_setting cfg s)))"
  by (simp add: move_setting_def init_enhanced_navi_setting_def)

lemma scaled_move: "move_setting cfg c \<Longrightarrow> scaled c 200 v = (360 * v) sdiv 100"
proof -
  assume c: "move_setting cfg c"
  have "(if \<bar>v\<bar> > 40 then (40 + (\<bar>v\<bar> - 40) * 1) * (if v > 0 then 1 else -1) else v) = v" by auto
  moreover have "(v * 200) sdiv 100 = v * 2"
    by (simp add: signed_divide_int_def abs_mult sgn_mult abs_sgn_eq mult_sgn_abs)
  ultimately show ?thesis using c by (simp add: scaled_def move_setting_def Let_def mult.commute)
qed

lemma scaled_fits:
  assumes "move_setting cfg c" "\<bar>v\<bar> \<le> 2 ^ 15"
  shows "\<bar>v * 200\<bar> < 2 ^ 31" "\<bar>(v * 200) sdiv 100 * 180\<bar> < 2 ^ 31" "\<bar>scaled c 200 v\<bar> < 2 ^ 31"
proof -
  have two: "(v * 200) sdiv 100 = v * 2"
    by (simp add: signed_divide_int_def abs_mult sgn_mult abs_sgn_eq mult_sgn_abs)
  show "\<bar>v * 200\<bar> < 2 ^ 31" "\<bar>(v * 200) sdiv 100 * 180\<bar> < 2 ^ 31" using assms(2) unfolding two by auto
  have "\<bar>(360 * v) sdiv 100\<bar> \<le> \<bar>360 * v\<bar>"
    using int_div_less_self [of "360 * \<bar>v\<bar>" 100] by (simp add: signed_divide_int_def abs_mult sgn_if) auto
  then show "\<bar>scaled c 200 v\<bar> < 2 ^ 31" using assms(2) unfolding scaled_move [OF assms(1)] by auto
qed

lemma finger_moving_awake:
  assumes "move_setting cfg (setting n)" "touch_time n = now1 e0" "in_time cfg e0 e"
  shows "finger_moving cfg (now1 e) dx dy n = ([], moved_task cfg ((360 * dx) sdiv 100) ((360 * dy) sdiv 100) n)"
proof -
  have lp: "long_press cfg (now1 e) n' = ([], n')" if "touch_time n' = now1 e0" "setting n' = setting n" for n'
    using assms(1,3) that by (auto simp: long_press_def in_time_def move_setting_def not_le)
  have mult: "p_multiplier_x (setting n) = 200" "p_multiplier_y (setting n) = 200" using assms(1) by (simp_all add: move_setting_def)
  show ?thesis
    using lp assms(2) unfolding finger_moving_def moved_task_def mult scaled_move [OF assms(1)]
    by (cases "moving_key n = 3") (simp_all add: Let_def)
qed

lemma moving_awake:
  assumes "awake e0 s" "in_time cfg e0 e" "move_setting cfg (setting (nav s))" "touch_time (nav s) = now1 e0"
  obtains s' n where "process_navi_event cfg e dx dy FNGR_ST_MOVING s = ([], s')" "awake e0 s'"
    "n = nav s \<or> n = (nav s)\<lparr>tap_status := -1\<rparr>" "nav s' = moved_task cfg ((360 * dx) sdiv 100) ((360 * dy) sdiv 100) n"
proof -
  let ?s = "make_timer cfg e s"
  let ?f = "filter_hold e dx dy FNGR_ST_MOVING ?s"
  have tick: "tick_down ?s = 0 \<or> now0 e div 1000 - tick_down ?s \<le> 200"
    using assms(1,2) by (auto simp: awake_def in_time_def)
  have st: "fst ?f = FNGR_ST_MOVING" "tick_down (snd ?f) = 0 \<or> tick_down (snd ?f) = tick_down s"
    using filter_hold_quick [OF tick, of FNGR_ST_MOVING dx dy] by simp_all
  have n: "nav (snd ?f) = nav s \<or> nav (snd ?f) = (nav s)\<lparr>tap_status := -1\<rparr>"
    using filter_hold_nav [of e dx dy FNGR_ST_MOVING ?s] by simp
  then have n': "move_setting cfg (setting (nav (snd ?f)))" "touch_time (nav (snd ?f)) = now1 e0" using assms(3,4) by auto
  let ?n = "moved_task cfg ((360 * dx) sdiv 100) ((360 * dy) sdiv 100) (nav (snd ?f))"
  have "process_navi_event cfg e dx dy FNGR_ST_MOVING s = ([], (snd ?f)\<lparr>nav := ?n\<rparr>)"
    using st(1) finger_moving_awake [OF n' assms(2), of dx dy]
    by (simp add: process_navi_event_def dispatch_move_event_def split_beta)
  moreover have "awake e0 ((snd ?f)\<lparr>nav := ?n\<rparr>)" using st(2) assms(1) by (auto simp: awake_def)
  ultimately show ?thesis using n by (intro that [of "(snd ?f)\<lparr>nav := ?n\<rparr>" "nav (snd ?f)"]) simp_all
qed

lemma move_zero_iff [simp]: "(360 * v) sdiv 100 = 0 \<longleftrightarrow> v = 0" for v :: int
proof -
  have "\<bar>360 * v\<bar> div 100 = 0 \<longleftrightarrow> v = 0" by (auto simp: zdiv_eq_0_iff abs_mult)
  then show ?thesis by (auto simp: signed_divide_int_def sgn_mult sgn_0_0)
qed

lemma move_pos_iff [simp]: "(360 * v) sdiv 100 > 0 \<longleftrightarrow> v > 0" for v :: int
proof -
  have "v > 0 \<Longrightarrow> (360 * v) div 100 > 0" by (simp add: pos_imp_zdiv_pos_iff)
  moreover have "(360 * \<bar>v\<bar>) div 100 \<ge> 0" by (simp add: pos_imp_zdiv_nonneg_iff)
  ultimately show ?thesis by (auto simp: signed_divide_int_def abs_mult sgn_if not_less zero_less_mult_iff)
qed

text \<open>
  An invariant of a task that every movement advances holds after all of them, with the movements
  counted and summed up.
\<close>

lemma moves_invariant:
  assumes "awake e0 s" "list_all (\<lambda>(e, _). in_time cfg e0 e) ms" "P [] (nav s)"
    "\<And>ds n. P ds n \<Longrightarrow> move_setting cfg (setting n) \<and> touch_time n = now1 e0"
    "\<And>ds n. P ds n \<Longrightarrow> P ds (n\<lparr>tap_status := -1\<rparr>)"
    "\<And>ds n dx dy. P ds n \<Longrightarrow> (dx, dy) \<in> snd ` set ms \<Longrightarrow>
      P (ds @ [(dx, dy)]) (moved_task cfg ((360 * dx) sdiv 100) ((360 * dy) sdiv 100) n)"
  shows "\<exists>s'. moves cfg ms s = ([], s') \<and> awake e0 s' \<and> P (map snd ms) (nav s')"
proof -
  have "\<exists>s'. moves cfg ms' s = ([], s') \<and> awake e0 s' \<and> P (ds @ map snd ms') (nav s')"
    if "awake e0 s" "P ds (nav s)" "set ms' \<subseteq> set ms" for ms' ds s
    using that
  proof (induction ms' arbitrary: s ds)
    case Nil
    then show ?case by simp
  next
    case (Cons m ms')
    obtain e dx dy where m: "m = (e, dx, dy)" by (cases m)
    have e: "in_time cfg e0 e" using assms(2) Cons.prems(3) m by (auto simp: list_all_iff)
    have at: "move_setting cfg (setting (nav s))" "touch_time (nav s) = now1 e0" using assms(4) [OF Cons.prems(2)] by auto
    obtain s' n where s': "process_navi_event cfg e dx dy FNGR_ST_MOVING s = ([], s')" "awake e0 s'"
        "n = nav s \<or> n = (nav s)\<lparr>tap_status := -1\<rparr>" "nav s' = moved_task cfg ((360 * dx) sdiv 100) ((360 * dy) sdiv 100) n"
      by (rule moving_awake [OF Cons.prems(1) e at, of dx dy])
    have "P ds n" using s'(3) Cons.prems(2) assms(5) by auto
    moreover have "(dx, dy) \<in> snd ` set ms" using Cons.prems(3) m by (auto intro!: rev_image_eqI)
    ultimately have "P (ds @ [(dx, dy)]) (nav s')" using assms(6) s'(4) by simp
    from Cons.IH [OF s'(2) this] show ?case using Cons.prems(3) s'(1) m by (auto simp: split_beta)
  qed
  from this [OF assms(1,3)] show ?thesis by simp
qed

definition nonzero :: "(int \<times> int) list \<Rightarrow> nat" where
  "nonzero ds = length (filter (\<lambda>(dx, dy). dx \<noteq> 0 \<or> dy \<noteq> 0) ds)"

definition total_x :: "(int \<times> int) list \<Rightarrow> int" where
  "total_x ds = (\<Sum>(dx, dy)\<leftarrow>ds. (360 * dx) sdiv 100)"

definition total_y :: "(int \<times> int) list \<Rightarrow> int" where
  "total_y ds = (\<Sum>(dx, dy)\<leftarrow>ds. (360 * dy) sdiv 100)"

definition swiping :: "gesture_config \<Rightarrow> env \<Rightarrow> (int \<times> int) list \<Rightarrow> nav_task \<Rightarrow> bool" where
  "swiping cfg e0 ds n \<longleftrightarrow> move_setting cfg (setting n) \<and> touch_time n = now1 e0 \<and>
     col_x n = total_x ds \<and> col_y n = total_y ds \<and> moving_key n \<in> {0, 2, 3} \<and>
     (moving_key n = 2 \<or> right_count n + left_count n = nonzero ds \<and> right_count n \<le> right_threshold n \<and>
        left_count n \<le> left_threshold n \<and> right_threshold n = cfg_right cfg \<and> left_threshold n = cfg_left cfg)"

lemma swiping_moved:
  assumes "swiping cfg e0 ds n" "enable_direction cfg \<noteq> 0"
  shows "swiping cfg e0 (ds @ [(dx, dy)]) (moved_task cfg ((360 * dx) sdiv 100) ((360 * dy) sdiv 100) n)"
proof (cases "dx = 0 \<and> dy = 0")
  case True
  then show ?thesis
    using assms by (auto simp: swiping_def moved_task_def count_move_def nonzero_def total_x_def total_y_def)
next
  case False
  let ?n = "n\<lparr>sumy := sumy n + (360 * dy) sdiv 100, moving_key := (if moving_key n = 3 then 0 else moving_key n)\<rparr>"
  let ?a = "count_x ((360 * dx) sdiv 100) ?n"
  let ?b = "count_y ((360 * dy) sdiv 100) (?a\<lparr>col_x := col_x ?a + (360 * dx) sdiv 100\<rparr>)"
  have "moved_task cfg ((360 * dx) sdiv 100) ((360 * dy) sdiv 100) n = ?b\<lparr>col_y := col_y ?b + (360 * dy) sdiv 100\<rparr>"
    using assms False by (auto simp: swiping_def moved_task_def count_move_def Let_def)
  moreover have "swiping cfg e0 (ds @ [(dx, dy)]) (?b\<lparr>col_y := col_y ?b + (360 * dy) sdiv 100\<rparr>)"
    using assms(1) False
    by (cases "dx > 0"; cases "dy > 0")
      (auto simp: swiping_def count_x_def count_y_def nonzero_def total_x_def total_y_def Let_def)
  ultimately show ?thesis by simp
qed

lemma detected_task:
  obtains s' where "process_navi_event cfg e0 0 0 FNGR_ST_DETECTED (init_enhanced_navi_setting cfg s) = ([], s')" "awake e0 s'"
    "move_setting cfg (setting (nav s'))" "touch_time (nav s') = now1 e0" "moving_key (nav s') = (if enable_direction cfg \<noteq> 0 then 3 else 0)"
    "col_x (nav s') = 0" "col_y (nav s') = 0" "nup (nav s') = 0" "ndown (nav s') = 0" "nleft (nav s') = 0" "nright (nav s') = 0"
    "right_count (nav s') = 0" "left_count (nav s') = 0" "up_count (nav s') = 0" "down_count (nav s') = 0"
    "left_threshold (nav s') = cfg_left cfg" "right_threshold (nav s') = cfg_right cfg" "up_threshold (nav s') = cfg_up cfg"
    "down_threshold (nav s') = cfg_down cfg"
proof -
  let ?s = "init_enhanced_navi_setting cfg s"
  let ?f = "filter_hold e0 0 0 FNGR_ST_DETECTED (make_timer cfg e0 ?s)"
  have "nav (snd ?f) = nav ?s \<or> nav (snd ?f) = (nav ?s)\<lparr>tap_status := -1\<rparr>"
    using filter_hold_nav [of e0 0 0 FNGR_ST_DETECTED "make_timer cfg e0 ?s"] by simp
  then have "setting (nav (snd ?f)) = setting (nav ?s)" by auto
  then have "move_setting cfg (setting (nav (snd ?f)))" using init_move_setting by simp
  moreover have "process_navi_event cfg e0 0 0 FNGR_ST_DETECTED ?s = ([], finger_detected cfg (now1 e0) (snd ?f))"
    by (simp add: process_navi_event_def dispatch_move_event_def split_beta filter_hold_detected)
  ultimately show ?thesis
    using filter_hold_detected(2) [of e0 "make_timer cfg e0 ?s"]
    by (intro that [of "finger_detected cfg (now1 e0) (snd ?f)"]) (simp_all add: finger_detected_def awake_def)
qed

text \<open>The lifted finger after a swipe.\<close>

lemma lost_swipe:
  assumes "awake e0 s" "in_time cfg e0 e" "settime_ok e" "moving_key (nav s) = 2"
  obtains n where "n = nav s \<or> n = (nav s)\<lparr>tap_status := -1\<rparr>"
    "fst (process_navi_event cfg e 0 0 FNGR_ST_LOST s) = (if two_dimensional_nav cfg = 1 then direction_2d n else direction_1d n)"
proof -
  let ?s = "make_timer cfg e s"
  let ?f = "filter_hold e 0 0 FNGR_ST_LOST ?s"
  have tick: "tick_down ?s = 0 \<or> now0 e div 1000 - tick_down ?s \<le> 200"
    using assms(1,2) by (auto simp: awake_def in_time_def)
  have st: "fst ?f = FNGR_ST_LOST" using filter_hold_quick(1) [OF tick, of FNGR_ST_LOST 0 0] by simp
  have n: "nav (snd ?f) = nav s \<or> nav (snd ?f) = (nav s)\<lparr>tap_status := -1\<rparr>"
    using filter_hold_nav [of e 0 0 FNGR_ST_LOST ?s] by simp
  then have "moving_key (nav (snd ?f)) = 2" using assms(4) by auto
  then have "fst (finger_lost cfg e (snd ?f)) =
      (if two_dimensional_nav cfg = 1 then direction_2d (nav (snd ?f)) else direction_1d (nav (snd ?f)))"
    using assms(3) by (simp add: finger_lost_def lost_direction_def stop_timer_def timer_settime_def Let_def)
  then show ?thesis using n st by (intro that [of "nav (snd ?f)"]) (simp_all add: process_navi_event_def dispatch_move_event_def split_beta)
qed


definition swipe_config :: gesture_config where
  "swipe_config = product_config\<lparr>enable_direction := 1\<rparr>"

definition swipe_at :: "int \<Rightarrow> int \<Rightarrow> move list" where
  "swipe_at dx dy = map (\<lambda>t. (env_at t, dx, dy)) [100010, 100020, 100030, 100040, 100050]"


text \<open>The counters of an upward swipe: the horizontal branch counts each movement as one to the left.\<close>

definition rising :: "gesture_config \<Rightarrow> env \<Rightarrow> (int \<times> int) list \<Rightarrow> nav_task \<Rightarrow> bool" where
  "rising cfg e0 ds n \<longleftrightarrow> (let k = length ds in
     move_setting cfg (setting n) \<and> touch_time n = now1 e0 \<and> moving_key n \<in> {0, 2, 3} \<and>
     (cfg_up cfg < k \<longrightarrow> moving_key n = 2) \<and>
     nup n = k - cfg_up cfg \<and> up_count n = (if k \<le> cfg_up cfg then k else 0) \<and>
     up_threshold n = (if k \<le> cfg_up cfg then cfg_up cfg else 0) \<and> ndown n = 0 \<and>
     nleft n = k - cfg_left cfg \<and> left_count n = k \<and> left_threshold n = (if k \<le> cfg_left cfg then cfg_left cfg else 0) \<and>
     nright n = 0)"

lemma rising_moved:
  assumes "rising cfg e0 ds n" "enable_direction cfg \<noteq> 0" "dy > 0"
  shows "rising cfg e0 (ds @ [(0, dy)]) (moved_task cfg ((360 * 0) sdiv 100) ((360 * dy) sdiv 100) n)"
proof -
  let ?n = "n\<lparr>sumy := sumy n + (360 * dy) sdiv 100, moving_key := (if moving_key n = 3 then 0 else moving_key n)\<rparr>"
  let ?a = "count_x 0 ?n"
  let ?b = "count_y ((360 * dy) sdiv 100) ?a"
  have "moved_task cfg ((360 * 0) sdiv 100) ((360 * dy) sdiv 100) n = ?b\<lparr>col_y := col_y ?b + (360 * dy) sdiv 100\<rparr>"
    using assms by (auto simp: rising_def moved_task_def count_move_def Let_def)
  moreover have "rising cfg e0 (ds @ [(0, dy)]) (?b\<lparr>col_y := col_y ?b + (360 * dy) sdiv 100\<rparr>)"
    using assms(1,3)
    by (cases "length ds < cfg_up cfg"; cases "length ds < cfg_left cfg") (auto simp: rising_def count_x_def count_y_def Let_def)
  ultimately show ?thesis by simp
qed


definition strip_config :: gesture_config where
  "strip_config = product_config\<lparr>enable_direction := 1, two_dimensional_nav := 0\<rparr>"


section \<open>The loop\<close>

definition direct_config :: gesture_config where
  "direct_config = product_config\<lparr>report_touch_by_timer := 0\<rparr>"

text \<open>An iteration in which the answer of the trusted application comes at a time.\<close>

definition iteration_at :: "u64 \<Rightarrow> int \<times> int \<times> int \<Rightarrow> iteration" where
  "iteration_at t a = \<lparr>down_ret = 0, stopped = False, answer = Some a, e_down = env_at t, e_lost = env_at t,
     e_move = env_at t, t_down = t, t_diff = t, t_move = t\<rparr>"


end
