(* ===== verification/Dir_Block.thy ===== *)
theory Dir_Block
  imports Bitops "HOL-Library.Monad_Syntax"
begin

text \<open>
  Directory blocks, \<open>external/e2fsprogs/lib/ext2fs/dir_iterate.c\<close>, \<open>dirblock.c\<close> and \<open>newdir.c\<close>: the record
  lengths, the walk over the entries of a block with a callback that may change the block, and new
  blocks. A block is a list of bytes; a result None stands for an access outside the buffer or a walk
  that never ends. \<open>struct ext2_dir_entry\<close> lies in the block as inode (4 bytes), record length and name
  length with file type (2 bytes each) and the name.
\<close>

section \<open>Accesses\<close>

definition get16 :: "bytes \<Rightarrow> nat \<Rightarrow> u16 option" where
  "get16 b i = (if i + 2 \<le> length b then Some (load16 b i) else None)"

definition get32 :: "bytes \<Rightarrow> nat \<Rightarrow> u32 option" where
  "get32 b i = (if i + 4 \<le> length b then Some (load32 b i) else None)"

definition put :: "bytes \<Rightarrow> nat \<Rightarrow> bytes \<Rightarrow> bytes option" where
  "put b i xs = (if i + length xs \<le> length b then Some (splice b i xs) else None)"

definition get_bytes :: "bytes \<Rightarrow> nat \<Rightarrow> nat \<Rightarrow> bytes option" where
  "get_bytes b i n = (if i + n \<le> length b then Some (take n (drop i b)) else None)"

section \<open>Record lengths\<close>

text \<open>The length in a block of 64 kB or more is kept in the 16 bits with the help of the two low bits.\<close>

definition ext2fs_get_rec_len :: "nat \<Rightarrow> u16 \<Rightarrow> nat" where
  "ext2fs_get_rec_len blocksize len =
     (if blocksize < 65536 then unat len
      else if len = 65535 \<or> len = 0 then blocksize
      else unat ((ucast len AND 65532) OR push_bit 16 (ucast len AND 3) :: u32))"

text \<open>None stands for \<open>EINVAL\<close>.\<close>

definition ext2fs_set_rec_len :: "nat \<Rightarrow> nat \<Rightarrow> u16 option" where
  "ext2fs_set_rec_len blocksize len =
     (if len > blocksize \<or> blocksize > 2 ^ 18 \<or> len mod 4 \<noteq> 0 then None
      else if len < 65536 then Some (of_nat len)
      else if len = blocksize then Some (if blocksize = 65536 then 65535 else 0)
      else Some (ucast ((of_nat len AND 65532) OR (drop_bit 16 (of_nat len) AND 3) :: u32)))"

text \<open>\<open>EXT2_DIR_REC_LEN\<close>: the space for a name.\<close>

definition EXT2_DIR_REC_LEN :: "nat \<Rightarrow> nat" where
  "EXT2_DIR_REC_LEN name_len = (name_len + 11) div 4 * 4"

definition low_len :: "u16 \<Rightarrow> nat" where
  "low_len name_len = unat name_len mod 256"

section \<open>The walk over a block\<close>

text \<open>Deleted entries: do the records from an offset lead exactly to the end of the live one?\<close>

function ext2fs_validate_entry :: "nat \<Rightarrow> bytes \<Rightarrow> nat \<Rightarrow> nat \<Rightarrow> bool option" where
  "ext2fs_validate_entry blocksize buf offset final_offset =
     (if offset < final_offset \<and> offset + 12 \<le> blocksize then
        do { len \<leftarrow> get16 buf (offset + 4);
             let rec_len = ext2fs_get_rec_len blocksize len
             in if rec_len < 8 \<or> rec_len mod 4 \<noteq> 0 then Some False
                else do { name_len \<leftarrow> get16 buf (offset + 6);
                          if low_len name_len + 8 > rec_len then Some False
                          else ext2fs_validate_entry blocksize buf (offset + rec_len) final_offset } }
      else Some (offset = final_offset))"
  by pat_completeness auto
termination by (relation "measure (\<lambda>(bs, buf, offset, final). final - offset)") auto

declare ext2fs_validate_entry.simps [simp del]

function skip_removed :: "nat \<Rightarrow> bytes \<Rightarrow> nat \<Rightarrow> nat \<Rightarrow> nat option" where
  "skip_removed blocksize buf offset final_offset =
     (if offset < final_offset then
        do { ok \<leftarrow> ext2fs_validate_entry blocksize buf offset final_offset;
             if ok then Some offset else skip_removed blocksize buf (offset + 4) final_offset }
      else Some offset)"
  by pat_completeness auto
termination by (relation "measure (\<lambda>(bs, buf, offset, final). final - offset)") auto

declare skip_removed.simps [simp del]

datatype entry_kind = Dot_file | Dot_dot_file | Other_file | Deleted_file

record dir_flags =
  include_empty :: bool
  include_removed :: bool

text \<open>
  A callback gets the kind and the offset of the entry, the block and its private data, and returns
  whether it changed the entry, whether the walk shall stop, the block and the private data.
\<close>

type_synonym 's dir_func = "entry_kind \<Rightarrow> nat \<Rightarrow> bytes \<Rightarrow> 's \<Rightarrow> (bool \<times> bool \<times> bytes \<times> 's) option"

record 's walk =
  w_offset :: nat
  w_next_real :: nat
  w_entry :: entry_kind
  w_changed :: bool
  w_buf :: bytes
  w_priv :: 's

datatype 's step_result = Corrupted 's | Aborted "'s walk" | Next "'s walk"

definition next_kind :: "entry_kind \<Rightarrow> entry_kind" where
  "next_kind k = (case k of Dot_file \<Rightarrow> Dot_dot_file | _ \<Rightarrow> Other_file)"

text \<open>The checks at the head of the loop, in the order of the code: True if the entry is unusable.\<close>

definition entry_corrupted :: "nat \<Rightarrow> bytes \<Rightarrow> nat \<Rightarrow> nat \<Rightarrow> bool option" where
  "entry_corrupted blocksize buf offset rec_len =
     (if offset + rec_len > blocksize \<or> rec_len < 8 \<or> rec_len mod 4 \<noteq> 0 then Some True
      else map_option (\<lambda>name_len. low_len name_len + 8 > rec_len) (get16 buf (offset + 6)))"

text \<open>The step from an entry with its record length, which the callback may have changed, to the next.\<close>

definition walk_next :: "nat \<Rightarrow> dir_flags \<Rightarrow> 's walk \<Rightarrow> nat \<Rightarrow> 's walk option" where
  "walk_next blocksize flags w rec_len =
     (let w = (if w_next_real w = w_offset w then w\<lparr>w_next_real := w_next_real w + rec_len\<rparr> else w)
      in if include_removed flags then
           do { name_len \<leftarrow> get16 (w_buf w) (w_offset w + 6);
                let size = (low_len name_len + 11) div 4 * 4
                in if rec_len \<noteq> size then
                     map_option (\<lambda>offset. w\<lparr>w_offset := offset\<rparr>)
                       (skip_removed blocksize (w_buf w) (w_offset w + size) (w_offset w + rec_len))
                   else Some (w\<lparr>w_offset := w_offset w + rec_len\<rparr>) }
         else Some (w\<lparr>w_offset := w_offset w + rec_len\<rparr>))"

text \<open>The call of the function on an entry: the result says whether to stop, and the new record length.\<close>

definition walk_call :: "nat \<Rightarrow> 's dir_func \<Rightarrow> 's walk \<Rightarrow> nat \<Rightarrow> (bool \<times> 's walk \<times> nat) option" where
  "walk_call blocksize func w rec_len =
     do { (changed, abort, buf, priv) \<leftarrow>
            func (if w_next_real w > w_offset w then Deleted_file else w_entry w) (w_offset w) (w_buf w) (w_priv w);
          let w' = w\<lparr>w_buf := buf, w_priv := priv, w_entry := next_kind (w_entry w), w_changed := (w_changed w \<or> changed)\<rparr>
          in if changed then
               do { len \<leftarrow> get16 buf (w_offset w + 4); Some (abort, w', ext2fs_get_rec_len blocksize len) }
             else Some (abort, w', rec_len) }"

definition walk_step :: "nat \<Rightarrow> dir_flags \<Rightarrow> 's dir_func \<Rightarrow> 's walk \<Rightarrow> 's step_result option" where
  "walk_step blocksize flags func w =
     do { len \<leftarrow> get16 (w_buf w) (w_offset w + 4);
          let rec_len = ext2fs_get_rec_len blocksize len
          in do { bad \<leftarrow> entry_corrupted blocksize (w_buf w) (w_offset w) rec_len;
                  if bad then Some (Corrupted (w_priv w))
                  else do { inode \<leftarrow> get32 (w_buf w) (w_offset w);
                            if inode = 0 \<and> \<not> include_empty flags
                            then map_option Next (walk_next blocksize flags w rec_len)
                            else do { (abort, w, rec_len) \<leftarrow> walk_call blocksize func w rec_len;
                                      if abort then Some (Aborted w)
                                      else map_option Next (walk_next blocksize flags w rec_len) } } } }"

datatype 's walk_end = Walk_corrupted 's | Walked bool "'s walk"

partial_function (option) dir_walk :: "nat \<Rightarrow> dir_flags \<Rightarrow> 's dir_func \<Rightarrow> 's walk \<Rightarrow> 's walk_end option" where
  "dir_walk blocksize flags func w =
     (if w_offset w < blocksize then
        (case walk_step blocksize flags func w of
           None \<Rightarrow> None
         | Some (Corrupted priv) \<Rightarrow> Some (Walk_corrupted priv)
         | Some (Aborted w) \<Rightarrow> Some (Walked True w)
         | Some (Next w) \<Rightarrow> dir_walk blocksize flags func w)
      else Some (Walked False w))"

section \<open>Blocks on the disk\<close>

text \<open>
  The device: the contents of the blocks, and the error codes of reads and writes.
\<close>

record device =
  contents :: "nat \<Rightarrow> bytes"
  read_error :: "nat \<Rightarrow> errcode"
  write_error :: "nat \<Rightarrow> errcode"

text \<open>
  The check of a block after it is read, on a little-endian machine; \<open>retval\<close> is set anew for every
  entry.
\<close>

function read_check :: "nat \<Rightarrow> bytes \<Rightarrow> nat \<Rightarrow> errcode \<Rightarrow> errcode option" where
  "read_check blocksize buf p retval =
     (if p + 8 < blocksize then
        do { name_len \<leftarrow> get16 buf (p + 6);
             len \<leftarrow> get16 buf (p + 4);
             let rec_len = ext2fs_get_rec_len blocksize len
             in if rec_len < 8 \<or> rec_len mod 4 \<noteq> 0 then read_check blocksize buf (p + 8) EXT2_ET_DIR_CORRUPTED
                else if low_len name_len + 8 > rec_len then read_check blocksize buf (p + rec_len) EXT2_ET_DIR_CORRUPTED
                else read_check blocksize buf (p + rec_len) Success }
      else Some retval)"
  by pat_completeness auto
termination by (relation "measure (\<lambda>(bs, buf, p, retval). bs - p)") auto

declare read_check.simps [simp del]

definition ext2fs_read_dir_block3 :: "nat \<Rightarrow> device \<Rightarrow> nat \<Rightarrow> (errcode \<times> bytes) option" where
  "ext2fs_read_dir_block3 blocksize dev block =
     (if read_error dev block \<noteq> Success then Some (read_error dev block, [])
      else map_option (\<lambda>r. (r, contents dev block)) (read_check blocksize (contents dev block) 0 Success))"

definition ext2fs_write_dir_block3 :: "device \<Rightarrow> nat \<Rightarrow> bytes \<Rightarrow> errcode \<times> device" where
  "ext2fs_write_dir_block3 dev block buf =
     (write_error dev block,
      if write_error dev block = Success then dev\<lparr>contents := (contents dev)(block := buf)\<rparr> else dev)"

text \<open>One block of a directory: whether the iteration stops, the error code, the device, the private data.\<close>

definition ext2fs_process_dir_block ::
  "nat \<Rightarrow> dir_flags \<Rightarrow> 's dir_func \<Rightarrow> nat \<times> int \<Rightarrow> device \<Rightarrow> 's \<Rightarrow> (bool \<times> errcode \<times> device \<times> 's) option" where
  "ext2fs_process_dir_block blocksize flags func blk dev priv =
     (let (blocknr, blockcnt) = blk
      in if blockcnt < 0 then Some (False, Success, dev, priv)
         else do { (err, buf) \<leftarrow> ext2fs_read_dir_block3 blocksize dev blocknr;
                   if err \<noteq> Success then Some (True, err, dev, priv)
                   else do { r \<leftarrow> dir_walk blocksize flags func
                               \<lparr>w_offset = 0, w_next_real = 0, w_entry = (if blockcnt \<noteq> 0 then Other_file else Dot_file),
                                w_changed = False, w_buf = buf, w_priv = priv\<rparr>;
                             case r of
                               Walk_corrupted priv \<Rightarrow> Some (True, EXT2_ET_DIR_CORRUPTED, dev, priv)
                             | Walked abort w \<Rightarrow>
                                 let (err, dev) = (if w_changed w then ext2fs_write_dir_block3 dev blocknr (w_buf w) else (Success, dev))
                                 in Some (abort \<or> err \<noteq> Success, err, dev, w_priv w) } })"

text \<open>
  The iteration over a directory. The traversal of the inode's block map is given as the list of the
  block numbers and counts it visits; \<open>check\<close> is the result of \<open>ext2fs_check_directory\<close>.
\<close>

primrec iterate_blocks ::
  "nat \<Rightarrow> dir_flags \<Rightarrow> 's dir_func \<Rightarrow> (nat \<times> int) list \<Rightarrow> errcode \<Rightarrow> device \<Rightarrow> 's \<Rightarrow> (errcode \<times> device \<times> 's) option" where
  "iterate_blocks blocksize flags func [] errcode dev priv = Some (errcode, dev, priv)"
| "iterate_blocks blocksize flags func (blk # blks) errcode dev priv =
     do { (abort, err, dev, priv) \<leftarrow> ext2fs_process_dir_block blocksize flags func blk dev priv;
          let errcode = (if snd blk < 0 then errcode else err)
          in if abort then Some (errcode, dev, priv) else iterate_blocks blocksize flags func blks errcode dev priv }"

definition ext2fs_dir_iterate ::
  "nat \<Rightarrow> errcode \<Rightarrow> dir_flags \<Rightarrow> 's dir_func \<Rightarrow> (nat \<times> int) list \<Rightarrow> device \<Rightarrow> 's \<Rightarrow> (errcode \<times> device \<times> 's) option" where
  "ext2fs_dir_iterate blocksize check flags func blks dev priv =
     (if check \<noteq> Success then Some (check, dev, priv)
      else iterate_blocks blocksize flags func blks Success dev priv)"

section \<open>New blocks\<close>

text \<open>A block with an empty entry, or with the entries for the directory and its parent.\<close>

definition new_dots :: "nat \<Rightarrow> bool \<Rightarrow> u32 \<Rightarrow> u32 \<Rightarrow> bytes \<Rightarrow> (errcode + bytes) option" where
  "new_dots blocksize filetype dir_ino parent_ino buf =
     (let ft = (if filetype then 0x200 else 0)
      in do { buf \<leftarrow> put buf 0 (bytes32 dir_ino);
              buf \<leftarrow> put buf 6 (bytes16 (1 OR ft));
              buf \<leftarrow> put buf 8 [46];
              buf \<leftarrow> put buf 4 (bytes16 12);
              case ext2fs_set_rec_len blocksize (blocksize - 12) of
                None \<Rightarrow> Some (Inl EINVAL)
              | Some len \<Rightarrow>
                  do { buf \<leftarrow> put buf 16 (bytes16 len);
                       buf \<leftarrow> put buf 12 (bytes32 parent_ino);
                       buf \<leftarrow> put buf 18 (bytes16 (2 OR ft));
                       buf \<leftarrow> put buf 20 [46, 46];
                       Some (Inr buf) } })"

definition ext2fs_new_dir_block :: "nat \<Rightarrow> bool \<Rightarrow> bool \<Rightarrow> u32 \<Rightarrow> u32 \<Rightarrow> (errcode + bytes) option" where
  "ext2fs_new_dir_block blocksize mem filetype dir_ino parent_ino =
     (if \<not> mem then Some (Inl EXT2_ET_NO_MEMORY)
      else case ext2fs_set_rec_len blocksize blocksize of
        None \<Rightarrow> Some (Inl EINVAL)
      | Some len \<Rightarrow>
          do { buf \<leftarrow> put (replicate blocksize 0) 4 (bytes16 len);
               if dir_ino \<noteq> 0 then new_dots blocksize filetype dir_ino parent_ino buf else Some (Inr buf) })"

section \<open>Record lengths and back\<close>

text \<open>The two masks of the code, by their bits.\<close>

definition high_bits :: u32 where "high_bits = 65532"
definition low_bits :: u32 where "low_bits = 3"

lemma bit_high_bits: "bit high_bits n \<longleftrightarrow> 2 \<le> n \<and> n < 16"
proof -
  have "high_bits = push_bit 2 (mask 14)" by (simp add: high_bits_def mask_eq_exp_minus_1 push_bit_eq_mult)
  moreover have "bit (push_bit 2 (mask 14) :: u32) n \<longleftrightarrow> 2 \<le> n \<and> n < 32 \<and> n - 2 < 32 \<and> n - 2 < 14"
    unfolding bit_push_bit_iff bit_mask_iff by simp
  ultimately show ?thesis by auto
qed

lemma bit_low_bits: "bit low_bits n \<longleftrightarrow> n < 2"
proof -
  have "low_bits = mask 2" by (simp add: low_bits_def mask_eq_exp_minus_1)
  moreover have "bit (mask 2 :: u32) n \<longleftrightarrow> n < 32 \<and> n < 2" unfolding bit_mask_iff by simp
  ultimately show ?thesis by auto
qed

lemma rec_len_bits:
  assumes "len < 2 ^ 18" "len mod 4 = 0" "bit (of_nat len :: u32) n"
  shows "2 \<le> n \<and> n < 18"
proof -
  have b: "bit len n" using assms(3) by (simp add: bit_of_nat_iff_bit [symmetric] bit_simps)
  have "take_bit 18 len = len" using assms(1) by (simp add: take_bit_nat_eq_self)
  then have "n < 18" using b by (metis bit_take_bit_iff)
  moreover have "take_bit 2 len = 0" using assms(2) by (simp add: take_bit_eq_mod)
  then have "\<not> n < 2" using b by (metis bit_0_eq bit_take_bit_iff bot_apply bot_bool_def)
  ultimately show ?thesis by simp
qed

lemma rec_len_wide:
  fixes w :: u32
  assumes "\<And>n. bit w n \<Longrightarrow> 2 \<le> n \<and> n < 18"
  shows "(ucast (ucast ((w AND high_bits) OR (drop_bit 16 w AND low_bits)) :: u16) AND high_bits) OR
    push_bit 16 (ucast (ucast ((w AND high_bits) OR (drop_bit 16 w AND low_bits)) :: u16) AND low_bits) = w"
proof (rule bit_word_eqI)
  fix n :: nat
  assume "n < LENGTH(32)"
  then show "bit ((ucast (ucast ((w AND high_bits) OR (drop_bit 16 w AND low_bits)) :: u16) AND high_bits) OR
      push_bit 16 (ucast (ucast ((w AND high_bits) OR (drop_bit 16 w AND low_bits)) :: u16) AND low_bits)) n = bit w n"
    using assms [of n] assms [of "n + 16"] by (cases "n < 16") (auto simp: bit_simps bit_high_bits bit_low_bits)
qed

lemma rec_len_narrow:
  fixes w :: u32
  assumes "\<And>n. bit w n \<Longrightarrow> 2 \<le> n \<and> n < 16"
  shows "(w AND high_bits) OR push_bit 16 (w AND low_bits) = w"
proof (rule bit_word_eqI)
  fix n :: nat
  assume "n < LENGTH(32)"
  then show "bit ((w AND high_bits) OR push_bit 16 (w AND low_bits)) n = bit w n"
    using assms [of n] assms [of "n - 16"] by (auto simp: bit_simps bit_high_bits bit_low_bits)
qed

lemma rec_len_small:
  assumes "len < 65536" "0 < len" "len mod 4 = 0"
  shows "ext2fs_get_rec_len blocksize (of_nat len) = len"
proof (cases "blocksize < 65536")
  case True
  then show ?thesis using assms(1) by (simp add: ext2fs_get_rec_len_def unat_of_nat take_bit_nat_eq_self)
next
  case False
  have u: "unat (of_nat len :: u16) = len" using assms(1) by (simp add: unat_of_nat take_bit_nat_eq_self)
  have w: "(ucast (of_nat len :: u16) :: u32) = of_nat len" using u by (metis of_nat_unat)
  have bits: "2 \<le> n \<and> n < 16" if "bit (of_nat len :: u32) n" for n
  proof -
    have "bit (ucast (of_nat len :: u16) :: u32) n" using that w by simp
    then have "n < 16" by (auto simp: bit_simps)
    then show ?thesis using rec_len_bits [OF _ assms(3) that] assms(1) by simp
  qed
  have "(of_nat len :: u16) \<noteq> 65535" using u assms(3) by (auto dest!: arg_cong [of _ _ unat])
  moreover have "(of_nat len :: u16) \<noteq> 0" using u assms(2) by (auto dest!: arg_cong [of _ _ unat])
  moreover have "(of_nat len AND 65532) OR push_bit 16 (of_nat len AND 3) = (of_nat len :: u32)"
    using rec_len_narrow [of "of_nat len", OF bits] by (simp only: high_bits_def low_bits_def)
  moreover have "unat (of_nat len :: u32) = len" using assms(1) by (simp add: unat_of_nat take_bit_nat_eq_self)
  ultimately show ?thesis using False w by (simp only: ext2fs_get_rec_len_def if_False simp_thms)
qed

text \<open>
  Record lengths survive their 16-bit form: for every block size up to 256 kB, a length that is a
  multiple of four and leaves no space or at least eight bytes after it is read back as it was set.
\<close>

theorem rec_len_roundtrip:
  assumes "blocksize \<le> 2 ^ 18" "0 < len" "len mod 4 = 0" "len = blocksize \<or> len + 8 \<le> blocksize"
  shows "\<exists>r. ext2fs_set_rec_len blocksize len = Some r \<and> ext2fs_get_rec_len blocksize r = len"
proof (cases "len < 65536")
  case True
  then show ?thesis using assms rec_len_small [OF True assms(2,3)] by (auto simp: ext2fs_set_rec_len_def)
next
  case big: False
  show ?thesis
  proof (cases "len = blocksize")
    case True
    then show ?thesis using assms big by (auto simp: ext2fs_set_rec_len_def ext2fs_get_rec_len_def)
  next
    case False
    let ?w = "of_nat len :: u32"
    let ?v = "(?w AND 65532) OR (drop_bit 16 ?w AND 3)"
    have len: "len < 2 ^ 18" "len + 8 \<le> 2 ^ 18" using assms(1,4) False by auto
    have w: "unat ?w = len" using len by (simp add: unat_of_nat take_bit_nat_eq_self)
    have restored: "(ucast (ucast ?v :: u16) AND 65532) OR push_bit 16 (ucast (ucast ?v :: u16) AND 3) = ?w"
      using rec_len_wide [of ?w, OF rec_len_bits [OF len(1) assms(3)]] by (simp only: high_bits_def low_bits_def)
    have no_top: "(ucast ?v :: u16) \<noteq> 65535"
    proof
      assume "(ucast ?v :: u16) = 65535"
      then have "?w = (65535 AND 65532) OR push_bit 16 (65535 AND 3)" using restored by simp
      then have "len = 262140" using w by simp
      then show False using len(2) by simp
    qed
    have no_zero: "(ucast ?v :: u16) \<noteq> 0"
    proof
      assume "(ucast ?v :: u16) = 0"
      then have "?w = 0" using restored by simp
      then show False using w assms(2) by simp
    qed
    have "ext2fs_set_rec_len blocksize len = Some (ucast ?v)"
      using assms big False by (simp only: ext2fs_set_rec_len_def) auto
    moreover have "ext2fs_get_rec_len blocksize (ucast ?v) = len"
      using big False assms(4) no_top no_zero w restored by (simp only: ext2fs_get_rec_len_def) auto
    ultimately show ?thesis by blast
  qed
qed

theorem rec_len_roundtrip_witness:
  "\<exists>r. ext2fs_set_rec_len 131072 100000 = Some r \<and> ext2fs_get_rec_len 131072 r = 100000"
  using rec_len_roundtrip [of 131072 100000] by simp

section \<open>Well-formed blocks\<close>

text \<open>
  An entry with the bytes after its header, the name and the padding up to the next entry. A block is the
  concatenation of the encoded entries.
\<close>

record dirent =
  d_inode :: u32
  d_name_len :: u16
  d_rest :: bytes

definition d_len :: "dirent \<Rightarrow> nat" where
  "d_len d = 8 + length (d_rest d)"

definition d_name :: "dirent \<Rightarrow> bytes" where
  "d_name d = take (low_len (d_name_len d)) (d_rest d)"

definition encode :: "dirent \<Rightarrow> bytes" where
  "encode d = bytes32 (d_inode d) @ bytes16 (of_nat (d_len d)) @ bytes16 (d_name_len d) @ d_rest d"

definition d_valid :: "dirent \<Rightarrow> bool" where
  "d_valid d \<longleftrightarrow> length (d_rest d) mod 4 = 0 \<and> low_len (d_name_len d) \<le> length (d_rest d) \<and> d_len d < 65536"

definition enc :: "dirent list \<Rightarrow> bytes" where
  "enc ds = concat (map encode ds)"

lemma enc_simps [simp]: "enc [] = []" "enc (d # ds) = encode d @ enc ds" "enc (ds @ es) = enc ds @ enc es"
  by (simp_all add: enc_def)

lemma length_encode [simp]: "length (encode d) = d_len d"
  by (simp add: encode_def d_len_def)

lemma d_len_ge: "8 \<le> d_len d"
  by (simp add: d_len_def)

lemma unat_d_len: "d_valid d \<Longrightarrow> unat (of_nat (d_len d) :: u16) = d_len d"
  by (simp add: d_valid_def unat_of_nat take_bit_nat_eq_self)

lemma d_len_mod: "d_valid d \<Longrightarrow> d_len d mod 4 = 0"
  by (simp add: d_valid_def d_len_def) presburger

lemma length_d_name: "d_valid d \<Longrightarrow> length (d_name d) = low_len (d_name_len d)"
  by (simp add: d_valid_def d_name_def)

lemma min_len_le: "d_valid d \<Longrightarrow> EXT2_DIR_REC_LEN (low_len (d_name_len d)) \<le> d_len d"
proof -
  assume v: "d_valid d"
  let ?n = "low_len (d_name_len d)"
  have "(?n + 11) div 4 * 4 \<le> (d_len d + 3) div 4 * 4" using v by (intro mult_le_mono1 div_le_mono) (simp add: d_valid_def d_len_def)
  also have "(d_len d + 3) div 4 * 4 = d_len d" using d_len_mod [OF v] by presburger
  finally show ?thesis by (simp add: EXT2_DIR_REC_LEN_def)
qed

text \<open>Accesses at a distance from the end of a prefix.\<close>

lemma load16_append: "load16 (pre @ xs) (length pre + i) = load16 xs i"
  by (simp add: load16_def nth_append)

lemma load32_append: "load32 (pre @ xs) (length pre + i) = load32 xs i"
  by (simp add: load32_def nth_append)

lemma get_append [simp]:
  "get16 (pre @ xs) (length pre + i) = get16 xs i" "get32 (pre @ xs) (length pre + i) = get32 xs i"
  "get32 (pre @ xs) (length pre) = get32 xs 0"
  "get_bytes (pre @ xs) (length pre + i) n = get_bytes xs i n"
  using load32_append [of pre xs 0] by (simp_all add: get16_def get32_def get_bytes_def load16_append load32_append)

lemma put_append:
  "put (pre @ xs) (length pre + i) ys = map_option ((@) pre) (put xs i ys)"
  "put (pre @ xs) (length pre) ys = map_option ((@) pre) (put xs 0 ys)"
  by (simp_all add: put_def splice_def)

lemma get_encode [simp]:
  "get16 (encode d @ post) 4 = Some (of_nat (d_len d))" "get16 (encode d @ post) 6 = Some (d_name_len d)"
  "get32 (encode d @ post) 0 = Some (d_inode d)"
  by (simp_all add: encode_def get16_def get32_def load16_def load32_def bytes16_def bytes32_def nth_append byte_simps)

lemma get_bytes_encode: "d_valid d \<Longrightarrow> get_bytes (encode d @ post) 8 (low_len (d_name_len d)) = Some (d_name d)"
  by (simp add: get_bytes_def encode_def d_name_def d_valid_def d_len_def bytes16_def bytes32_def)

section \<open>Walks over well-formed blocks\<close>

definition advance :: "'s walk \<Rightarrow> nat \<Rightarrow> 's walk" where
  "advance w rec_len =
     w\<lparr>w_offset := w_offset w + rec_len,
       w_next_real := (if w_next_real w = w_offset w then w_next_real w + rec_len else w_next_real w)\<rparr>"

lemma advance_fields [simp]:
  "w_offset (advance w n) = w_offset w + n" "w_entry (advance w n) = w_entry w" "w_changed (advance w n) = w_changed w"
  "w_buf (advance w n) = w_buf w" "w_priv (advance w n) = w_priv w"
  by (simp_all add: advance_def)

lemma walk_next_plain: "\<not> include_removed flags \<Longrightarrow> walk_next bs flags w n = Some (advance w n)"
  by (simp add: walk_next_def advance_def Let_def)

lemma walk_step_encode:
  assumes "w_buf w = pre @ encode d @ post" "w_offset w = length pre" "d_valid d" "bs < 65536"
    "length (w_buf w) = bs" "\<not> include_removed flags"
  shows "walk_step bs flags func w =
    (if d_inode d = 0 \<and> \<not> include_empty flags then Some (Next (advance w (d_len d)))
     else do { (abort, w, rec_len) \<leftarrow> walk_call bs func w (d_len d);
               Some (if abort then Aborted w else Next (advance w rec_len)) })"
proof -
  have len: "ext2fs_get_rec_len bs (of_nat (d_len d)) = d_len d"
    using assms(3,4) by (simp add: ext2fs_get_rec_len_def unat_d_len)
  have "length pre + d_len d \<le> bs" using assms(1,5) by auto
  then have ok: "entry_corrupted bs (w_buf w) (w_offset w) (d_len d) = Some False"
    using assms(1-3) d_len_ge [of d] d_len_mod [OF assms(3)] by (auto simp: entry_corrupted_def d_valid_def d_len_def)
  have "get16 (w_buf w) (w_offset w + 4) = Some (of_nat (d_len d))" "get32 (w_buf w) (w_offset w) = Some (d_inode d)"
    using assms(1,2) by simp_all
  then have "walk_step bs flags func w =
      (if d_inode d = 0 \<and> \<not> include_empty flags then map_option Next (walk_next bs flags w (d_len d))
       else do { (abort, w, rec_len) \<leftarrow> walk_call bs func w (d_len d);
                 if abort then Some (Aborted w) else map_option Next (walk_next bs flags w rec_len) })"
    using len ok by (simp add: walk_step_def Let_def)
  also have "... = (if d_inode d = 0 \<and> \<not> include_empty flags then Some (Next (advance w (d_len d)))
     else do { (abort, w, rec_len) \<leftarrow> walk_call bs func w (d_len d);
               Some (if abort then Aborted w else Next (advance w rec_len)) })"
    by (cases "walk_call bs func w (d_len d)") (auto simp: walk_next_plain [OF assms(6)])
  finally show ?thesis .
qed

text \<open>A well-formed block passes the check after reading, even with up to eight bytes that are no entry.\<close>

lemma read_check_enc:
  assumes "list_all d_valid ds" "length (pre @ enc ds @ post) = bs" "bs < 65536" "length post \<le> 8"
  shows "read_check bs (pre @ enc ds @ post) (length pre) Success = Some Success"
  using assms
proof (induction ds arbitrary: pre)
  case Nil
  then show ?case by (simp add: read_check.simps [of bs "pre @ post"])
next
  case (Cons d ds)
  have v: "d_valid d" using Cons.prems(1) by simp
  have len: "ext2fs_get_rec_len bs (of_nat (d_len d)) = d_len d"
    using v Cons.prems(3) by (simp add: ext2fs_get_rec_len_def unat_d_len)
  show ?case
  proof (cases "length pre + 8 < bs")
    case False
    then show ?thesis by (simp add: read_check.simps [of bs _ "length pre"])
  next
    case True
    have "read_check bs (pre @ enc (d # ds) @ post) (length pre) Success =
        read_check bs (pre @ enc (d # ds) @ post) (length pre + d_len d) Success"
      using True len d_len_ge [of d] d_len_mod [OF v] v
      by (simp add: read_check.simps [of bs _ "length pre"] d_valid_def d_len_def)
    also have "... = Some Success" using Cons.IH [of "pre @ encode d"] Cons.prems by simp
    finally show ?thesis .
  qed
qed

lemmas read_check_block = read_check_enc [where pre = "[]", simplified]

end
