(* ===== verification/Directory.thy ===== *)
theory Directory
  imports Dir_Block
begin

text \<open>
  Names in directories, \<open>external/e2fsprogs/lib/ext2fs/link.c\<close>, \<open>unlink.c\<close> and \<open>lookup.c\<close>: callbacks for the
  walk over directory blocks that add, remove and find an entry. A well-formed block is the
  concatenation of its encoded entries, and the operations are described by what they do to the list of
  the entries in use.
\<close>

section \<open>Operations\<close>

text \<open>\<open>strncmp (a, b, n) == 0\<close> for strings whose lists of characters end before the terminating zero.\<close>

fun strncmp_eq :: "nat \<Rightarrow> bytes \<Rightarrow> bytes \<Rightarrow> bool" where
  "strncmp_eq 0 a b = True"
| "strncmp_eq (Suc n) a b =
     (let x = (if a = [] then 0 else hd a); y = (if b = [] then 0 else hd b)
      in if x \<noteq> y then False else if x = 0 then True else strncmp_eq n (tl a) (tl b))"

record lookup_struct =
  lk_name :: bytes
  lk_inode :: u32
  lk_found :: bool

definition lookup_proc :: "lookup_struct dir_func" where
  "lookup_proc kind offset buf ls =
     do { name_len \<leftarrow> get16 buf (offset + 6);
          if length (lk_name ls) \<noteq> low_len name_len then Some (False, False, buf, ls)
          else do { name \<leftarrow> get_bytes buf (offset + 8) (low_len name_len);
                    if \<not> strncmp_eq (low_len name_len) (lk_name ls) name then Some (False, False, buf, ls)
                    else do { inode \<leftarrow> get32 buf offset;
                              Some (False, True, buf, ls\<lparr>lk_inode := inode, lk_found := True\<rparr>) } } }"

definition ext2fs_lookup :: "nat \<Rightarrow> errcode \<Rightarrow> (nat \<times> int) list \<Rightarrow> device \<Rightarrow> bytes \<Rightarrow> (errcode + u32) option" where
  "ext2fs_lookup blocksize check blks dev name =
     do { (err, dev, ls) \<leftarrow> ext2fs_dir_iterate blocksize check \<lparr>include_empty = False, include_removed = False\<rparr>
            lookup_proc blks dev \<lparr>lk_name = name, lk_inode = 0, lk_found = False\<rparr>;
          Some (if err \<noteq> Success then Inl err else if lk_found ls then Inr (lk_inode ls) else Inl EXT2_ET_FILE_NOT_FOUND) }"

record unlink_struct =
  ul_name :: "bytes option"
  ul_inode :: u32
  ul_prev :: "nat option"
  ul_done :: bool

text \<open>The tests of \<open>unlink_proc\<close>: the name, if one is given, and the inode.\<close>

definition unlink_matches :: "nat \<Rightarrow> bytes \<Rightarrow> unlink_struct \<Rightarrow> bool option" where
  "unlink_matches offset buf ls =
     do { same \<leftarrow> (case ul_name ls of
            None \<Rightarrow> Some True
          | Some name \<Rightarrow>
              do { name_len \<leftarrow> get16 buf (offset + 6);
                   if low_len name_len \<noteq> length name then Some False
                   else do { s \<leftarrow> get_bytes buf (offset + 8) (low_len name_len);
                             Some (strncmp_eq (low_len name_len) name s) } });
          inode \<leftarrow> get32 buf offset;
          Some (same \<and> (if ul_inode ls \<noteq> 0 then inode = ul_inode ls else inode \<noteq> 0)) }"

definition unlink_proc :: "unlink_struct dir_func" where
  "unlink_proc kind offset buf ls =
     do { hit \<leftarrow> unlink_matches offset buf ls;
          let prev = ul_prev ls; ls = ls\<lparr>ul_prev := Some offset\<rparr>
          in if \<not> hit then Some (False, False, buf, ls)
             else if offset \<noteq> 0 then
               do { prev \<leftarrow> prev;
                    plen \<leftarrow> get16 buf (prev + 4);
                    len \<leftarrow> get16 buf (offset + 4);
                    buf \<leftarrow> put buf (prev + 4) (bytes16 (plen + len));
                    Some (True, True, buf, ls\<lparr>ul_done := True\<rparr>) }
             else do { buf \<leftarrow> put buf offset (bytes32 0); Some (True, True, buf, ls\<lparr>ul_done := True\<rparr>) } }"

definition ext2fs_unlink ::
  "nat \<Rightarrow> bool \<Rightarrow> errcode \<Rightarrow> (nat \<times> int) list \<Rightarrow> device \<Rightarrow> bytes option \<Rightarrow> u32 \<Rightarrow> (errcode \<times> device) option" where
  "ext2fs_unlink blocksize rw check blks dev name ino =
     (if name = None \<and> ino = 0 then Some (EXT2_ET_INVALID_ARGUMENT, dev)
      else if \<not> rw then Some (EXT2_ET_RO_FILSYS, dev)
      else do { (err, dev, ls) \<leftarrow> ext2fs_dir_iterate blocksize check \<lparr>include_empty = True, include_removed = False\<rparr>
                  unlink_proc blks dev \<lparr>ul_name = name, ul_inode = ino, ul_prev = None, ul_done = False\<rparr>;
                Some (if err \<noteq> Success then err else if ul_done ls then Success else EXT2_ET_DIR_NO_SPACE, dev) })"

record link_struct =
  ln_name :: bytes
  ln_inode :: u32
  ln_flags :: nat
  ln_done :: bool
  ln_err :: errcode
  ln_filetype :: bool

text \<open>
  Absorbing an unused next entry. The record length of the next entry is used as it stands. The result
  is the error \<open>EINVAL\<close>, or the record length, whether the entry changed and the block.
\<close>

definition link_absorb :: "nat \<Rightarrow> nat \<Rightarrow> bytes \<Rightarrow> nat \<Rightarrow> (errcode + nat \<times> bool \<times> bytes) option" where
  "link_absorb blocksize offset buf curr_rec_len =
     (if offset + curr_rec_len + 8 < blocksize then
        do { inode \<leftarrow> get32 buf (offset + curr_rec_len);
             if inode = 0 then
               do { len \<leftarrow> get16 buf (offset + curr_rec_len + 4);
                    if offset + curr_rec_len + unat len \<le> blocksize then
                      case ext2fs_set_rec_len blocksize (curr_rec_len + unat len) of
                        None \<Rightarrow> Some (Inl EINVAL)
                      | Some r \<Rightarrow> do { buf \<leftarrow> put buf (offset + 4) (bytes16 r); Some (Inr (curr_rec_len + unat len, True, buf)) }
                    else Some (Inr (curr_rec_len, False, buf)) }
             else Some (Inr (curr_rec_len, False, buf)) }
      else Some (Inr (curr_rec_len, False, buf)))"

text \<open>Splitting an entry in use, to the minimal length for its name; False if a length is refused.\<close>

definition link_split :: "nat \<Rightarrow> nat \<Rightarrow> bytes \<Rightarrow> nat \<Rightarrow> nat \<Rightarrow> (bool \<times> bytes) option" where
  "link_split blocksize offset buf curr_rec_len min_rec_len =
     (case ext2fs_set_rec_len blocksize min_rec_len of
        None \<Rightarrow> Some (False, buf)
      | Some r \<Rightarrow>
          do { buf \<leftarrow> put buf (offset + 4) (bytes16 r);
               let at = offset + unat r
               in do { buf \<leftarrow> put buf at (bytes32 0);
                       buf \<leftarrow> put buf (at + 6) (bytes16 0);
                       case ext2fs_set_rec_len blocksize (curr_rec_len - min_rec_len) of
                         None \<Rightarrow> Some (False, buf)
                       | Some r \<Rightarrow> do { buf \<leftarrow> put buf (at + 4) (bytes16 r); Some (True, buf) } } })"

text \<open>The name length of the new entry is cut to 16 bits; its high byte takes the file type.\<close>

definition link_name_len :: "link_struct \<Rightarrow> u16" where
  "link_name_len ls =
     (let n = of_nat (length (ln_name ls))
      in if ln_filetype ls then n OR push_bit 8 (of_nat (ln_flags ls) AND 7) else n)"

definition link_fill :: "nat \<Rightarrow> bytes \<Rightarrow> link_struct \<Rightarrow> bytes option" where
  "link_fill offset buf ls =
     do { buf \<leftarrow> put buf offset (bytes32 (ln_inode ls));
          buf \<leftarrow> put buf (offset + 6) (bytes16 (link_name_len ls));
          put buf (offset + 8) (ln_name ls) }"

definition link_proc :: "nat \<Rightarrow> link_struct dir_func" where
  "link_proc blocksize kind offset buf ls =
     (if ln_done ls then Some (False, True, buf, ls)
      else
        let rec_len = EXT2_DIR_REC_LEN (length (ln_name ls))
        in do { len \<leftarrow> get16 buf (offset + 4);
                r \<leftarrow> link_absorb blocksize offset buf (ext2fs_get_rec_len blocksize len);
                case r of
                  Inl err \<Rightarrow> Some (False, True, buf, ls\<lparr>ln_err := err\<rparr>)
                | Inr (curr_rec_len, changed, buf) \<Rightarrow>
                    do { inode \<leftarrow> get32 buf offset;
                         if inode \<noteq> 0 then
                           do { name_len \<leftarrow> get16 buf (offset + 6);
                                let min_rec_len = EXT2_DIR_REC_LEN (low_len name_len)
                                in if curr_rec_len < min_rec_len + rec_len then Some (changed, False, buf, ls)
                                   else do { (ok, buf) \<leftarrow> link_split blocksize offset buf curr_rec_len min_rec_len;
                                             if ok then Some (True, False, buf, ls)
                                             else Some (False, True, buf, ls\<lparr>ln_err := EINVAL\<rparr>) } }
                         else if curr_rec_len < rec_len then Some (changed, False, buf, ls)
                         else do { buf \<leftarrow> link_fill offset buf ls;
                                   Some (True, True, buf, ls\<lparr>ln_done := True\<rparr>) } } })"

text \<open>
  \<open>inode_io\<close> is the result of reading the directory's inode and, if the index flag must be cleared, of
  writing it.
\<close>

definition ext2fs_link ::
  "nat \<Rightarrow> bool \<Rightarrow> bool \<Rightarrow> errcode \<Rightarrow> errcode \<Rightarrow> (nat \<times> int) list \<Rightarrow> device \<Rightarrow> bytes \<Rightarrow> u32 \<Rightarrow> nat \<Rightarrow> (errcode \<times> device) option" where
  "ext2fs_link blocksize rw filetype check inode_io blks dev name ino flags =
     (if \<not> rw then Some (EXT2_ET_RO_FILSYS, dev)
      else do { (err, dev, ls) \<leftarrow> ext2fs_dir_iterate blocksize check \<lparr>include_empty = True, include_removed = False\<rparr>
                  (link_proc blocksize) blks dev
                  \<lparr>ln_name = name, ln_inode = ino, ln_flags = flags, ln_done = False, ln_err = Success, ln_filetype = filetype\<rparr>;
                Some (if err \<noteq> Success then err
                      else if ln_err ls \<noteq> Success then ln_err ls
                      else if \<not> ln_done ls then EXT2_ET_DIR_NO_SPACE
                      else inode_io, dev) })"

section \<open>Lookup\<close>

lemma strncmp_eq_iff: "0 \<notin> set a \<Longrightarrow> length a = n \<Longrightarrow> length b = n \<Longrightarrow> strncmp_eq n a b \<longleftrightarrow> a = b"
proof (induction n arbitrary: a b)
  case 0
  then show ?case by simp
next
  case (Suc n)
  then obtain x a' y b' where "a = x # a'" "b = y # b'" by (metis length_Suc_conv)
  then show ?case using Suc by auto
qed

definition plain :: "bool \<Rightarrow> dir_flags" where
  "plain b = \<lparr>include_empty = b, include_removed = False\<rparr>"

lemma plain_simps [simp]: "include_empty (plain b) = b" "\<not> include_removed (plain b)"
  by (simp_all add: plain_def)

definition named :: "bytes \<Rightarrow> dirent \<Rightarrow> bool" where
  "named name d \<longleftrightarrow> d_inode d \<noteq> 0 \<and> d_name d = name"

text \<open>The position of a walk in a block, with the entries before it and those to come.\<close>

definition at :: "nat \<Rightarrow> 's walk \<Rightarrow> bytes \<Rightarrow> dirent list \<Rightarrow> bytes \<Rightarrow> bool" where
  "at bs w pre ds post \<longleftrightarrow> w_buf w = pre @ enc ds @ post \<and> w_offset w = length pre \<and> list_all d_valid ds \<and>
     length (pre @ enc ds @ post) = bs \<and> bs < 65536"

lemma at_step:
  assumes "at bs w pre (d # ds) post"
  shows "dir_walk bs (plain b) func w =
    (if d_inode d = 0 \<and> \<not> b then dir_walk bs (plain b) func (advance w (d_len d))
     else case walk_call bs func w (d_len d) of
       None \<Rightarrow> None
     | Some (abort, w', rec_len) \<Rightarrow>
         if abort then Some (Walked True w') else dir_walk bs (plain b) func (advance w' rec_len))"
proof -
  have "w_offset w < bs" using assms d_len_ge [of d] by (auto simp: at_def)
  moreover have "walk_step bs (plain b) func w =
      (if d_inode d = 0 \<and> \<not> b then Some (Next (advance w (d_len d)))
       else do { (abort, w, rec_len) \<leftarrow> walk_call bs func w (d_len d);
                 Some (if abort then Aborted w else Next (advance w rec_len)) })"
    using walk_step_encode [of w pre d "enc ds @ post" bs "plain b" func] assms by (auto simp: at_def)
  ultimately show ?thesis
    by (subst dir_walk.simps) (cases "walk_call bs func w (d_len d)"; auto split: if_splits)
qed

lemma at_end: "at bs w pre [] [] \<Longrightarrow> dir_walk bs flags func w = Some (Walked False w)"
  by (subst dir_walk.simps) (auto simp: at_def)

lemma at_advance:
  "at bs w pre (d # ds) post \<Longrightarrow> w_buf w' = w_buf w \<Longrightarrow> w_offset w' = w_offset w \<Longrightarrow>
    at bs (advance w' (d_len d)) (pre @ encode d) ds post"
  by (simp add: at_def)

lemma lookup_call:
  assumes "at bs w pre (d # ds) post" "0 \<notin> set (lk_name (w_priv w))"
  shows "\<exists>w'. walk_call bs lookup_proc w (d_len d) = Some (d_name d = lk_name (w_priv w), w', d_len d) \<and>
    w_buf w' = w_buf w \<and> w_offset w' = w_offset w \<and> w_changed w' = w_changed w \<and>
    w_priv w' = (if d_name d = lk_name (w_priv w) then (w_priv w)\<lparr>lk_inode := d_inode d, lk_found := True\<rparr> else w_priv w)"
proof -
  have v: "d_valid d" and buf: "w_buf w = pre @ encode d @ enc ds @ post" and off: "w_offset w = length pre"
    using assms(1) by (auto simp: at_def)
  have eq: "strncmp_eq (low_len (d_name_len d)) (lk_name (w_priv w)) (d_name d) \<longleftrightarrow> d_name d = lk_name (w_priv w)"
    if "length (lk_name (w_priv w)) = low_len (d_name_len d)"
    using strncmp_eq_iff [OF assms(2) that] length_d_name [OF v] by auto
  have "length (lk_name (w_priv w)) \<noteq> low_len (d_name_len d) \<Longrightarrow> d_name d \<noteq> lk_name (w_priv w)"
    using length_d_name [OF v] by auto
  then show ?thesis
    using buf off eq get_bytes_encode [OF v, of "enc ds @ post"]
    by (cases "length (lk_name (w_priv w)) = low_len (d_name_len d)")
      (simp_all add: walk_call_def lookup_proc_def Let_def)
qed

text \<open>The walk passes over entries that are not in use or have other names, and stops at the first hit.\<close>

lemma lookup_walk:
  assumes "at bs w pre ds post" "0 \<notin> set (lk_name (w_priv w))"
  shows "case find (named (lk_name (w_priv w))) ds of
      Some d \<Rightarrow> \<exists>w'. dir_walk bs (plain False) lookup_proc w = Some (Walked True w') \<and> w_changed w' = w_changed w \<and>
        w_priv w' = (w_priv w)\<lparr>lk_inode := d_inode d, lk_found := True\<rparr>
    | None \<Rightarrow> \<exists>w'. dir_walk bs (plain False) lookup_proc w = dir_walk bs (plain False) lookup_proc w' \<and>
        at bs w' (pre @ enc ds) [] post \<and> w_changed w' = w_changed w \<and> w_priv w' = w_priv w"
  using assms
proof (induction ds arbitrary: pre w)
  case Nil
  then show ?case by auto
next
  case (Cons d ds)
  let ?name = "lk_name (w_priv w)"
  have run: "\<exists>w'. dir_walk bs (plain False) lookup_proc w =
        (if named ?name d then Some (Walked True w') else dir_walk bs (plain False) lookup_proc (advance w' (d_len d))) \<and>
      w_buf w' = w_buf w \<and> w_offset w' = w_offset w \<and> w_changed w' = w_changed w \<and>
      w_priv w' = (if named ?name d then (w_priv w)\<lparr>lk_inode := d_inode d, lk_found := True\<rparr> else w_priv w)"
  proof (cases "d_inode d = 0")
    case True
    then show ?thesis using at_step [OF Cons.prems(1), of False lookup_proc] by (auto simp: named_def)
  next
    case False
    then show ?thesis
      using at_step [OF Cons.prems(1), of False lookup_proc] lookup_call [OF Cons.prems] by (auto simp: named_def)
  qed
  show ?case
  proof (cases "named ?name d")
    case True
    then show ?thesis using run by auto
  next
    case False
    then obtain w' where w': "dir_walk bs (plain False) lookup_proc w = dir_walk bs (plain False) lookup_proc (advance w' (d_len d))"
        "w_buf w' = w_buf w" "w_offset w' = w_offset w" "w_changed w' = w_changed w" "w_priv w' = w_priv w"
      using run by auto
    from Cons.IH [OF at_advance [OF Cons.prems(1) w'(2,3)]] show ?thesis
      using False w' Cons.prems(2) by (simp split: option.splits)
  qed
qed

section \<open>Directories\<close>

text \<open>A block of the directory holds a list of entries and can be read and written.\<close>

definition block_holds :: "nat \<Rightarrow> device \<Rightarrow> nat \<Rightarrow> dirent list \<Rightarrow> bool" where
  "block_holds bs dev b ds \<longleftrightarrow> contents dev b = enc ds \<and> length (enc ds) = bs \<and> bs < 65536 \<and> list_all d_valid ds \<and>
     read_error dev b = Success \<and> write_error dev b = Success"

text \<open>The blocks that an iteration visits, those of the block map itself (with a negative count) aside.\<close>

primrec dir_holds :: "nat \<Rightarrow> device \<Rightarrow> (nat \<times> int) list \<Rightarrow> dirent list list \<Rightarrow> bool" where
  "dir_holds bs dev [] dss \<longleftrightarrow> dss = []"
| "dir_holds bs dev (blk # blks) dss \<longleftrightarrow>
     (if snd blk < 0 then dir_holds bs dev blks dss
      else (\<exists>ds rest. dss = ds # rest \<and> block_holds bs dev (fst blk) ds \<and> dir_holds bs dev blks rest))"

lemma read_block: "block_holds bs dev b ds \<Longrightarrow> ext2fs_read_dir_block3 bs dev b = Some (Success, enc ds)"
  using read_check_block [of ds "[]" bs] by (simp add: block_holds_def ext2fs_read_dir_block3_def)

definition walk_start :: "int \<Rightarrow> bytes \<Rightarrow> 's \<Rightarrow> 's walk" where
  "walk_start c buf priv = \<lparr>w_offset = 0, w_next_real = 0, w_entry = (if c \<noteq> 0 then Other_file else Dot_file),
     w_changed = False, w_buf = buf, w_priv = priv\<rparr>"

lemma walk_start_fields [simp]:
  "w_priv (walk_start c buf priv) = priv" "w_changed (walk_start c buf priv) = False" "w_buf (walk_start c buf priv) = buf"
  "w_offset (walk_start c buf priv) = 0"
  by (simp_all add: walk_start_def)

lemma walk_start_at: "block_holds bs dev b ds \<Longrightarrow> at bs (walk_start c (enc ds) priv) [] ds []"
  by (simp add: block_holds_def at_def)

lemma process_block:
  assumes "block_holds bs dev b ds" "0 \<le> c" "dir_walk bs flags func (walk_start c (enc ds) priv) = Some (Walked abort w)"
  shows "ext2fs_process_dir_block bs flags func (b, c) dev priv =
    Some (abort, Success, if w_changed w then dev\<lparr>contents := (contents dev)(b := w_buf w)\<rparr> else dev, w_priv w)"
  using assms read_block [OF assms(1)]
  by (simp add: ext2fs_process_dir_block_def walk_start_def block_holds_def ext2fs_write_dir_block3_def Let_def)

lemma find_append: "find P (xs @ ys) = (case find P xs of None \<Rightarrow> find P ys | Some x \<Rightarrow> Some x)"
  by (induction xs) simp_all

lemma iterate_lookup:
  assumes "dir_holds bs dev blks dss" "0 \<notin> set (lk_name ls)"
  shows "iterate_blocks bs (plain False) lookup_proc blks Success dev ls =
    Some (Success, dev, case find (named (lk_name ls)) (concat dss) of
      Some d \<Rightarrow> ls\<lparr>lk_inode := d_inode d, lk_found := True\<rparr> | None \<Rightarrow> ls)"
  using assms(1)
proof (induction blks arbitrary: dss)
  case Nil
  then show ?case by simp
next
  case (Cons blk blks)
  obtain b c where blk: "blk = (b, c)" by (cases blk)
  show ?case
  proof (cases "c < 0")
    case True
    then show ?thesis using Cons blk by (simp add: ext2fs_process_dir_block_def)
  next
    case False
    then obtain ds rest where ds: "dss = ds # rest" "block_holds bs dev b ds" "dir_holds bs dev blks rest"
      using Cons.prems blk by auto
    note walk = lookup_walk [OF walk_start_at [OF ds(2), of c ls]]
    show ?thesis
    proof (cases "find (named (lk_name ls)) ds")
      case None
      then obtain w' where w': "dir_walk bs (plain False) lookup_proc (walk_start c (enc ds) ls) = dir_walk bs (plain False) lookup_proc w'"
          "at bs w' (enc ds) [] []" "\<not> w_changed w'" "w_priv w' = ls"
        using walk assms(2) by auto
      have "ext2fs_process_dir_block bs (plain False) lookup_proc (b, c) dev ls = Some (False, Success, dev, ls)"
        using process_block [OF ds(2), of c "plain False" lookup_proc ls False w'] False w' at_end [OF w'(2)] by simp
      moreover have "find (named (lk_name ls)) (ds @ concat rest) = find (named (lk_name ls)) (concat rest)"
        using None by (simp add: find_append)
      ultimately show ?thesis using Cons.IH [OF ds(3)] False blk ds(1) by simp
    next
      case (Some d)
      then obtain w' where w': "dir_walk bs (plain False) lookup_proc (walk_start c (enc ds) ls) = Some (Walked True w')"
          "\<not> w_changed w'" "w_priv w' = ls\<lparr>lk_inode := d_inode d, lk_found := True\<rparr>"
        using walk assms(2) by auto
      have "ext2fs_process_dir_block bs (plain False) lookup_proc (b, c) dev ls = Some (True, Success, dev, w_priv w')"
        using process_block [OF ds(2) _ w'(1)] False w'(2) by simp
      then show ?thesis using Some False blk ds(1) w'(3) by (simp add: find_append)
    qed
  qed
qed

text \<open>What a lookup returns, in terms of the entries of the directory.\<close>

lemma lookup_entries:
  assumes "dir_holds bs dev blks dss" "0 \<notin> set name"
  shows "ext2fs_lookup bs Success blks dev name =
    Some (case find (named name) (concat dss) of Some d \<Rightarrow> Inr (d_inode d) | None \<Rightarrow> Inl EXT2_ET_FILE_NOT_FOUND)"
  using iterate_lookup [OF assms(1), of "\<lparr>lk_name = name, lk_inode = 0, lk_found = False\<rparr>"] assms(2)
  by (simp add: ext2fs_lookup_def ext2fs_dir_iterate_def plain_def split: option.split)

text \<open>
  C35. The walk reads past its buffer: a block whose entries end four bytes before its end passes
  \<open>ext2fs_read_dir_block3\<close>, but a lookup of a name it does not hold then reads the record length of an
  entry at that place, beyond the end of the block.
\<close>

theorem lookup_reads_past_block:
  assumes "contents dev b = enc ds @ tail" "length tail = 4" "list_all d_valid ds" "length (enc ds) + 4 = bs" "bs < 65536"
    "read_error dev b = Success" "0 \<le> c" "0 \<notin> set name" "find (named name) ds = None"
  shows "ext2fs_read_dir_block3 bs dev b = Some (Success, contents dev b) \<and> ext2fs_lookup bs Success [(b, c)] dev name = None"
proof -
  let ?ls = "\<lparr>lk_name = name, lk_inode = 0, lk_found = False\<rparr>"
  let ?w = "walk_start c (enc ds @ tail) ?ls"
  have read: "ext2fs_read_dir_block3 bs dev b = Some (Success, contents dev b)"
    using read_check_block [of ds tail bs] assms by (simp add: ext2fs_read_dir_block3_def)
  have "at bs ?w [] ds tail" using assms by (simp add: at_def)
  from lookup_walk [OF this] obtain w' where w': "dir_walk bs (plain False) lookup_proc ?w = dir_walk bs (plain False) lookup_proc w'"
      "at bs w' (enc ds) [] tail"
    using assms(8,9) by auto
  have "get16 (w_buf w') (w_offset w' + 4) = None" "w_offset w' < bs" using w'(2) assms(2,4) by (auto simp: at_def get16_def)
  then have "dir_walk bs (plain False) lookup_proc w' = None" by (subst dir_walk.simps) (simp add: walk_step_def)
  then have "ext2fs_process_dir_block bs (plain False) lookup_proc (b, c) dev ?ls = None"
    using read w'(1) assms(1,7) by (simp add: ext2fs_process_dir_block_def walk_start_def)
  then show ?thesis using read by (simp add: ext2fs_lookup_def ext2fs_dir_iterate_def plain_def)
qed

definition dev_with :: "nat \<Rightarrow> bytes \<Rightarrow> device" where
  "dev_with b bytes = \<lparr>contents = (\<lambda>_. [])(b := bytes), read_error = (\<lambda>_. Success), write_error = (\<lambda>_. Success)\<rparr>"

definition empty_entry :: "nat \<Rightarrow> dirent" where
  "empty_entry n = \<lparr>d_inode = 0, d_name_len = 0, d_rest = replicate (n - 8) 0\<rparr>"

lemma empty_entry_ok: "8 \<le> n \<Longrightarrow> n mod 4 = 0 \<Longrightarrow> n < 65536 \<Longrightarrow> d_valid (empty_entry n) \<and> d_len (empty_entry n) = n"
proof -
  assume n: "8 \<le> n" "n mod 4 = 0" "n < 65536"
  then have "(n - 8) mod 4 = 0" by presburger
  then show ?thesis using n by (simp add: empty_entry_def d_valid_def d_len_def low_len_def)
qed

theorem lookup_reads_past_block_witness:
  "ext2fs_lookup 1024 Success [(7, 0)] (dev_with 7 (enc [empty_entry 1020] @ [0, 0, 0, 0])) [97] = None"
  using lookup_reads_past_block [of "dev_with 7 (enc [empty_entry 1020] @ [0, 0, 0, 0])" 7 "[empty_entry 1020]" "[0, 0, 0, 0]" 1024 0 "[97]"]
    empty_entry_ok [of 1020]
  by (simp add: dev_with_def named_def empty_entry_def)

section \<open>Unlink\<close>

text \<open>An entry that takes in the bytes of the next one.\<close>

definition absorb :: "dirent \<Rightarrow> dirent \<Rightarrow> dirent" where
  "absorb p d = p\<lparr>d_rest := d_rest p @ encode d\<rparr>"

lemma absorb_fields [simp]:
  "d_inode (absorb p d) = d_inode p" "d_name_len (absorb p d) = d_name_len p" "d_len (absorb p d) = d_len p + d_len d"
  by (simp_all add: absorb_def d_len_def)

lemma absorb_valid: "d_valid p \<Longrightarrow> d_valid d \<Longrightarrow> d_len p + d_len d < 65536 \<Longrightarrow> d_valid (absorb p d)"
  using d_len_mod [of d] by (auto simp: d_valid_def absorb_def d_len_def)

lemma absorb_name: "d_valid p \<Longrightarrow> d_name (absorb p d) = d_name p"
  by (simp add: d_name_def absorb_def d_valid_def)

lemma put_rec_len:
  "put (encode p @ xs) 4 (bytes16 r) = Some (bytes32 (d_inode p) @ bytes16 r @ bytes16 (d_name_len p) @ d_rest p @ xs)"
  by (simp add: put_def encode_def splice_def d_len_def bytes16_def bytes32_def)

lemma put_absorb:
  "put (pre @ encode p @ encode d @ xs) (length pre + 4) (bytes16 (of_nat (d_len p + d_len d))) = Some (pre @ encode (absorb p d) @ xs)"
  using put_rec_len [of p "encode d @ xs"] by (simp add: put_append encode_def absorb_def d_len_def)

lemma put_inode:
  "put (pre @ encode d @ xs) (length pre) (bytes32 i) = Some (pre @ encode (d\<lparr>d_inode := i\<rparr>) @ xs)"
  by (simp add: put_append) (simp add: put_def encode_def splice_def d_len_def bytes16_def bytes32_def)

definition unlink_hit :: "bytes option \<Rightarrow> u32 \<Rightarrow> dirent \<Rightarrow> bool" where
  "unlink_hit name ino d \<longleftrightarrow> (case name of None \<Rightarrow> True | Some n \<Rightarrow> d_name d = n) \<and>
     (if ino \<noteq> 0 then d_inode d = ino else d_inode d \<noteq> 0)"

definition name_ok :: "bytes option \<Rightarrow> bool" where
  "name_ok name \<longleftrightarrow> (case name of None \<Rightarrow> True | Some n \<Rightarrow> 0 \<notin> set n)"

lemma unlink_matches_entry:
  assumes "at bs w pre (d # ds) post" "name_ok (ul_name ls)"
  shows "unlink_matches (w_offset w) (w_buf w) ls = Some (unlink_hit (ul_name ls) (ul_inode ls) d)"
proof -
  have v: "d_valid d" and buf: "w_buf w = pre @ encode d @ enc ds @ post" and off: "w_offset w = length pre"
    using assms(1) by (auto simp: at_def)
  show ?thesis
  proof (cases "ul_name ls")
    case None
    then show ?thesis using buf off by (simp add: unlink_matches_def unlink_hit_def)
  next
    case (Some n)
    have "strncmp_eq (low_len (d_name_len d)) n (d_name d) \<longleftrightarrow> d_name d = n" if "low_len (d_name_len d) = length n"
      using strncmp_eq_iff [of n "low_len (d_name_len d)" "d_name d"] length_d_name [OF v] that assms(2) Some
      by (auto simp: name_ok_def)
    moreover have "low_len (d_name_len d) \<noteq> length n \<Longrightarrow> d_name d \<noteq> n" using length_d_name [OF v] by auto
    ultimately show ?thesis
      using buf off Some get_bytes_encode [OF v, of "enc ds @ post"]
      by (cases "low_len (d_name_len d) = length n") (simp_all add: unlink_matches_def unlink_hit_def)
  qed
qed

text \<open>The list of the entries after the first hit is removed, given the entry before; None without one.\<close>

primrec unlink_from :: "(dirent \<Rightarrow> bool) \<Rightarrow> dirent \<Rightarrow> dirent list \<Rightarrow> dirent list option" where
  "unlink_from hit p [] = None"
| "unlink_from hit p (d # ds) =
     (if hit d then Some (absorb p d # ds) else map_option (Cons p) (unlink_from hit d ds))"

fun unlink_list :: "(dirent \<Rightarrow> bool) \<Rightarrow> dirent list \<Rightarrow> dirent list option" where
  "unlink_list hit [] = None"
| "unlink_list hit (d # ds) = (if hit d then Some (d\<lparr>d_inode := 0\<rparr> # ds) else unlink_from hit d ds)"

lemma unlink_miss:
  assumes "at bs w pre (d # ds) []" "name_ok (ul_name (w_priv w))" "\<not> unlink_hit (ul_name (w_priv w)) (ul_inode (w_priv w)) d"
  obtains w' where "dir_walk bs (plain True) unlink_proc w = dir_walk bs (plain True) unlink_proc w'"
    "at bs w' (pre @ encode d) ds []" "w_changed w' = w_changed w" "w_priv w' = (w_priv w)\<lparr>ul_prev := Some (length pre)\<rparr>"
proof -
  let ?w = "w\<lparr>w_priv := (w_priv w)\<lparr>ul_prev := Some (length pre)\<rparr>, w_entry := next_kind (w_entry w)\<rparr>"
  have off: "w_offset w = length pre" using assms(1) by (simp add: at_def)
  have "walk_call bs unlink_proc w (d_len d) = Some (False, ?w, d_len d)"
    using unlink_matches_entry [OF assms(1,2)] assms(3) off by (simp add: walk_call_def unlink_proc_def Let_def)
  then have "dir_walk bs (plain True) unlink_proc w = dir_walk bs (plain True) unlink_proc (advance ?w (d_len d))"
    using at_step [OF assms(1), of True unlink_proc] by simp
  moreover have "at bs (advance ?w (d_len d)) (pre @ encode d) ds []" using assms(1) by (simp add: at_def)
  ultimately show ?thesis by (intro that [of "advance ?w (d_len d)"]) simp_all
qed

lemma unlink_walk:
  assumes "at bs w (pre @ encode p) ds []" "d_valid p" "name_ok (ul_name (w_priv w))" "ul_prev (w_priv w) = Some (length pre)"
  shows "case unlink_from (unlink_hit (ul_name (w_priv w)) (ul_inode (w_priv w))) p ds of
      None \<Rightarrow> \<exists>w'. dir_walk bs (plain True) unlink_proc w = Some (Walked False w') \<and> w_changed w' = w_changed w \<and>
        ul_name (w_priv w') = ul_name (w_priv w) \<and> ul_inode (w_priv w') = ul_inode (w_priv w) \<and> ul_done (w_priv w') = ul_done (w_priv w)
    | Some es \<Rightarrow> \<exists>w'. dir_walk bs (plain True) unlink_proc w = Some (Walked True w') \<and> w_changed w' \<and> w_buf w' = pre @ enc es \<and>
        ul_done (w_priv w')"
  using assms
proof (induction ds arbitrary: pre p w)
  case Nil
  then show ?case using at_end [OF Nil.prems(1)] by simp
next
  case (Cons d ds)
  let ?hit = "unlink_hit (ul_name (w_priv w)) (ul_inode (w_priv w))"
  show ?case
  proof (cases "?hit d")
    case False
    from Cons.prems(1,3) this obtain w' where w': "dir_walk bs (plain True) unlink_proc w = dir_walk bs (plain True) unlink_proc w'"
        "at bs w' ((pre @ encode p) @ encode d) ds []" "w_changed w' = w_changed w"
        "w_priv w' = (w_priv w)\<lparr>ul_prev := Some (length (pre @ encode p))\<rparr>"
      by (rule unlink_miss)
    have "d_valid d" using Cons.prems(1) by (simp add: at_def)
    from Cons.IH [OF w'(2) this] show ?thesis
      using False w' Cons.prems(3) by (auto split: option.splits)
  next
    case True
    let ?n = "of_nat (d_len p + d_len d) :: u16"
    have buf: "w_buf w = pre @ encode p @ encode d @ enc ds" and off: "w_offset w = length pre + d_len p"
      using Cons.prems(1) by (simp_all add: at_def)
    have "get16 (w_buf w) (length pre + 4) = Some (of_nat (d_len p))" using buf by simp
    moreover have "get16 (w_buf w) (w_offset w + 4) = Some (of_nat (d_len d))"
      using buf off get_append(1) [of "pre @ encode p" "encode d @ enc ds" 4] by simp
    moreover have "put (w_buf w) (length pre + 4) (bytes16 ?n) = Some (pre @ encode (absorb p d) @ enc ds)"
      using buf put_absorb by simp
    moreover have "w_offset w \<noteq> 0" using off d_len_ge [of p] by simp
    ultimately have "unlink_proc k (w_offset w) (w_buf w) (w_priv w) =
        Some (True, True, pre @ encode (absorb p d) @ enc ds, (w_priv w)\<lparr>ul_prev := Some (w_offset w), ul_done := True\<rparr>)" for k
      using unlink_matches_entry [OF Cons.prems(1,3)] True Cons.prems(4) by (simp add: unlink_proc_def Let_def of_nat_add)
    moreover obtain len where "get16 (pre @ encode (absorb p d) @ enc ds) (w_offset w + 4) = Some len"
      using off d_len_ge [of d] by (simp add: get16_def)
    ultimately show ?thesis
      using at_step [OF Cons.prems(1), of True unlink_proc] True by (simp add: walk_call_def Let_def)
  qed
qed

lemma unlink_block:
  assumes "at bs w [] ds []" "name_ok (ul_name (w_priv w))" "ds \<noteq> []"
  shows "case unlink_list (unlink_hit (ul_name (w_priv w)) (ul_inode (w_priv w))) ds of
      None \<Rightarrow> \<exists>w'. dir_walk bs (plain True) unlink_proc w = Some (Walked False w') \<and> w_changed w' = w_changed w \<and>
        ul_name (w_priv w') = ul_name (w_priv w) \<and> ul_inode (w_priv w') = ul_inode (w_priv w) \<and> ul_done (w_priv w') = ul_done (w_priv w)
    | Some es \<Rightarrow> \<exists>w'. dir_walk bs (plain True) unlink_proc w = Some (Walked True w') \<and> w_changed w' \<and> w_buf w' = enc es \<and>
        ul_done (w_priv w')"
proof -
  obtain d rest where ds: "ds = d # rest" using assms(3) by (cases ds) auto
  let ?hit = "unlink_hit (ul_name (w_priv w)) (ul_inode (w_priv w))"
  have at: "at bs w [] (d # rest) []" using assms(1) ds by simp
  show ?thesis
  proof (cases "?hit d")
    case False
    from at assms(2) this obtain w' where w': "dir_walk bs (plain True) unlink_proc w = dir_walk bs (plain True) unlink_proc w'"
        "at bs w' ([] @ encode d) rest []" "w_changed w' = w_changed w" "w_priv w' = (w_priv w)\<lparr>ul_prev := Some (length ([] :: bytes))\<rparr>"
      by (rule unlink_miss)
    have "d_valid d" using at by (simp add: at_def)
    from unlink_walk [OF w'(2) this] show ?thesis using False w' assms(2) ds by (auto split: option.splits)
  next
    case True
    have buf: "w_buf w = encode d @ enc rest" and off: "w_offset w = 0" using at by (simp_all add: at_def)
    have "unlink_proc k 0 (w_buf w) (w_priv w) =
        Some (True, True, enc (d\<lparr>d_inode := 0\<rparr> # rest), (w_priv w)\<lparr>ul_prev := Some 0, ul_done := True\<rparr>)" for k
      using unlink_matches_entry [OF at assms(2)] True off buf put_inode [of "[]" d "enc rest" 0]
      by (simp add: unlink_proc_def Let_def)
    then show ?thesis
      using at_step [OF at, of True unlink_proc] True off ds by (simp add: walk_call_def Let_def)
  qed
qed

text \<open>The names in use, with their inodes and file types, in the order of the block.\<close>

definition used :: "dirent list \<Rightarrow> (u32 \<times> u16 \<times> bytes) list" where
  "used ds = map (\<lambda>d. (d_inode d, d_name_len d, d_name d)) (filter (\<lambda>d. d_inode d \<noteq> 0) ds)"

lemma used_simps [simp]: "used [] = []" "used (ds @ es) = used ds @ used es"
    "used (d # ds) = (if d_inode d \<noteq> 0 then [(d_inode d, d_name_len d, d_name d)] else []) @ used ds"
  by (simp_all add: used_def)

text \<open>A block after a removal: as long as before, well-formed, and without the first hit.\<close>

definition removes :: "(dirent \<Rightarrow> bool) \<Rightarrow> dirent list \<Rightarrow> dirent list \<Rightarrow> bool" where
  "removes hit ds es \<longleftrightarrow> (\<exists>us d vs. ds = us @ d # vs \<and> hit d \<and> (\<forall>x\<in>set us. \<not> hit x) \<and> used es = used us @ used vs)"

lemma unlink_from_ok:
  assumes "unlink_from hit p ds = Some es" "\<not> hit p" "\<And>d. hit d \<Longrightarrow> d_inode d \<noteq> 0" "d_valid p" "list_all d_valid ds"
    "length (enc (p # ds)) < 65536"
  shows "length (enc es) = length (enc (p # ds)) \<and> list_all d_valid es \<and> removes hit (p # ds) es"
  using assms
proof (induction ds arbitrary: p es)
  case Nil
  then show ?case by simp
next
  case (Cons d ds)
  show ?case
  proof (cases "hit d")
    case True
    then have es: "es = absorb p d # ds" using Cons.prems(1) by simp
    have "removes hit (p # d # ds) es"
      unfolding removes_def using True es Cons.prems(2,4) by (intro exI [of _ "[p]"] exI [of _ d] exI [of _ ds]) (simp add: absorb_name)
    then show ?thesis using es Cons.prems(4-6) by (auto intro: absorb_valid)
  next
    case False
    then obtain es' where es: "es = p # es'" "unlink_from hit d ds = Some es'" using Cons.prems(1) by auto
    have ih: "length (enc es') = length (enc (d # ds)) \<and> list_all d_valid es' \<and> removes hit (d # ds) es'"
      using Cons.prems False by (intro Cons.IH [OF es(2)]) simp_all
    then obtain us x vs where r: "d # ds = us @ x # vs" "hit x" "\<forall>y\<in>set us. \<not> hit y" "used es' = used us @ used vs"
      by (auto simp: removes_def)
    then have "removes hit (p # d # ds) es"
      unfolding removes_def using es(1) Cons.prems(2) by (intro exI [of _ "p # us"] exI [of _ x] exI [of _ vs]) simp
    then show ?thesis using ih es(1) Cons.prems(4) by simp
  qed
qed

lemma unlink_list_ok:
  assumes "unlink_list hit ds = Some es" "\<And>d. hit d \<Longrightarrow> d_inode d \<noteq> 0" "list_all d_valid ds" "length (enc ds) < 65536"
  shows "length (enc es) = length (enc ds) \<and> list_all d_valid es \<and> removes hit ds es"
proof -
  obtain d rest where ds: "ds = d # rest" using assms(1) by (cases ds) auto
  show ?thesis
  proof (cases "hit d")
    case True
    then have es: "es = d\<lparr>d_inode := 0\<rparr> # rest" using assms(1) ds by simp
    have "removes hit ds es"
      unfolding removes_def using True ds es by (intro exI [of _ "[]"] exI [of _ d] exI [of _ rest]) simp
    then show ?thesis using es ds assms(3) by (auto simp: d_valid_def d_len_def)
  next
    case False
    then show ?thesis using unlink_from_ok [of hit d rest es] assms ds by simp
  qed
qed

lemma unlink_from_None: "unlink_from hit p ds = None \<longleftrightarrow> (\<forall>d\<in>set ds. \<not> hit d)"
  by (induction ds arbitrary: p) auto

lemma unlink_list_None: "unlink_list hit ds = None \<longleftrightarrow> (\<forall>d\<in>set ds. \<not> hit d)"
  by (cases ds) (auto simp: unlink_from_None)

lemma unlink_hit_inode: "unlink_hit name ino d \<Longrightarrow> d_inode d \<noteq> 0"
  by (auto simp: unlink_hit_def split: if_splits)

text \<open>Blocks that are not written keep what they hold.\<close>

lemma dir_holds_other:
  "b \<notin> fst ` set blks \<Longrightarrow> dir_holds bs (dev\<lparr>contents := (contents dev)(b := x)\<rparr>) blks dss = dir_holds bs dev blks dss"
  by (induction blks arbitrary: dss) (auto simp: block_holds_def)

lemma block_written:
  "block_holds bs dev b ds \<Longrightarrow> length (enc es) = bs \<Longrightarrow> list_all d_valid es \<Longrightarrow>
    block_holds bs (dev\<lparr>contents := (contents dev)(b := enc es)\<rparr>) b es"
  by (simp add: block_holds_def)

lemma removes_append:
  "removes hit ds es \<Longrightarrow> removes hit (ds @ xs) (es @ xs)"
  "(\<forall>d\<in>set xs. \<not> hit d) \<Longrightarrow> removes hit ds es \<Longrightarrow> removes hit (xs @ ds) (xs @ es)"
proof -
  assume "removes hit ds es"
  then obtain us d vs where r: "ds = us @ d # vs" "hit d" "\<forall>x\<in>set us. \<not> hit x" "used es = used us @ used vs"
    by (auto simp: removes_def)
  show "removes hit (ds @ xs) (es @ xs)"
    unfolding removes_def using r by (intro exI [of _ us] exI [of _ d] exI [of _ "vs @ xs"]) simp
  show "removes hit (xs @ ds) (xs @ es)" if "\<forall>d\<in>set xs. \<not> hit d"
    unfolding removes_def using r that by (intro exI [of _ "xs @ us"] exI [of _ d] exI [of _ vs]) auto
qed

definition only_writes :: "(nat \<times> int) list \<Rightarrow> device \<Rightarrow> device \<Rightarrow> bool" where
  "only_writes blks dev dev' \<longleftrightarrow> read_error dev' = read_error dev \<and> write_error dev' = write_error dev \<and>
     (\<forall>b. b \<notin> fst ` set blks \<longrightarrow> contents dev' b = contents dev b)"

lemma iterate_unlink:
  assumes "dir_holds bs dev blks dss" "0 < bs" "distinct (map fst blks)" "name_ok (ul_name ls)" "\<not> ul_done ls"
    "hit = unlink_hit (ul_name ls) (ul_inode ls)"
  shows "if \<exists>d\<in>set (concat dss). hit d
    then \<exists>dev' ls' dss'. iterate_blocks bs (plain True) unlink_proc blks Success dev ls = Some (Success, dev', ls') \<and> ul_done ls' \<and>
      dir_holds bs dev' blks dss' \<and> removes hit (concat dss) (concat dss') \<and> only_writes blks dev dev'
    else \<exists>ls'. iterate_blocks bs (plain True) unlink_proc blks Success dev ls = Some (Success, dev, ls') \<and> \<not> ul_done ls'"
  using assms
proof (induction blks arbitrary: dss ls)
  case Nil
  then show ?case by simp
next
  case (Cons blk blks)
  obtain b c where blk: "blk = (b, c)" by (cases blk)
  show ?case
  proof (cases "c < 0")
    case True
    then show ?thesis
      using Cons.IH [of dss ls] Cons.prems blk by (simp add: ext2fs_process_dir_block_def only_writes_def split: if_splits) blast
  next
    case False
    then obtain ds rest where ds: "dss = ds # rest" "block_holds bs dev b ds" "dir_holds bs dev blks rest"
      using Cons.prems(1) blk by auto
    have ne: "ds \<noteq> []" using ds(2) Cons.prems(2) by (auto simp: block_holds_def)
    note walk = unlink_block [OF walk_start_at [OF ds(2), of c ls] _ ne, simplified, folded Cons.prems(6), OF Cons.prems(4)]
    show ?thesis
    proof (cases "unlink_list hit ds")
      case None
      then obtain w' where w': "dir_walk bs (plain True) unlink_proc (walk_start c (enc ds) ls) = Some (Walked False w')"
          "\<not> w_changed w'" "ul_name (w_priv w') = ul_name ls" "ul_inode (w_priv w') = ul_inode ls" "\<not> ul_done (w_priv w')"
        using walk Cons.prems(5) by auto
      have p: "ext2fs_process_dir_block bs (plain True) unlink_proc (b, c) dev ls = Some (False, Success, dev, w_priv w')"
        using process_block [OF ds(2) _ w'(1)] False w'(2) by simp
      have miss: "\<forall>d\<in>set ds. \<not> hit d" using None by (simp add: unlink_list_None)
      have step: "iterate_blocks bs (plain True) unlink_proc (blk # blks) Success dev ls =
          iterate_blocks bs (plain True) unlink_proc blks Success dev (w_priv w')"
        using p blk by simp
      have hits: "(\<exists>d\<in>set (concat dss). hit d) \<longleftrightarrow> (\<exists>d\<in>set (concat rest). hit d)" using ds(1) miss by auto
      note ih = Cons.IH [OF ds(3) Cons.prems(2), of "w_priv w'"]
      show ?thesis
      proof (cases "\<exists>d\<in>set (concat rest). hit d")
        case True
        then obtain dev' ls' dss' where r:
            "iterate_blocks bs (plain True) unlink_proc blks Success dev (w_priv w') = Some (Success, dev', ls')" "ul_done ls'"
            "dir_holds bs dev' blks dss'" "removes hit (concat rest) (concat dss')" "only_writes blks dev dev'"
          using ih w'(3-5) Cons.prems(3,4,6) by auto
        have "contents dev' b = contents dev b \<and> read_error dev' = read_error dev \<and> write_error dev' = write_error dev"
          using r(5) Cons.prems(3) blk by (simp add: only_writes_def)
        then have "dir_holds bs dev' (blk # blks) (ds # dss')" using r(3) ds(2) False blk by (simp add: block_holds_def)
        moreover have "removes hit (concat dss) (concat (ds # dss'))" using removes_append(2) [OF miss r(4)] ds(1) by simp
        moreover have "only_writes (blk # blks) dev dev'" using r(5) by (simp add: only_writes_def)
        ultimately show ?thesis using hits True step r(1,2) by auto
      next
        case none: False
        then show ?thesis using ih w'(3-5) Cons.prems(3,4,6) hits step by auto
      qed
    next
      case (Some es)
      then obtain w' where w': "dir_walk bs (plain True) unlink_proc (walk_start c (enc ds) ls) = Some (Walked True w')"
          "w_changed w'" "w_buf w' = enc es" "ul_done (w_priv w')"
        using walk by auto
      let ?dev = "dev\<lparr>contents := (contents dev)(b := enc es)\<rparr>"
      have p: "ext2fs_process_dir_block bs (plain True) unlink_proc (b, c) dev ls = Some (True, Success, ?dev, w_priv w')"
        using process_block [OF ds(2) _ w'(1)] False w'(2,3) by simp
      have es: "length (enc es) = bs" "list_all d_valid es" "removes hit ds es"
        using unlink_list_ok [OF Some] ds(2) unlink_hit_inode Cons.prems(6) by (auto simp: block_holds_def)
      have hit: "\<exists>d\<in>set (concat dss). hit d" using es(3) ds(1) by (auto simp: removes_def)
      have "dir_holds bs ?dev blks rest" using dir_holds_other [of b blks] ds(3) Cons.prems(3) blk by simp
      then have "dir_holds bs ?dev (blk # blks) (es # rest)" using block_written [OF ds(2) es(1,2)] False blk by simp
      moreover have "removes hit (concat dss) (concat (es # rest))" using removes_append(1) [OF es(3)] ds(1) by simp
      moreover have "only_writes (blk # blks) dev ?dev" using blk by (simp add: only_writes_def)
      moreover have "iterate_blocks bs (plain True) unlink_proc (blk # blks) Success dev ls = Some (Success, ?dev, w_priv w')"
        using p blk by simp
      ultimately show ?thesis unfolding if_P [OF hit] using w'(4) by blast
    qed
  qed
qed

lemma unlink_runs:
  assumes "dir_holds bs dev blks dss" "0 < bs" "distinct (map fst blks)" "name_ok name" "name \<noteq> None \<or> ino \<noteq> 0"
  shows "if \<exists>d\<in>set (concat dss). unlink_hit name ino d
    then \<exists>dev' dss'. ext2fs_unlink bs True Success blks dev name ino = Some (Success, dev') \<and> dir_holds bs dev' blks dss' \<and>
      removes (unlink_hit name ino) (concat dss) (concat dss') \<and> only_writes blks dev dev'
    else ext2fs_unlink bs True Success blks dev name ino = Some (EXT2_ET_DIR_NO_SPACE, dev)"
  using iterate_unlink [OF assms(1-3), of "\<lparr>ul_name = name, ul_inode = ino, ul_prev = None, ul_done = False\<rparr>", OF _ _ refl] assms(4,5)
  by (auto simp: ext2fs_unlink_def ext2fs_dir_iterate_def plain_def split: if_splits)

text \<open>
  C24. Unlink on a directory whose blocks are distinct and hold well-formed entries: if an entry in use
  has the name (when one is given) and the inode (when one is given), exactly the first such entry
  goes: the other names in use, their inodes, their file types and their order are kept, the blocks
  are well-formed again, and no block outside the directory is written. Otherwise nothing is written and
  the code \<open>EXT2_ET_DIR_NO_SPACE\<close> is returned.
\<close>

theorem unlink_removes_first:
  assumes "dir_holds bs dev blks dss" "0 < bs" "distinct (map fst blks)" "name_ok name" "name \<noteq> None \<or> ino \<noteq> 0"
  shows "if \<exists>d\<in>set (concat dss). unlink_hit name ino d
    then \<exists>dev' dss'. ext2fs_unlink bs True Success blks dev name ino = Some (Success, dev') \<and> dir_holds bs dev' blks dss' \<and>
      removes (unlink_hit name ino) (concat dss) (concat dss') \<and> only_writes blks dev dev'
    else ext2fs_unlink bs True Success blks dev name ino = Some (EXT2_ET_DIR_NO_SPACE, dev)"
  by (rule unlink_runs [OF assms])

definition file_entry :: "u32 \<Rightarrow> bytes \<Rightarrow> nat \<Rightarrow> dirent" where
  "file_entry ino name n = \<lparr>d_inode = ino, d_name_len = of_nat (length name), d_rest = name @ replicate (n - 8 - length name) 0\<rparr>"

definition two_files :: "dirent list" where
  "two_files = [file_entry 12 [97] 16, file_entry 13 [98] 1008]"

lemma two_files_valid: "list_all d_valid two_files" "length (enc two_files) = 1024"
  by (simp_all add: two_files_def file_entry_def d_valid_def d_len_def low_len_def)

theorem unlink_removes_first_witness:
  "\<exists>dev' dss'. ext2fs_unlink 1024 True Success [(7, 0)] (dev_with 7 (enc two_files)) (Some [98]) 0 = Some (Success, dev') \<and>
     dir_holds 1024 dev' [(7, 0)] dss' \<and> used (concat dss') = [(12, 1, [97])]"
proof -
  have hit: "unlink_hit (Some [98]) 0 (file_entry 13 [98] 1008)" "\<not> unlink_hit (Some [98]) 0 (file_entry 12 [97] 16)"
    by (simp_all add: unlink_hit_def file_entry_def d_name_def low_len_def)
  have holds: "dir_holds 1024 (dev_with 7 (enc two_files)) [(7, 0)] [two_files]"
    using two_files_valid by (simp add: block_holds_def dev_with_def)
  from unlink_removes_first [OF holds, of "Some [98]" 0] hit(1)
  obtain dev' dss' where u: "ext2fs_unlink 1024 True Success [(7, 0)] (dev_with 7 (enc two_files)) (Some [98]) 0 = Some (Success, dev')"
      "dir_holds 1024 dev' [(7, 0)] dss'" "removes (unlink_hit (Some [98]) 0) two_files (concat dss')"
    by (auto simp: name_ok_def two_files_def)
  then have "used (concat dss') = [(12, 1, [97])]"
    using hit by (auto simp: removes_def two_files_def Cons_eq_append_conv file_entry_def d_name_def low_len_def)
  then show ?thesis using u by blast
qed

section \<open>Link\<close>

text \<open>An unused next entry is absorbed unless it is the last one and has no space for a name.\<close>

definition absorb_next :: "dirent \<Rightarrow> dirent list \<Rightarrow> dirent \<times> bool \<times> dirent list" where
  "absorb_next d ds = (case ds of
      [] \<Rightarrow> (d, False, [])
    | n # r \<Rightarrow> if d_inode n = 0 \<and> 8 < length (enc ds) then (absorb d n, True, r) else (d, False, ds))"

definition min_len :: "dirent \<Rightarrow> nat" where
  "min_len d = (if d_inode d = 0 then 0 else EXT2_DIR_REC_LEN (low_len (d_name_len d)))"

definition fits :: "nat \<Rightarrow> dirent \<Rightarrow> bool" where
  "fits need d \<longleftrightarrow> min_len d + need \<le> d_len d"

lemma min_len_bounds: "d_valid d \<Longrightarrow> min_len d \<le> d_len d" "min_len d mod 4 = 0" "d_inode d \<noteq> 0 \<Longrightarrow> 8 \<le> min_len d"
  using min_len_le [of d] by (auto simp: min_len_def EXT2_DIR_REC_LEN_def)

lemma absorb_next_ok:
  assumes "absorb_next d ds = (d', ch, ds')" "d_valid d" "list_all d_valid ds" "length (enc (d # ds)) < 65536"
  shows "d_valid d'" "list_all d_valid ds'" "length (enc (d' # ds')) = length (enc (d # ds))" "used (d' # ds') = used (d # ds)"
    "d_inode d' = d_inode d" "d_name_len d' = d_name_len d" "min_len d' = min_len d" "\<not> ch \<Longrightarrow> d' = d \<and> ds' = ds"
    "\<exists>x\<in>set (d # ds). fits need x \<Longrightarrow> \<exists>x\<in>set (d' # ds'). fits need x"
proof -
  consider (keep) "d' = d" "ds' = ds" | (take) n where "ds = n # ds'" "d_inode n = 0" "d' = absorb d n" "ch"
    using assms(1) by (auto simp: absorb_next_def split: list.splits if_splits)
  then have "d_valid d' \<and> list_all d_valid ds' \<and> length (enc (d' # ds')) = length (enc (d # ds)) \<and> used (d' # ds') = used (d # ds) \<and>
      d_inode d' = d_inode d \<and> d_name_len d' = d_name_len d \<and> min_len d' = min_len d \<and> (ch \<or> d' = d \<and> ds' = ds) \<and>
      ((\<exists>x\<in>set (d # ds). fits need x) \<longrightarrow> (\<exists>x\<in>set (d' # ds'). fits need x))"
  proof cases
    case keep
    then show ?thesis using assms by simp
  next
    case take
    have "fits need d \<or> fits need n \<Longrightarrow> fits need d'"
      using min_len_bounds(1) [OF assms(2)] take by (auto simp: fits_def min_len_def)
    then show ?thesis using take assms by (auto simp: absorb_valid absorb_name min_len_def)
  qed
  then show "d_valid d'" "list_all d_valid ds'" "length (enc (d' # ds')) = length (enc (d # ds))" "used (d' # ds') = used (d # ds)"
    "d_inode d' = d_inode d" "d_name_len d' = d_name_len d" "min_len d' = min_len d" "\<not> ch \<Longrightarrow> d' = d \<and> ds' = ds"
    "\<exists>x\<in>set (d # ds). fits need x \<Longrightarrow> \<exists>x\<in>set (d' # ds'). fits need x" by blast+
qed

lemma set_rec_len_small: "n \<le> bs \<Longrightarrow> bs < 65536 \<Longrightarrow> n mod 4 = 0 \<Longrightarrow> ext2fs_set_rec_len bs n = Some (of_nat n)"
  by (simp add: ext2fs_set_rec_len_def)

lemma link_absorb_enc:
  assumes "at bs w pre (d # ds) []" "absorb_next d ds = (d', ch, ds')"
  shows "link_absorb bs (w_offset w) (w_buf w) (d_len d) = Some (Inr (d_len d', ch, pre @ enc (d' # ds')))"
proof -
  have buf: "w_buf w = pre @ encode d @ enc ds" and off: "w_offset w = length pre" and valid: "d_valid d" "list_all d_valid ds"
    and len: "length pre + d_len d + length (enc ds) = bs" "bs < 65536"
    using assms(1) by (simp_all add: at_def)
  show ?thesis
  proof (cases ds)
    case Nil
    then show ?thesis using assms(2) buf off len by (simp add: link_absorb_def absorb_next_def)
  next
    case (Cons n r)
    have n: "d_valid n" "unat (of_nat (d_len n) :: u16) = d_len n" using valid Cons unat_d_len by auto
    have get: "get32 (w_buf w) (w_offset w + d_len d) = Some (d_inode n)" "get16 (w_buf w) (w_offset w + d_len d + 4) = Some (of_nat (d_len n))"
      using get_append(3) [of "pre @ encode d" "enc ds"] get_append(1) [of "pre @ encode d" "enc ds" 4] buf off Cons by simp_all
    have set: "ext2fs_set_rec_len bs (d_len d + d_len n) = Some (of_nat (d_len d + d_len n))"
      using len Cons d_len_mod [OF valid(1)] d_len_mod [OF n(1)] by (intro set_rec_len_small) (auto simp: mod_add_eq)
    show ?thesis
      using get set n(2) len Cons assms(2) buf off put_absorb [of pre d n "enc r"]
      by (auto simp: link_absorb_def absorb_next_def split: if_splits)
  qed
qed

lemma put_field: "length ys = length a \<Longrightarrow> i = length pre \<Longrightarrow> put (pre @ a @ xs) i ys = Some (pre @ ys @ xs)"
  by (simp add: put_def splice_def)

lemma length_fields [simp]: "length (bytes16 x) = 2" "length (bytes32 y) = 4"
  by (simp_all add: bytes16_def bytes32_def)

text \<open>The head of an entry written over bytes that were part of another one.\<close>

lemma put_head:
  assumes "8 \<le> length z"
  obtains u v where "put (p @ z @ xs) (length p) (bytes32 0) = Some u" "put u (length p + 6) (bytes16 0) = Some v"
    "put v (length p + 4) (bytes16 (of_nat (length z))) = Some (p @ encode \<lparr>d_inode = 0, d_name_len = 0, d_rest = drop 8 z\<rparr> @ xs)"
proof -
  let ?a = "take 4 z" and ?b = "take 2 (drop 4 z)" and ?c = "take 2 (drop 6 z)" and ?t = "drop 8 z"
  have z: "z = ?a @ ?b @ ?c @ ?t"
    using append_take_drop_id [of 4 z] append_take_drop_id [of 2 "drop 4 z"] append_take_drop_id [of 2 "drop 6 z"] by simp
  have "put (p @ z @ xs) (length p) (bytes32 0) = Some (p @ bytes32 0 @ ?b @ ?c @ ?t @ xs)"
    using put_field [of "bytes32 0" ?a "length p" p "?b @ ?c @ ?t @ xs"] assms by (subst z) simp
  moreover have "put (p @ bytes32 0 @ ?b @ ?c @ ?t @ xs) (length p + 6) (bytes16 0) = Some (p @ bytes32 0 @ ?b @ bytes16 0 @ ?t @ xs)"
    using put_field [of "bytes16 0" ?c "length p + 6" "p @ bytes32 0 @ ?b" "?t @ xs"] assms by simp
  moreover have "put (p @ bytes32 0 @ ?b @ bytes16 0 @ ?t @ xs) (length p + 4) (bytes16 (of_nat (length z))) =
      Some (p @ bytes32 0 @ bytes16 (of_nat (length z)) @ bytes16 0 @ ?t @ xs)"
    using put_field [of "bytes16 (of_nat (length z))" ?b "length p + 4" "p @ bytes32 0" "bytes16 0 @ ?t @ xs"] assms by simp
  moreover have "8 + length ?t = length z" using assms by simp
  ultimately show ?thesis by (intro that) (simp_all add: encode_def d_len_def)
qed

definition split_head :: "dirent \<Rightarrow> dirent" where
  "split_head d = d\<lparr>d_rest := take (min_len d - 8) (d_rest d)\<rparr>"

definition split_tail :: "dirent \<Rightarrow> dirent" where
  "split_tail d = \<lparr>d_inode = 0, d_name_len = 0, d_rest = drop (min_len d) (d_rest d)\<rparr>"

lemma split_ok:
  assumes "d_valid d" "d_inode d \<noteq> 0" "min_len d + 8 \<le> d_len d"
  shows "d_valid (split_head d)" "d_valid (split_tail d)" "d_len (split_head d) = min_len d" "d_len (split_tail d) = d_len d - min_len d"
    "used [split_head d, split_tail d] = used [d]"
proof -
  note b = min_len_bounds(2) [of d] min_len_bounds(3) [OF assms(2)] d_len_mod [OF assms(1)]
  have name: "low_len (d_name_len d) + 8 \<le> min_len d" using assms(2) by (auto simp: min_len_def EXT2_DIR_REC_LEN_def)
  show len: "d_len (split_head d) = min_len d" "d_len (split_tail d) = d_len d - min_len d"
    using assms(3) b(2) by (auto simp: split_head_def split_tail_def d_len_def)
  have m: "(min_len d - 8) mod 4 = 0" "(d_len d - min_len d - 8) mod 4 = 0" using b assms(3) by presburger+
  have "length (d_rest (split_head d)) = min_len d - 8" "length (d_rest (split_tail d)) = d_len d - min_len d - 8"
    using len by (simp_all add: d_len_def)
  then show "d_valid (split_head d)" "d_valid (split_tail d)"
    using m name len assms(1) min_len_bounds(1) [OF assms(1)] unfolding d_valid_def by (auto simp: split_head_def split_tail_def low_len_def)
  have "low_len (d_name_len d) \<le> min_len d - 8" using name by simp
  then show "used [split_head d, split_tail d] = used [d]"
    by (simp add: split_head_def split_tail_def d_name_def min_absorb1)
qed

lemma link_split_enc:
  assumes "d_valid d" "d_inode d \<noteq> 0" "min_len d + 8 \<le> d_len d" "length (pre @ enc (d # ds)) = bs" "bs < 65536"
  shows "link_split bs (length pre) (pre @ enc (d # ds)) (d_len d) (min_len d) =
    Some (True, pre @ enc (split_head d # split_tail d # ds))"
proof -
  let ?m = "min_len d" and ?z = "drop (min_len d - 8) (d_rest d)"
  note b = min_len_bounds(2) [of d] min_len_bounds(3) [OF assms(2)] d_len_mod [OF assms(1)] split_ok(3) [OF assms(1-3)]
  have z: "length ?z = d_len d - ?m" "drop 8 ?z = d_rest (split_tail d)"
    using b(2) assms(3) by (simp_all add: d_len_def split_tail_def)
  have first: "put (pre @ enc (d # ds)) (length pre + 4) (bytes16 (of_nat ?m)) = Some ((pre @ encode (split_head d)) @ ?z @ enc ds)"
    using put_rec_len [of d "enc ds" "of_nat ?m"] b(4) by (simp add: put_append encode_def) (simp add: split_head_def)
  obtain u v where uv: "put ((pre @ encode (split_head d)) @ ?z @ enc ds) (length pre + ?m) (bytes32 0) = Some u"
      "put u (length pre + ?m + 6) (bytes16 0) = Some v"
      "put v (length pre + ?m + 4) (bytes16 (of_nat (d_len d - ?m))) = Some ((pre @ encode (split_head d)) @ encode (split_tail d) @ enc ds)"
  proof (rule put_head [of ?z "pre @ encode (split_head d)" "enc ds"], goal_cases)
    case 1
    then show ?case using z assms(3) by simp
  next
    case (2 u v)
    show ?case using 2(2-4)[unfolded z(1) z(2)] b(4) by (intro 2(1)) (simp_all add: split_tail_def add.assoc del: of_nat_diff)
  qed
  have set: "ext2fs_set_rec_len bs ?m = Some (of_nat ?m)" "ext2fs_set_rec_len bs (d_len d - ?m) = Some (of_nat (d_len d - ?m))"
    using assms(3-5) b(1,3) by (intro set_rec_len_small; simp; presburger?)+
  have "unat (of_nat ?m :: u16) = ?m" using assms(3-5) by (simp add: unat_of_nat take_bit_nat_eq_self)
  then show ?thesis using set first uv by (simp add: link_split_def Let_def)
qed

text \<open>A new entry: the name length keeps the low byte, which the file type does not touch.\<close>

definition new_entry :: "link_struct \<Rightarrow> u32 \<times> u16 \<times> bytes" where
  "new_entry ls = (ln_inode ls, link_name_len ls, ln_name ls)"

definition filled :: "link_struct \<Rightarrow> dirent \<Rightarrow> dirent" where
  "filled ls d = \<lparr>d_inode = ln_inode ls, d_name_len = link_name_len ls, d_rest = ln_name ls @ drop (length (ln_name ls)) (d_rest d)\<rparr>"

lemma low_len_take_bit: "low_len w = unat (take_bit 8 w)"
  by (simp add: low_len_def take_bit_eq_mod unat_mod)

lemma low_len_link:
  assumes "length (ln_name ls) \<le> 255"
  shows "low_len (link_name_len ls) = length (ln_name ls)"
proof -
  let ?n = "of_nat (length (ln_name ls)) :: u16"
  have "take_bit 8 (push_bit 8 (x AND 7 :: u16)) = 0" for x by (simp add: take_bit_push_bit)
  then have "take_bit 8 (link_name_len ls) = take_bit 8 ?n" by (simp add: link_name_len_def Let_def take_bit_or)
  then show ?thesis using assms by (simp add: low_len_take_bit take_bit_eq_mod unat_mod unat_of_nat)
qed

lemma filled_ok:
  assumes "d_valid d" "length (ln_name ls) \<le> 255" "EXT2_DIR_REC_LEN (length (ln_name ls)) \<le> d_len d" "ln_inode ls \<noteq> 0"
  shows "d_valid (filled ls d)" "d_len (filled ls d) = d_len d" "used [filled ls d] = [new_entry ls]"
    "link_fill (length pre) (pre @ encode d @ xs) ls = Some (pre @ encode (filled ls d) @ xs)"
proof -
  let ?name = "ln_name ls"
  have n: "length ?name + 8 \<le> d_len d" using assms(3) by (auto simp: EXT2_DIR_REC_LEN_def)
  then show len: "d_len (filled ls d) = d_len d" by (simp add: filled_def d_len_def)
  show "d_valid (filled ls d)"
    using assms(1) n low_len_link [OF assms(2)] len by (simp add: d_valid_def filled_def d_len_def)
  show "used [filled ls d] = [new_entry ls]"
    using assms(4) low_len_link [OF assms(2)] by (simp add: filled_def new_entry_def d_name_def)
  let ?l = "bytes16 (of_nat (d_len d))"
  have "put (pre @ encode d @ xs) (length pre) (bytes32 (ln_inode ls)) =
      Some (pre @ bytes32 (ln_inode ls) @ ?l @ bytes16 (d_name_len d) @ d_rest d @ xs)"
    by (simp add: encode_def put_field)
  moreover have "put (pre @ bytes32 (ln_inode ls) @ ?l @ bytes16 (d_name_len d) @ d_rest d @ xs) (length pre + 6) (bytes16 (link_name_len ls)) =
      Some (pre @ bytes32 (ln_inode ls) @ ?l @ bytes16 (link_name_len ls) @ d_rest d @ xs)"
    using put_field [of _ "bytes16 (d_name_len d)" "length pre + 6" "pre @ bytes32 (ln_inode ls) @ ?l" "d_rest d @ xs"] by simp
  moreover have "put (pre @ bytes32 (ln_inode ls) @ ?l @ bytes16 (link_name_len ls) @ d_rest d @ xs) (length pre + 8) ?name =
      Some (pre @ bytes32 (ln_inode ls) @ ?l @ bytes16 (link_name_len ls) @ ?name @ drop (length ?name) (d_rest d) @ xs)"
    using put_field [of ?name "take (length ?name) (d_rest d)" "length pre + 8"
        "pre @ bytes32 (ln_inode ls) @ ?l @ bytes16 (link_name_len ls)" "drop (length ?name) (d_rest d) @ xs"] n
    by (simp add: d_len_def flip: append_assoc)
  ultimately show "link_fill (length pre) (pre @ encode d @ xs) ls = Some (pre @ encode (filled ls d) @ xs)"
    using len by (simp add: link_fill_def encode_def) (simp add: filled_def)
qed

text \<open>One call on an entry: it absorbs, and then passes on, splits or fills the entry.\<close>

lemma link_call:
  assumes "at bs w pre (d # ds) []" "absorb_next d ds = (d', ch, ds')" "w_priv w = ls" "\<not> ln_done ls"
    "length (ln_name ls) \<le> 255" "ln_inode ls \<noteq> 0" "need = EXT2_DIR_REC_LEN (length (ln_name ls))"
  shows "link_proc bs k (w_offset w) (w_buf w) ls =
    (if \<not> fits need d' then Some (ch, False, pre @ enc (d' # ds'), ls)
     else if d_inode d \<noteq> 0 then Some (True, False, pre @ enc (split_head d' # split_tail d' # ds'), ls)
     else Some (True, True, pre @ enc (filled ls d' # ds'), ls\<lparr>ln_done := True\<rparr>))"
proof -
  have buf: "w_buf w = pre @ encode d @ enc ds" and off: "w_offset w = length pre" and valid: "d_valid d" "list_all d_valid ds"
    and len: "length (pre @ enc (d # ds)) = bs" "bs < 65536"
    using assms(1) by (simp_all add: at_def)
  note ab = absorb_next_ok [OF assms(2) valid]
  have ok: "d_valid d'" "d_inode d' = d_inode d" "d_name_len d' = d_name_len d" "length (pre @ enc (d' # ds')) = bs"
    using ab(1,3,5,6) len by simp_all
  have need: "8 \<le> need" using assms(7) by (simp add: EXT2_DIR_REC_LEN_def)
  have get: "get16 (w_buf w) (w_offset w + 4) = Some (of_nat (d_len d))" "ext2fs_get_rec_len bs (of_nat (d_len d)) = d_len d"
    using buf off len unat_d_len [OF valid(1)] by (simp_all add: ext2fs_get_rec_len_def)
  have split: "link_split bs (length pre) (pre @ enc (d' # ds')) (d_len d') (min_len d') = Some (True, pre @ enc (split_head d' # split_tail d' # ds'))"
    if "fits need d'" "d_inode d \<noteq> 0"
    using link_split_enc [OF ok(1) _ _ ok(4) len(2)] that ok(2) need by (simp add: fits_def)
  have fill: "link_fill (length pre) (pre @ enc (d' # ds')) ls = Some (pre @ enc (filled ls d' # ds'))"
    if "fits need d'" "d_inode d = 0"
    using filled_ok(4) [OF ok(1) assms(5) _ assms(6)] that ok(2) assms(7) by (simp add: fits_def min_len_def)
  have min: "min_len d' = EXT2_DIR_REC_LEN (low_len (d_name_len d'))" if "d_inode d \<noteq> 0" using that ok(2) by (simp add: min_len_def)
  show ?thesis
    using link_absorb_enc [OF assms(1,2)] get assms(4,7) off ok(2) split fill min
    by (cases "d_inode d = 0") (auto simp: link_proc_def Let_def fits_def min_len_def not_le)
qed

text \<open>A call that does not stop the walk, whatever it did to the rest of the block.\<close>

lemma walk_on:
  assumes "at bs w pre (d # ds) []" "\<And>k. func k (w_offset w) (w_buf w) (w_priv w) = Some (ch, False, pre @ enc (d' # ds'), priv)"
    "d_valid d'" "list_all d_valid ds'" "length (enc (d' # ds')) = length (enc (d # ds))" "ch \<or> d' = d"
  obtains w' where "dir_walk bs (plain True) func w = dir_walk bs (plain True) func w'" "at bs w' (pre @ encode d') ds' []"
    "w_changed w' \<longleftrightarrow> w_changed w \<or> ch" "w_priv w' = priv"
proof -
  let ?w = "w\<lparr>w_buf := pre @ enc (d' # ds'), w_priv := priv, w_entry := next_kind (w_entry w), w_changed := (w_changed w \<or> ch)\<rparr>"
  have off: "w_offset w = length pre" and bs: "bs < 65536" using assms(1) by (simp_all add: at_def)
  have "walk_call bs func w (d_len d) = Some (False, ?w, d_len d')"
    using assms(2,6) off bs unat_d_len [OF assms(3)] by (auto simp: walk_call_def Let_def ext2fs_get_rec_len_def)
  then have "dir_walk bs (plain True) func w = dir_walk bs (plain True) func (advance ?w (d_len d'))"
    using at_step [OF assms(1), of True func] by simp
  moreover have "at bs (advance ?w (d_len d')) (pre @ encode d') ds' []" using assms(1,3-5) by (simp add: at_def)
  ultimately show ?thesis by (intro that [of "advance ?w (d_len d')"]) simp_all
qed

text \<open>
  What linking does to a list of entries: if it is done, the new name stands somewhere between the names
  in use, otherwise they are as before; and it is done if one entry has the space.
\<close>

definition links :: "nat \<Rightarrow> u32 \<times> u16 \<times> bytes \<Rightarrow> bool \<Rightarrow> dirent list \<Rightarrow> dirent list \<Rightarrow> bool" where
  "links need new dn ds es \<longleftrightarrow> length (enc es) = length (enc ds) \<and> list_all d_valid es \<and>
     (if dn then \<exists>us vs. used ds = us @ vs \<and> used es = us @ new # vs else used es = used ds) \<and>
     ((\<exists>d\<in>set ds. fits need d) \<longrightarrow> dn)"

lemma links_Cons:
  assumes "links need new dn ds' es" "used (d' # ds') = used ds" "length (enc (d' # ds')) = length (enc ds)" "d_valid d'"
    "\<exists>x\<in>set ds. fits need x \<Longrightarrow> \<exists>x\<in>set ds'. fits need x"
  shows "links need new dn ds (d' # es)"
proof (cases dn)
  case True
  then obtain us vs where "used ds' = us @ vs" "used es = us @ new # vs" using assms(1) by (auto simp: links_def)
  then have "used ds = (used [d'] @ us) @ vs" "used (d' # es) = (used [d'] @ us) @ new # vs" using assms(2) by auto
  then have "\<exists>us vs. used ds = us @ vs \<and> used (d' # es) = us @ new # vs" by blast
  then show ?thesis using True assms(1,3,4) by (simp add: links_def del: used_simps)
next
  case False
  then show ?thesis using assms unfolding links_def by auto
qed

text \<open>The calls that pass on: the entry stays as it is, or is cut down to its name.\<close>

lemma link_pass:
  assumes "at bs w pre (d # ds) []" "absorb_next d ds = (d', ch, ds')" "w_priv w = ls" "\<not> ln_done ls"
    "length (ln_name ls) \<le> 255" "ln_inode ls \<noteq> 0" "need = EXT2_DIR_REC_LEN (length (ln_name ls))" "\<not> (fits need d' \<and> d_inode d = 0)"
  obtains w' e es where "dir_walk bs (plain True) (link_proc bs) w = dir_walk bs (plain True) (link_proc bs) w'"
    "at bs w' (pre @ encode e) es []" "w_priv w' = ls" "w_changed w' \<or> e # es = d # ds" "w_changed w \<longrightarrow> w_changed w'"
    "used (e # es) = used (d # ds)" "length (enc (e # es)) = length (enc (d # ds))" "d_valid e"
    "\<exists>x\<in>set (d # ds). fits need x \<Longrightarrow> \<exists>x\<in>set es. fits need x"
proof -
  have valid: "d_valid d" "list_all d_valid ds" "length (enc (d # ds)) < 65536" using assms(1) by (auto simp: at_def)
  note call = link_call [OF assms(1-7)]
  note ok = absorb_next_ok [OF assms(2) valid]
  show ?thesis
  proof (cases "fits need d'")
    case False
    obtain w' where w': "dir_walk bs (plain True) (link_proc bs) w = dir_walk bs (plain True) (link_proc bs) w'"
        "at bs w' (pre @ encode d') ds' []" "w_changed w' \<longleftrightarrow> w_changed w \<or> ch" "w_priv w' = ls"
      by (rule walk_on [OF assms(1), of "link_proc bs" ch d' ds' ls]) (use call False assms(3) ok in auto)
    have "\<exists>x\<in>set ds'. fits need x" if "\<exists>x\<in>set (d # ds). fits need x" using ok(9) [OF that] False by auto
    then show ?thesis using w' ok(1,3,4,8) by (intro that [of w' d' ds']) (auto simp del: used_simps)
  next
    case True
    then have d': "d_inode d' \<noteq> 0" "min_len d' + 8 \<le> d_len d'"
      using assms(7,8) ok(5) by (auto simp: fits_def EXT2_DIR_REC_LEN_def)
    note sp = split_ok [OF ok(1) d']
    have lens: "length (enc (split_head d' # split_tail d' # ds')) = length (enc (d # ds))" using sp(3,4) d'(2) ok(3) by simp
    obtain w' where w': "dir_walk bs (plain True) (link_proc bs) w = dir_walk bs (plain True) (link_proc bs) w'"
        "at bs w' (pre @ encode (split_head d')) (split_tail d' # ds') []" "w_changed w'" "w_priv w' = ls"
      by (rule walk_on [OF assms(1), of "link_proc bs" True "split_head d'" "split_tail d' # ds'" ls])
        (use call True assms(3,8) ok sp lens in auto)
    have "used (split_head d' # split_tail d' # ds') = used (d # ds)"
      using used_simps(2) [of "[split_head d', split_tail d']" ds'] used_simps(2) [of "[d']" ds'] sp(5) ok(4) by (simp del: used_simps)
    moreover have "fits need (split_tail d')" using True sp(4) by (simp add: fits_def) (simp add: min_len_def split_tail_def)
    ultimately show ?thesis using w' lens sp(1) by (intro that [of w' "split_head d'" "split_tail d' # ds'"]) (auto simp del: used_simps)
  qed
qed

lemma link_fills:
  assumes "at bs w pre (d # ds) []" "absorb_next d ds = (d', ch, ds')" "w_priv w = ls" "\<not> ln_done ls"
    "length (ln_name ls) \<le> 255" "ln_inode ls \<noteq> 0" "need = EXT2_DIR_REC_LEN (length (ln_name ls))" "fits need d'" "d_inode d = 0"
  obtains w' where "dir_walk bs (plain True) (link_proc bs) w = Some (Walked True w')" "w_buf w' = pre @ enc (filled ls d' # ds')"
    "links need (new_entry ls) True (d # ds) (filled ls d' # ds')" "w_priv w' = ls\<lparr>ln_done := True\<rparr>" "w_changed w'"
proof -
  have valid: "d_valid d" "list_all d_valid ds" "length (enc (d # ds)) < 65536" and off: "w_offset w = length pre"
    using assms(1) by (auto simp: at_def)
  note ok = absorb_next_ok [OF assms(2) valid]
  have "EXT2_DIR_REC_LEN (length (ln_name ls)) \<le> d_len d'" using assms(7,8) by (simp add: fits_def)
  note f = filled_ok [OF ok(1) assms(5) this assms(6)]
  let ?w = "w\<lparr>w_buf := pre @ enc (filled ls d' # ds'), w_priv := ls\<lparr>ln_done := True\<rparr>, w_entry := next_kind (w_entry w), w_changed := True\<rparr>"
  obtain n where "walk_call bs (link_proc bs) w (d_len d) = Some (True, ?w, n)"
    using link_call [OF assms(1-7)] assms(3,8,9) off by (simp add: walk_call_def Let_def)
  then have "dir_walk bs (plain True) (link_proc bs) w = Some (Walked True ?w)" using at_step [OF assms(1), of True "link_proc bs"] by simp
  moreover have "used (d # ds) = [] @ used ds'" "used (filled ls d' # ds') = [] @ new_entry ls # used ds'"
    using f(3) ok(4,5) assms(9) by auto
  then have "links need (new_entry ls) True (d # ds) (filled ls d' # ds')"
    using f(1,2) ok(2,3) unfolding links_def by (auto simp del: used_simps)
  ultimately show ?thesis by (intro that [of ?w]) simp_all
qed

lemma link_walk:
  assumes "at bs w pre ds []" "w_priv w = ls" "\<not> ln_done ls" "length (ln_name ls) \<le> 255" "ln_inode ls \<noteq> 0"
    "need = EXT2_DIR_REC_LEN (length (ln_name ls))"
  shows "\<exists>dn w' es. dir_walk bs (plain True) (link_proc bs) w = Some (Walked dn w') \<and> w_buf w' = pre @ enc es \<and>
    links need (new_entry ls) dn ds es \<and> w_priv w' = ls\<lparr>ln_done := dn\<rparr> \<and> (w_changed w' \<or> \<not> dn \<and> es = ds) \<and> (w_changed w \<longrightarrow> w_changed w')"
  using assms(1,2)
proof (induction "length (enc ds)" arbitrary: ds pre w rule: less_induct)
  case less
  show ?case
  proof (cases ds)
    case Nil
    then have "links need (new_entry ls) False ds []" "w_buf w = pre" "ls\<lparr>ln_done := False\<rparr> = ls"
      using less.prems(1) assms(3) by (simp_all add: links_def at_def)
    then show ?thesis using at_end [of bs w pre] less.prems Nil by (intro exI [of _ False] exI [of _ w] exI [of _ "[]"]) simp
  next
    case (Cons d rest)
    obtain d' ch ds' where ab: "absorb_next d rest = (d', ch, ds')" by (metis prod.exhaust)
    have at: "at bs w pre (d # rest) []" using less.prems(1) Cons by simp
    show ?thesis
    proof (cases "fits need d' \<and> d_inode d = 0")
      case True
      then show ?thesis using link_fills [OF at ab less.prems(2) assms(3-6)] Cons by blast
    next
      case False
      from link_pass [OF at ab less.prems(2) assms(3-6) this] obtain w' e es where p:
          "dir_walk bs (plain True) (link_proc bs) w = dir_walk bs (plain True) (link_proc bs) w'"
          "at bs w' (pre @ encode e) es []" "w_priv w' = ls" "w_changed w' \<or> e # es = ds" "w_changed w \<longrightarrow> w_changed w'"
          "used (e # es) = used ds" "length (enc (e # es)) = length (enc ds)" "d_valid e"
          "(\<exists>x\<in>set ds. fits need x) \<longrightarrow> (\<exists>x\<in>set es. fits need x)"
        unfolding Cons by metis
      have "length (enc es) < length (enc ds)" using p(7) d_len_ge [of e] by simp
      from less.hyps [OF this p(2,3)] obtain dn w'' fs where r:
          "dir_walk bs (plain True) (link_proc bs) w' = Some (Walked dn w'')" "w_buf w'' = (pre @ encode e) @ enc fs"
          "links need (new_entry ls) dn es fs" "w_priv w'' = ls\<lparr>ln_done := dn\<rparr>" "w_changed w'' \<or> \<not> dn \<and> fs = es" "w_changed w' \<longrightarrow> w_changed w''"
        by blast
      have "links need (new_entry ls) dn ds (e # fs)" using p(9) by (intro links_Cons [OF r(3) p(6-8)]) blast
      then show ?thesis using p r by (intro exI [of _ dn] exI [of _ w''] exI [of _ "e # fs"]) (auto simp del: used_simps)
    qed
  qed
qed

lemma links_append:
  "links need new True ds es \<Longrightarrow> list_all d_valid xs \<Longrightarrow> links need new True (ds @ xs) (es @ xs)"
  "links need new False ds es \<Longrightarrow> links need new dn xs ys \<Longrightarrow> links need new dn (ds @ xs) (es @ ys)"
proof -
  assume a: "links need new True ds es" "list_all d_valid xs"
  then obtain us vs where "used ds = us @ vs" "used es = us @ new # vs" by (auto simp: links_def)
  then have "used (ds @ xs) = us @ (vs @ used xs)" "used (es @ xs) = us @ new # (vs @ used xs)" by simp_all
  then have "\<exists>us vs. used (ds @ xs) = us @ vs \<and> used (es @ xs) = us @ new # vs" by blast
  then show "links need new True (ds @ xs) (es @ xs)" using a by (simp add: links_def del: used_simps)
next
  assume a: "links need new False ds es" "links need new dn xs ys"
  show "links need new dn (ds @ xs) (es @ ys)"
  proof (cases dn)
    case True
    then obtain us vs where "used xs = us @ vs" "used ys = us @ new # vs" using a(2) by (auto simp: links_def)
    then have "used (ds @ xs) = (used ds @ us) @ vs" "used (es @ ys) = (used ds @ us) @ new # vs" using a(1) by (simp_all add: links_def)
    then have "\<exists>us vs. used (ds @ xs) = us @ vs \<and> used (es @ ys) = us @ new # vs" by blast
    then show ?thesis using a True by (simp add: links_def del: used_simps)
  next
    case False
    then show ?thesis using a by (auto simp: links_def)
  qed
qed

lemma dir_holds_valid: "dir_holds bs dev blks dss \<Longrightarrow> list_all d_valid (concat dss)"
  by (induction blks arbitrary: dss) (auto simp: block_holds_def split: if_splits)

text \<open>One block: its contents are the entries after the walk, whether or not it had to be written.\<close>

lemma link_block:
  assumes "block_holds bs dev b ds" "0 \<le> c" "\<not> ln_done ls" "length (ln_name ls) \<le> 255" "ln_inode ls \<noteq> 0"
    "need = EXT2_DIR_REC_LEN (length (ln_name ls))"
  obtains dn es where "links need (new_entry ls) dn ds es"
    "ext2fs_process_dir_block bs (plain True) (link_proc bs) (b, c) dev ls =
      Some (dn, Success, dev\<lparr>contents := (contents dev)(b := enc es)\<rparr>, ls\<lparr>ln_done := dn\<rparr>)"
    "block_holds bs (dev\<lparr>contents := (contents dev)(b := enc es)\<rparr>) b es"
proof -
  have "w_priv (walk_start c (enc ds) ls) = ls" by (simp add: walk_start_def)
  from link_walk [OF walk_start_at [OF assms(1)] this assms(3-6)] obtain dn w es where r:
      "dir_walk bs (plain True) (link_proc bs) (walk_start c (enc ds) ls) = Some (Walked dn w)" "w_buf w = enc es"
      "links need (new_entry ls) dn ds es" "w_priv w = ls\<lparr>ln_done := dn\<rparr>" "w_changed w \<or> \<not> dn \<and> es = ds"
    by auto
  have "dev\<lparr>contents := (contents dev)(b := enc ds)\<rparr> = dev" using assms(1) by (simp add: block_holds_def fun_upd_idem)
  then have "ext2fs_process_dir_block bs (plain True) (link_proc bs) (b, c) dev ls =
      Some (dn, Success, dev\<lparr>contents := (contents dev)(b := enc es)\<rparr>, ls\<lparr>ln_done := dn\<rparr>)"
    using process_block [OF assms(1,2) r(1)] r(2,4,5) by auto
  moreover have "block_holds bs (dev\<lparr>contents := (contents dev)(b := enc es)\<rparr>) b es"
    using block_written [OF assms(1)] r(3) assms(1) by (simp add: links_def block_holds_def)
  ultimately show ?thesis using r(3) that by blast
qed

lemma iterate_link:
  assumes "dir_holds bs dev blks dss" "distinct (map fst blks)" "\<not> ln_done ls" "length (ln_name ls) \<le> 255" "ln_inode ls \<noteq> 0"
    "need = EXT2_DIR_REC_LEN (length (ln_name ls))"
  shows "\<exists>dn dev' dss'. iterate_blocks bs (plain True) (link_proc bs) blks Success dev ls = Some (Success, dev', ls\<lparr>ln_done := dn\<rparr>) \<and>
    dir_holds bs dev' blks dss' \<and> links need (new_entry ls) dn (concat dss) (concat dss') \<and> only_writes blks dev dev'"
  using assms(1,2)
proof (induction blks arbitrary: dev dss)
  case Nil
  have "ls = ls\<lparr>ln_done := False\<rparr>" using assms(3) by simp
  then show ?case using Nil by (intro exI [of _ False] exI [of _ dev] exI [of _ "[]"]) (simp add: links_def only_writes_def)
next
  case (Cons blk blks)
  obtain b c where blk: "blk = (b, c)" by (cases blk)
  show ?case
  proof (cases "c < 0")
    case True
    then show ?thesis using Cons.IH [of dev dss] Cons.prems blk by (simp add: ext2fs_process_dir_block_def only_writes_def) blast
  next
    case False
    then obtain ds rest where ds: "dss = ds # rest" "block_holds bs dev b ds" "dir_holds bs dev blks rest"
      using Cons.prems(1) blk by auto
    have c: "0 \<le> c" using False by simp
    obtain dn es where r: "links need (new_entry ls) dn ds es"
        "ext2fs_process_dir_block bs (plain True) (link_proc bs) (b, c) dev ls =
          Some (dn, Success, dev\<lparr>contents := (contents dev)(b := enc es)\<rparr>, ls\<lparr>ln_done := dn\<rparr>)"
        "block_holds bs (dev\<lparr>contents := (contents dev)(b := enc es)\<rparr>) b es"
      by (rule link_block [OF ds(2) c assms(3-6)])
    let ?dev = "dev\<lparr>contents := (contents dev)(b := enc es)\<rparr>"
    have hold: "dir_holds bs ?dev blks rest" using dir_holds_other [of b blks] ds(3) Cons.prems(2) blk by simp
    have w: "only_writes (blk # blks) dev ?dev" using blk by (simp add: only_writes_def)
    show ?thesis
    proof (cases dn)
      case True
      have "dir_holds bs ?dev (blk # blks) (es # rest)" using r(3) hold False blk by simp
      moreover have "links need (new_entry ls) True (concat dss) (concat (es # rest))"
        using links_append(1) [of need _ ds es "concat rest"] r(1) True ds(1) dir_holds_valid [OF ds(3)] by simp
      ultimately show ?thesis using r(2) True blk w by (intro exI [of _ True] exI [of _ ?dev] exI [of _ "es # rest"]) simp
    next
      case dn: False
      have ls: "ls\<lparr>ln_done := False\<rparr> = ls" using assms(3) by simp
      from Cons.IH [OF hold] Cons.prems(2) obtain dn' dev' dss' where ih:
          "iterate_blocks bs (plain True) (link_proc bs) blks Success ?dev ls = Some (Success, dev', ls\<lparr>ln_done := dn'\<rparr>)"
          "dir_holds bs dev' blks dss'" "links need (new_entry ls) dn' (concat rest) (concat dss')" "only_writes blks ?dev dev'"
        by auto
      have "block_holds bs dev' b es" using r(3) ih(4) Cons.prems(2) blk by (simp add: only_writes_def block_holds_def)
      then have "dir_holds bs dev' (blk # blks) (es # dss')" using ih(2) False blk by simp
      moreover have "links need (new_entry ls) dn' (concat dss) (concat (es # dss'))"
        using links_append(2) [OF _ ih(3)] r(1) dn ds(1) by simp
      moreover have "only_writes (blk # blks) dev dev'" using ih(4) blk by (simp add: only_writes_def)
      moreover have "iterate_blocks bs (plain True) (link_proc bs) (blk # blks) Success dev ls = Some (Success, dev', ls\<lparr>ln_done := dn'\<rparr>)"
        using r(2) ih(1) dn ls blk by simp
      ultimately show ?thesis by blast
    qed
  qed
qed

end
