(* ===== verification/Dir_Spec.thy ===== *)
theory Dir_Spec
  imports Directory Simulation
begin

text \<open>
  Directories as lists of names: what the calls \<open>ext2fs_lookup\<close>, \<open>ext2fs_link\<close> and \<open>ext2fs_unlink\<close> promise, as
  a relation on the list of the names in use, and the proof that any sequence of calls on well-formed
  blocks keeps the promise.
\<close>

section \<open>Link\<close>

definition link_start :: "bool \<Rightarrow> bytes \<Rightarrow> u32 \<Rightarrow> nat \<Rightarrow> link_struct" where
  "link_start filetype name ino flags =
     \<lparr>ln_name = name, ln_inode = ino, ln_flags = flags, ln_done = False, ln_err = Success, ln_filetype = filetype\<rparr>"

lemma link_start_fields [simp]:
  "ln_name (link_start ft name ino flags) = name" "ln_inode (link_start ft name ino flags) = ino"
  "\<not> ln_done (link_start ft name ino flags)" "ln_err (link_start ft name ino flags) = Success"
  by (simp_all add: link_start_def)

lemma link_runs:
  assumes "dir_holds bs dev blks dss" "distinct (map fst blks)" "length name \<le> 255" "ino \<noteq> 0"
  shows "\<exists>dn dev' dss'. ext2fs_link bs True filetype Success inode_io blks dev name ino flags =
      Some (if dn then inode_io else EXT2_ET_DIR_NO_SPACE, dev') \<and> dir_holds bs dev' blks dss' \<and> only_writes blks dev dev' \<and>
    links (EXT2_DIR_REC_LEN (length name)) (new_entry (link_start filetype name ino flags)) dn (concat dss) (concat dss')"
  using iterate_link [OF assms(1,2), of "link_start filetype name ino flags", OF _ _ _ refl] assms(3,4)
  by (fastforce simp: ext2fs_link_def ext2fs_dir_iterate_def plain_def link_start_def)

text \<open>
  C11. Linking a name of at most 255 characters to an inode in a directory of distinct well-formed blocks:
  if one of the entries has the space, next to its own name if it is in use, the name is entered, and all
  that is in the directory before keeps its name, inode, type and order; otherwise the directory may be
  rewritten with unused entries joined, but the names in use are as before, or the name still is entered,
  because unused entries were joined. In each case the blocks are well-formed again and no block
  outside the directory is written.
\<close>

theorem link_enters_name:
  assumes "dir_holds bs dev blks dss" "distinct (map fst blks)" "length name \<le> 255" "ino \<noteq> 0"
  shows "\<exists>err dev' dss'. ext2fs_link bs True filetype Success Success blks dev name ino flags = Some (err, dev') \<and>
    dir_holds bs dev' blks dss' \<and> only_writes blks dev dev' \<and>
    (err = Success \<and> (\<exists>us vs. used (concat dss) = us @ vs \<and>
         used (concat dss') = us @ (ino, link_name_len (link_start filetype name ino flags), name) # vs) \<or>
     err = EXT2_ET_DIR_NO_SPACE \<and> used (concat dss') = used (concat dss)) \<and>
    ((\<exists>d\<in>set (concat dss). fits (EXT2_DIR_REC_LEN (length name)) d) \<longrightarrow> err = Success)"
  using link_runs [OF assms, of filetype Success flags] by (fastforce simp: links_def new_entry_def split: if_splits)

theorem link_enters_name_witness:
  "\<exists>dev' dss'. ext2fs_link 1024 True True Success Success [(7, 0)] (dev_with 7 (enc two_files)) [99, 100] 14 1 = Some (Success, dev') \<and>
     dir_holds 1024 dev' [(7, 0)] dss' \<and>
     (\<exists>us vs. used two_files = us @ vs \<and> used (concat dss') = us @ (14, link_name_len (link_start True [99, 100] 14 1), [99, 100]) # vs)"
proof -
  have h: "dir_holds 1024 (dev_with 7 (enc two_files)) [(7, 0)] [two_files]" "distinct (map fst [(7, 0 :: int)])"
      "length [99, 100 :: u8] \<le> 255" "(14 :: u32) \<noteq> 0"
    using two_files_valid by (simp_all add: block_holds_def dev_with_def)
  from link_enters_name [OF h, of True 1] obtain err dev' dss' where l:
      "ext2fs_link 1024 True True Success Success [(7, 0)] (dev_with 7 (enc two_files)) [99, 100] 14 1 = Some (err, dev')"
      "dir_holds 1024 dev' [(7, 0)] dss'"
      "err = Success \<and> (\<exists>us vs. used (concat [two_files]) = us @ vs \<and>
         used (concat dss') = us @ (14, link_name_len (link_start True [99, 100] 14 1), [99, 100]) # vs) \<or>
       err = EXT2_ET_DIR_NO_SPACE \<and> used (concat dss') = used (concat [two_files])"
      "(\<exists>d\<in>set (concat [two_files]). fits (EXT2_DIR_REC_LEN (length [99, 100 :: u8])) d) \<longrightarrow> err = Success"
    by blast
  have "fits (EXT2_DIR_REC_LEN (length [99, 100 :: u8])) (file_entry 13 [98] 1008)"
    by (simp add: fits_def min_len_def file_entry_def EXT2_DIR_REC_LEN_def low_len_def d_len_def)
  then have "err = Success" using l(4) by (auto simp: two_files_def)
  then show ?thesis using l(1-3) by (auto simp del: used_simps)
qed

section \<open>The list of names\<close>

datatype dir_call = Lookup bytes | Link bytes u32 nat | Unlink "bytes option" u32

datatype dir_answer = Found u32 | Code errcode

type_synonym dir_entries = "(u32 \<times> u16 \<times> bytes) list"

definition dir_step :: "nat \<Rightarrow> bool \<Rightarrow> (nat \<times> int) list \<Rightarrow> device \<Rightarrow> dir_call \<Rightarrow> (dir_answer \<times> device) option" where
  "dir_step bs filetype blks dev call =
     (case call of
        Lookup name \<Rightarrow> map_option (\<lambda>r. (case_sum Code Found r, dev)) (ext2fs_lookup bs Success blks dev name)
      | Link name ino flags \<Rightarrow> map_option (map_prod Code id) (ext2fs_link bs True filetype Success Success blks dev name ino flags)
      | Unlink name ino \<Rightarrow> map_option (map_prod Code id) (ext2fs_unlink bs True Success blks dev name ino))"

definition call_ok :: "dir_call \<Rightarrow> bool" where
  "call_ok call = (case call of Lookup name \<Rightarrow> 0 \<notin> set name | Link name ino flags \<Rightarrow> length name \<le> 255 \<and> ino \<noteq> 0
     | Unlink name ino \<Rightarrow> name_ok name)"

definition entry_hit :: "bytes option \<Rightarrow> u32 \<Rightarrow> u32 \<times> u16 \<times> bytes \<Rightarrow> bool" where
  "entry_hit name ino e \<longleftrightarrow> (case name of None \<Rightarrow> True | Some n \<Rightarrow> snd (snd e) = n) \<and> (ino = 0 \<or> fst e = ino)"

inductive dir_spec :: "bool \<Rightarrow> dir_entries \<Rightarrow> dir_call \<Rightarrow> dir_answer \<Rightarrow> dir_entries \<Rightarrow> bool" for filetype where
  spec_found: "find (\<lambda>e. snd (snd e) = name) es = Some e \<Longrightarrow> dir_spec filetype es (Lookup name) (Found (fst e)) es"
| spec_not_found: "find (\<lambda>e. snd (snd e) = name) es = None \<Longrightarrow> dir_spec filetype es (Lookup name) (Code EXT2_ET_FILE_NOT_FOUND) es"
| spec_linked: "dir_spec filetype (us @ vs) (Link name ino flags) (Code Success)
     (us @ (ino, link_name_len (link_start filetype name ino flags), name) # vs)"
| spec_full: "dir_spec filetype es (Link name ino flags) (Code EXT2_ET_DIR_NO_SPACE) es"
| spec_unlinked: "entry_hit name ino e \<Longrightarrow> \<forall>x\<in>set us. \<not> entry_hit name ino x \<Longrightarrow> name \<noteq> None \<or> ino \<noteq> 0 \<Longrightarrow>
     dir_spec filetype (us @ e # vs) (Unlink name ino) (Code Success) (us @ vs)"
| spec_no_entry: "\<forall>x\<in>set es. \<not> entry_hit name ino x \<Longrightarrow> name \<noteq> None \<or> ino \<noteq> 0 \<Longrightarrow>
     dir_spec filetype es (Unlink name ino) (Code EXT2_ET_DIR_NO_SPACE) es"
| spec_invalid: "dir_spec filetype es (Unlink None 0) (Code EXT2_ET_INVALID_ARGUMENT) es"

text \<open>The entries and the names in use.\<close>

lemma find_used:
  "find (\<lambda>e. snd (snd e) = name) (used ds) = map_option (\<lambda>d. (d_inode d, d_name_len d, d_name d)) (find (named name) ds)"
  by (induction ds) (simp_all add: named_def)

lemma unlink_hit_entry: "unlink_hit name ino d \<longleftrightarrow> d_inode d \<noteq> 0 \<and> entry_hit name ino (d_inode d, d_name_len d, d_name d)"
  by (auto simp: unlink_hit_def entry_hit_def split: option.splits)

lemma used_hits: "(\<forall>x\<in>set (used ds). \<not> entry_hit name ino x) \<longleftrightarrow> (\<forall>d\<in>set ds. \<not> unlink_hit name ino d)"
  by (auto simp: used_def unlink_hit_entry)

lemma removes_spec:
  assumes "removes (unlink_hit name ino) ds es" "name \<noteq> None \<or> ino \<noteq> 0"
  shows "dir_spec ft (used ds) (Unlink name ino) (Code Success) (used es)"
proof -
  obtain us d vs where r: "ds = us @ d # vs" "unlink_hit name ino d" "\<forall>x\<in>set us. \<not> unlink_hit name ino x" "used es = used us @ used vs"
    using assms(1) by (auto simp: removes_def)
  then have "used ds = used us @ (d_inode d, d_name_len d, d_name d) # used vs" by (simp add: unlink_hit_entry)
  moreover have "\<forall>x\<in>set (used us). \<not> entry_hit name ino x" using r(3) used_hits by blast
  ultimately show ?thesis using r(2,4) assms(2) by (simp add: spec_unlinked unlink_hit_entry)
qed

section \<open>Sequences of calls\<close>

text \<open>The blocks hold the entries in use, and nothing else of the device has been written.\<close>

definition dir_rel :: "nat \<Rightarrow> (nat \<times> int) list \<Rightarrow> device \<Rightarrow> device \<Rightarrow> dir_entries \<Rightarrow> bool" where
  "dir_rel bs blks dev0 dev es \<longleftrightarrow> 0 < bs \<and> distinct (map fst blks) \<and> only_writes blks dev0 dev \<and>
     (\<exists>dss. dir_holds bs dev blks dss \<and> used (concat dss) = es)"

lemma dir_rel_next:
  "dir_rel bs blks dev0 dev es \<Longrightarrow> only_writes blks dev dev' \<Longrightarrow> dir_holds bs dev' blks dss' \<Longrightarrow> dir_rel bs blks dev0 dev' (used (concat dss'))"
  by (auto simp: dir_rel_def only_writes_def)

lemma lookup_step:
  assumes "dir_rel bs blks dev0 dev es" "0 \<notin> set name"
  shows "\<exists>a. dir_step bs ft blks dev (Lookup name) = Some (a, dev) \<and> dir_spec ft es (Lookup name) a es"
proof -
  obtain dss where d: "dir_holds bs dev blks dss" "es = used (concat dss)" using assms(1) by (auto simp: dir_rel_def)
  show ?thesis
  proof (cases "find (named name) (concat dss)")
    case None
    then show ?thesis using lookup_entries [OF d(1) assms(2)] spec_not_found [of name es ft] d(2) by (simp add: dir_step_def find_used)
  next
    case (Some e)
    then show ?thesis
      using lookup_entries [OF d(1) assms(2)] spec_found [of name es "(d_inode e, d_name_len e, d_name e)" ft] d(2)
      by (simp add: dir_step_def find_used)
  qed
qed

lemma link_step:
  assumes "dir_rel bs blks dev0 dev es" "length name \<le> 255" "ino \<noteq> 0"
  shows "\<exists>a dev' es'. dir_step bs ft blks dev (Link name ino flags) = Some (a, dev') \<and> dir_rel bs blks dev0 dev' es' \<and>
    dir_spec ft es (Link name ino flags) a es'"
proof -
  obtain dss where d: "dir_holds bs dev blks dss" "es = used (concat dss)" "distinct (map fst blks)"
    using assms(1) by (auto simp: dir_rel_def)
  from link_runs [OF d(1,3) assms(2,3), of ft Success flags] obtain dn dev' dss' where l:
      "ext2fs_link bs True ft Success Success blks dev name ino flags = Some (if dn then Success else EXT2_ET_DIR_NO_SPACE, dev')"
      "dir_holds bs dev' blks dss'" "only_writes blks dev dev'"
      "links (EXT2_DIR_REC_LEN (length name)) (new_entry (link_start ft name ino flags)) dn (concat dss) (concat dss')"
    by blast
  have "dir_spec ft es (Link name ino flags) (Code (if dn then Success else EXT2_ET_DIR_NO_SPACE)) (used (concat dss'))"
    using l(4) d(2) spec_linked [of ft] spec_full [of ft es] by (auto simp: links_def new_entry_def)
  then show ?thesis using l(1) dir_rel_next [OF assms(1) l(3,2)] by (auto simp: dir_step_def)
qed

lemma unlink_step:
  assumes "dir_rel bs blks dev0 dev es" "name_ok name"
  shows "\<exists>a dev' es'. dir_step bs ft blks dev (Unlink name ino) = Some (a, dev') \<and> dir_rel bs blks dev0 dev' es' \<and>
    dir_spec ft es (Unlink name ino) a es'"
proof -
  obtain dss where d: "dir_holds bs dev blks dss" "es = used (concat dss)" "0 < bs" "distinct (map fst blks)"
    using assms(1) by (auto simp: dir_rel_def)
  show ?thesis
  proof (cases "name = None \<and> ino = 0")
    case True
    then show ?thesis using assms(1) spec_invalid [of ft es] by (auto simp: dir_step_def ext2fs_unlink_def)
  next
    case args: False
    note u = unlink_runs [OF d(1,3,4) assms(2), of ino]
    show ?thesis
    proof (cases "\<exists>d\<in>set (concat dss). unlink_hit name ino d")
      case True
      then obtain dev' dss' where r: "ext2fs_unlink bs True Success blks dev name ino = Some (Success, dev')" "dir_holds bs dev' blks dss'"
          "removes (unlink_hit name ino) (concat dss) (concat dss')" "only_writes blks dev dev'"
        using u args by auto
      from removes_spec [OF r(3), of ft] args d(2) show ?thesis
        using r(1) dir_rel_next [OF assms(1) r(4,2)] by (auto simp: dir_step_def)
    next
      case False
      then have "dir_spec ft es (Unlink name ino) (Code EXT2_ET_DIR_NO_SPACE) es"
        using spec_no_entry [of es name ino ft] used_hits [of "concat dss"] args d(2) by auto
      then show ?thesis using u args False assms(1) by (auto simp: dir_step_def)
    qed
  qed
qed

interpretation dirs: trace_simulation "dir_rel bs blks dev0" call_ok "dir_step bs ft blks" "dir_spec ft" for bs blks dev0 ft
proof
  fix dev es call
  assume a: "dir_rel bs blks dev0 dev es" "call_ok call"
  show "\<exists>a dev' es'. dir_step bs ft blks dev call = Some (a, dev') \<and> dir_rel bs blks dev0 dev' es' \<and> dir_spec ft es call a es'"
  proof (cases call)
    case (Lookup name)
    then show ?thesis using lookup_step [OF a(1), of name ft] a by (auto simp: call_ok_def)
  next
    case (Link name ino flags)
    then show ?thesis using link_step [OF a(1), of name ino ft flags] a(2) by (simp add: call_ok_def)
  next
    case (Unlink name ino)
    then show ?thesis using unlink_step [OF a(1), of name ft ino] a(2) by (simp add: call_ok_def)
  qed
qed

text \<open>
  C5. Any sequence of lookups, links and unlinks on a directory of distinct well-formed blocks returns,
  and its answers are those of a list of names: a lookup answers with the inode of the first entry of the
  name, a link enters the name at some place or answers that there is no space, an unlink removes the first
  entry that fits its name and inode. The blocks are well-formed and hold exactly that list at the end.
\<close>

theorem directory_refines_names:
  assumes "dir_holds bs dev blks dss" "0 < bs" "distinct (map fst blks)" "list_all call_ok calls"
  shows "\<exists>answers dev' dss'. run_calls (dir_step bs filetype blks) calls dev = Some (answers, dev') \<and> dir_holds bs dev' blks dss' \<and>
    only_writes blks dev dev' \<and> trace (dir_spec filetype) (used (concat dss)) calls answers (used (concat dss'))"
proof -
  have "dir_rel bs blks dev dev (used (concat dss))" using assms(1-3) by (auto simp: dir_rel_def only_writes_def)
  from dirs.run_trace [OF this assms(4), of filetype] show ?thesis by (auto simp: dir_rel_def)
qed

inductive_cases spec_lookup_cases: "dir_spec ft es (Lookup name) a es'"
inductive_cases spec_unlink_cases: "dir_spec ft es (Unlink name ino) a es'"

lemma two_files_used: "used two_files = [(12, 1, [97]), (13, 1, [98])]"
  by (simp add: two_files_def file_entry_def d_name_def low_len_def)

theorem directory_refines_names_witness:
  "\<exists>dev'. run_calls (dir_step 1024 True [(7, 0)]) [Lookup [98], Unlink (Some [98]) 0, Lookup [98]] (dev_with 7 (enc two_files)) =
     Some ([Found 13, Code Success, Code EXT2_ET_FILE_NOT_FOUND], dev')"
proof -
  let ?calls = "[Lookup [98], Unlink (Some [98]) 0, Lookup [98]]"
  have h: "dir_holds 1024 (dev_with 7 (enc two_files)) [(7, 0)] [two_files]" "(0 :: nat) < 1024" "distinct (map fst [(7, 0 :: int)])"
      "list_all call_ok ?calls"
    using two_files_valid by (simp_all add: block_holds_def dev_with_def call_ok_def name_ok_def)
  from directory_refines_names [OF h, of True] obtain answers dev' dss' where
      r: "run_calls (dir_step 1024 True [(7, 0)]) ?calls (dev_with 7 (enc two_files)) = Some (answers, dev')"
      "trace (dir_spec True) (used (concat [two_files])) ?calls answers (used (concat dss'))"
    by blast
  have "answers = [Found 13, Code Success, Code EXT2_ET_FILE_NOT_FOUND]"
    using r(2) two_files_used
    by (auto elim!: spec_lookup_cases spec_unlink_cases simp: entry_hit_def Cons_eq_append_conv)
  then show ?thesis using r(1) by auto
qed

section \<open>New directories\<close>

definition dot_entry :: "bool \<Rightarrow> u32 \<Rightarrow> dirent" where
  "dot_entry filetype ino = \<lparr>d_inode = ino, d_name_len = 1 OR (if filetype then 0x200 else 0), d_rest = [46, 0, 0, 0]\<rparr>"

definition dot_dot_entry :: "nat \<Rightarrow> bool \<Rightarrow> u32 \<Rightarrow> dirent" where
  "dot_dot_entry bs filetype ino =
     \<lparr>d_inode = ino, d_name_len = 2 OR (if filetype then 0x200 else 0), d_rest = [46, 46] @ replicate (bs - 22) 0\<rparr>"

lemma new_dir_block_dots:
  assumes "24 \<le> bs" "bs < 65536" "bs mod 4 = 0" "ino \<noteq> 0"
  shows "ext2fs_new_dir_block bs True filetype ino parent = Some (Inr (enc [dot_entry filetype ino, dot_dot_entry bs filetype parent]))"
proof -
  have zeros: "replicate bs 0 = [0,0,0,0,0,0,0,0,0,0,0,0,0,0,0,0,0,0,0,0,0,0] @ replicate (bs - 22) (0 :: u8)"
  proof -
    have "replicate bs (0 :: u8) = replicate 22 0 @ replicate (bs - 22) 0" using assms(1) by (simp flip: replicate_add)
    then show ?thesis by (simp add: numeral_eq_Suc)
  qed
  have m: "(bs - 12) mod 4 = 0" using assms(1,3) by presburger
  have set: "ext2fs_set_rec_len bs bs = Some (of_nat bs)" "ext2fs_set_rec_len bs (bs - 12) = Some (of_nat (bs - 12))"
    using assms(2,3) m by (simp_all add: set_rec_len_small del: of_nat_diff)
  have len: "d_len (dot_entry filetype ino) = 12" "d_len (dot_dot_entry bs filetype parent) = bs - 12"
    using assms(1) by (simp_all add: dot_entry_def dot_dot_entry_def d_len_def)
  show ?thesis
    using set assms(4) len unfolding ext2fs_new_dir_block_def zeros new_dots_def
    by (simp add: put_def splice_def bytes16_def bytes32_def encode_def Let_def del: of_nat_diff)
      (simp add: dot_entry_def dot_dot_entry_def)
qed

lemma low_len_small: "n < 256 \<Longrightarrow> low_len (of_nat n OR (if b then 0x200 else 0)) = n"
proof -
  assume n: "n < 256"
  have "(if b then 0x200 else 0 :: u16) = push_bit 8 (if b then 2 else 0)" by (simp add: push_bit_eq_mult)
  then have "take_bit 8 (of_nat n OR (if b then 0x200 else 0) :: u16) = take_bit 8 (of_nat n)"
    by (simp only: take_bit_or take_bit_push_bit) simp
  then show ?thesis using n by (simp add: low_len_take_bit take_bit_eq_mod unat_mod unat_of_nat)
qed

lemma new_entries:
  assumes "24 \<le> bs" "bs < 65536" "bs mod 4 = 0"
  shows "list_all d_valid [dot_entry ft ino, dot_dot_entry bs ft parent]" "length (enc [dot_entry ft ino, dot_dot_entry bs ft parent]) = bs"
    "d_name (dot_entry ft ino) = [46]" "d_name (dot_dot_entry bs ft parent) = [46, 46]"
proof -
  have m: "Suc (Suc (bs - 22)) mod 4 = 0" using assms(1,3) by presburger
  have low: "low_len (1 OR (if ft then 0x200 else 0)) = 1" "low_len (2 OR (if ft then 0x200 else 0)) = 2"
    using low_len_small [of 1 ft] low_len_small [of 2 ft] by simp_all
  show "list_all d_valid [dot_entry ft ino, dot_dot_entry bs ft parent]" "length (enc [dot_entry ft ino, dot_dot_entry bs ft parent]) = bs"
    "d_name (dot_entry ft ino) = [46]" "d_name (dot_dot_entry bs ft parent) = [46, 46]"
    unfolding d_valid_def using assms(1,2) m low by (simp_all add: d_name_def dot_entry_def dot_dot_entry_def d_len_def)
qed

text \<open>
  C33. A new directory block holds two names: a lookup finds its own inode under one dot, that of its
  parent under two, and no other name.
\<close>

theorem new_directory_lookup:
  assumes "24 \<le> bs" "bs < 65536" "bs mod 4 = 0" "ino \<noteq> 0" "parent \<noteq> 0" "read_error dev b = Success" "write_error dev b = Success"
    "0 \<notin> set name"
  shows "\<exists>buf. ext2fs_new_dir_block bs True filetype ino parent = Some (Inr buf) \<and>
    ext2fs_lookup bs Success [(b, 0)] (dev\<lparr>contents := (contents dev)(b := buf)\<rparr>) name =
      Some (if name = [46] then Inr ino else if name = [46, 46] then Inr parent else Inl EXT2_ET_FILE_NOT_FOUND)"
proof -
  let ?ds = "[dot_entry filetype ino, dot_dot_entry bs filetype parent]"
  note e = new_entries [OF assms(1-3)]
  have "dir_holds bs (dev\<lparr>contents := (contents dev)(b := enc ?ds)\<rparr>) [(b, 0)] [?ds]"
    using e(1,2) assms(2,6,7) by (simp add: block_holds_def)
  from lookup_entries [OF this assms(8)] new_dir_block_dots [OF assms(1-4), of filetype parent] show ?thesis
    using assms(4,5) e(3,4) by (auto simp: named_def) (auto simp: dot_entry_def dot_dot_entry_def)
qed

theorem new_directory_lookup_witness:
  "\<exists>buf. ext2fs_new_dir_block 1024 True True 12 2 = Some (Inr buf) \<and> ext2fs_lookup 1024 Success [(7, 0)] (dev_with 7 buf) [46, 46] = Some (Inr 2)"
  using new_directory_lookup [of 1024 12 2 "dev_with 7 []" 7 "[46, 46]" True] by (simp add: dev_with_def)

text \<open>
  C23. A name that a directory does not hold is found with its inode once it has been linked, if an entry
  has the space; every other name is found, or not found, as before.
\<close>

theorem link_then_lookup:
  assumes "dir_holds bs dev blks dss" "distinct (map fst blks)" "length name \<le> 255" "0 \<notin> set name" "ino \<noteq> 0"
    "ext2fs_lookup bs Success blks dev name = Some (Inl EXT2_ET_FILE_NOT_FOUND)" "d \<in> set (concat dss)" "fits (EXT2_DIR_REC_LEN (length name)) d"
  shows "\<exists>dev'. ext2fs_link bs True filetype Success Success blks dev name ino flags = Some (Success, dev') \<and>
    ext2fs_lookup bs Success blks dev' name = Some (Inr ino) \<and>
    (\<forall>other. other \<noteq> name \<longrightarrow> 0 \<notin> set other \<longrightarrow> ext2fs_lookup bs Success blks dev' other = ext2fs_lookup bs Success blks dev other)"
proof -
  have look: "ext2fs_lookup bs Success blks dv n =
      Some (case find (\<lambda>e. snd (snd e) = n) (used (concat ds)) of Some e \<Rightarrow> Inr (fst e) | None \<Rightarrow> Inl EXT2_ET_FILE_NOT_FOUND)"
    if "dir_holds bs dv blks ds" "0 \<notin> set n" for dv ds n
    using lookup_entries [OF that] by (simp add: find_used split: option.split)
  from link_runs [OF assms(1-3,5), of filetype Success flags] assms(7,8) obtain dev' dss' us vs l where r:
      "ext2fs_link bs True filetype Success Success blks dev name ino flags = Some (Success, dev')" "dir_holds bs dev' blks dss'"
      "used (concat dss) = us @ vs" "used (concat dss') = us @ (ino, l, name) # vs"
    by (force simp: links_def new_entry_def)
  have "find (\<lambda>e. snd (snd e) = name) us = None"
    using look [OF assms(1,4)] assms(6) r(3) by (simp add: find_append split: option.splits)
  then have "ext2fs_lookup bs Success blks dev' name = Some (Inr ino)" using look [OF r(2) assms(4)] r(4) by (simp add: find_append)
  moreover have "ext2fs_lookup bs Success blks dev' other = ext2fs_lookup bs Success blks dev other" if "other \<noteq> name" "0 \<notin> set other" for other
  proof -
    have "find (\<lambda>e. snd (snd e) = other) (us @ (ino, l, name) # vs) = find (\<lambda>e. snd (snd e) = other) (us @ vs)"
      using that(1) by (auto simp: find_append split: option.splits)
    then show ?thesis using look [OF r(2) that(2)] look [OF assms(1) that(2)] r(3,4) by simp
  qed
  ultimately show ?thesis using r(1) by blast
qed

theorem link_then_lookup_witness:
  "\<exists>dev'. ext2fs_link 1024 True True Success Success [(7, 0)] (dev_with 7 (enc two_files)) [99, 100] 14 1 = Some (Success, dev') \<and>
     ext2fs_lookup 1024 Success [(7, 0)] dev' [99, 100] = Some (Inr 14)"
proof -
  have h: "dir_holds 1024 (dev_with 7 (enc two_files)) [(7, 0)] [two_files]"
    using two_files_valid by (simp add: block_holds_def dev_with_def)
  have "ext2fs_lookup 1024 Success [(7, 0)] (dev_with 7 (enc two_files)) [99, 100] = Some (Inl EXT2_ET_FILE_NOT_FOUND)"
    using lookup_entries [OF h, of "[99, 100]"] by (simp add: two_files_def named_def file_entry_def d_name_def low_len_def)
  moreover have "fits (EXT2_DIR_REC_LEN (length [99, 100 :: u8])) (file_entry 13 [98] 1008)"
    by (simp add: fits_def min_len_def file_entry_def EXT2_DIR_REC_LEN_def low_len_def d_len_def)
  ultimately show ?thesis
    using link_then_lookup [OF h, of "[99, 100]" 14 "file_entry 13 [98] 1008" True 1] by (auto simp: two_files_def)
qed

end
