(* ===== verification/Spec2Isabelle.thy ===== *)
theory Spec2Isabelle
  imports Packet Dhcp_Msg Sys Ifc Dhcp_Client Dhcp_Utils Crc32 Revoke Recovery Gen_Bitmap64 Badblocks Ea_Refcount Fp_Nav Dir_Spec
begin

text \<open>
  Verification of parts of the platform sources of a phone: the network configuration of Android
  (\<open>src/system/core/libnetutils\<close>), the file system library and the journal recovery of e2fsprogs
  (\<open>src/external/e2fsprogs\<close>), and the gesture recognition of a fingerprint sensor
  (\<open>src/vendor/tinno/Fingerprint-N\<close>). Paths below are relative to \<open>src\<close>. The theories model these
  parts, in this order:

  \<^bold>\<open>Shared.\<close> \<open>Prelude\<close> has the machine integers as words, their layout in memory on the little-endian cores of
  the platform and the byte-order conversions. \<open>Simulation\<close> has sequences of calls on an object and two
  locales, \<open>simulation\<close> and \<open>trace_simulation\<close>, for an implementation that answers as a specification
  does; the first gives the second. \<open>Sorted_Array\<close> has checked accesses to arrays and the gaps of sorted ones.

  \<^bold>\<open>The DHCP client\<close>, \<open>system/core/libnetutils\<close>. \<open>Packet\<close> (\<open>packet.c\<close>): IP and UDP headers, checksums, building
  and filtering of datagrams. \<open>Dhcp_Msg\<close> (\<open>dhcpmsg.c\<close>, \<open>dhcpmsg.h\<close>, the decoder of \<open>dhcpclient.c\<close>): the messages and the
  option parser. \<open>Sys\<close>: the process state and the calls into the system, whose answers come from an
  arbitrary oracle. \<open>Ifc\<close> (\<open>ifc_utils.c\<close>): all operations on interfaces, addresses, routes and name servers as
  programs over \<open>Sys\<close>. \<open>Dhcp_Client\<close> (\<open>dhcpclient.c\<close>): the loop of \<open>dhcp_init_ifc\<close> as a step function on its variables and
  as a program over \<open>Sys\<close>. \<open>Dhcp_Utils\<close> (\<open>dhcp_utils.c\<close>): control of the DHCP daemon through properties.
  The theorems show the round trip of datagrams and options, that a damaged datagram is rejected, that
  the parser stays inside the received bytes, that every operation gives back the descriptors and locks it took
  whatever the system answers, what a successful configuration has done, the handshake, the bounds on
  retransmissions, and which replies can configure an interface. Three theorems exhibit defects: a
  length field that makes \<open>receive_packet\<close> write outside the message, a checksum of zero that the receiver
  rejects, and a rejected reply that is still used after the timeouts.

  \<^bold>\<open>Journal recovery\<close>, \<open>external/e2fsprogs/e2fsck\<close>. \<open>Crc32\<close> (\<open>crc32.c\<close>, \<open>gen_crc32table.c\<close>): the bitwise and the table
  version of the big-endian checksum, which agree. \<open>Revoke\<close> (\<open>revoke.c\<close>): the hash table of revoked blocks, which
  satisfies the contract \<open>revoke_spec\<close>. \<open>Recovery\<close> (\<open>recovery.c\<close>): the three passes over the log. A pass is the iteration of
  a step function with fuel; \<open>None\<close> means that the fuel is used up or that a read leaves a block. On logs
  as the journal writes them the theorems show that from some fuel on the passes return and copy exactly the blocks of complete transactions that are not revoked, in order, and that a
  transaction with a wrong checksum is not replayed. On a ring of revoke blocks no fuel is enough, so
  the code never returns.

  \<^bold>\<open>Bitmaps\<close>, \<open>external/e2fsprogs/lib/ext2fs\<close>. \<open>Bitops\<close> (\<open>bitops.c\<close>, \<open>bmap64.h\<close>): bit arrays and, as the locale \<open>bitmap_backend\<close>, the
  contract of the table of operations behind a bitmap. \<open>Blkmap_Ba\<close> (\<open>blkmap64_ba.c\<close>): the back end with a bit
  array. \<open>Rbtree\<close> (\<open>rbtree.c\<close>): red-black trees with parent pointers as a subtree and the path to the root.
  \<open>Blkmap_Rb\<close> (\<open>blkmap64_rb.c\<close>): the back end with a tree of extents, a heap and cursors. \<open>Gen_Bitmap64\<close> (\<open>gen_bitmap64.c\<close>,
  \<open>bitmaps.c\<close>): the layer above with ranges, clusters, comparison and search. The theorems show that the trees
  stay balanced and in order, that no null pointer is followed, that the word-wise search finds the least
  unmarked number, that the back ends cannot be told apart, and what the layer above computes on both;
  the comparison of bitmaps is shown to look at the last numbers only.

  \<^bold>\<open>Lists and directories\<close>, \<open>external/e2fsprogs/lib/ext2fs\<close>. \<open>Badblocks\<close> (\<open>badblocks.c\<close>): growing sorted arrays, which
  answer any sequence of calls as a set does. \<open>Ea_Refcount\<close> (\<open>e2fsck/ea_refcount.c\<close>): counts of blocks in a sorted array with
  a cursor, which answer as a map does. \<open>Dir_Block\<close> (\<open>dir_iterate.c\<close>, \<open>dirblock.c\<close>, \<open>newdir.c\<close>): the bytes of a directory
  block and the walk over its entries with a callback that may change the block. \<open>Directory\<close> (\<open>lookup.c\<close>, \<open>link.c\<close>,
  \<open>unlink.c\<close>): the three callbacks, on blocks that are encoded lists of entries. \<open>Dir_Spec\<close>: any sequence of these
  operations answers as a list of names does and leaves well-formed blocks; the locale
  \<open>trace_simulation\<close> carries the sequences, here and for the counts. The walk is a partial function whose value \<open>None\<close> is an access outside
  the buffer or a loop without end; on well-formed blocks it is shown to return, and a block that the
  check on reading accepts is shown to make it leave the buffer. The theorems are for blocks below 64 kB;
  the encoding of record lengths is shown to round trip up to 256 kB.

  \<^bold>\<open>Gestures\<close>, \<open>vendor/tinno/Fingerprint-N/native/libhardware/chipone-qsee/ta_entry\<close>. \<open>Fp_Nav\<close> (\<open>fp_nav.cpp\<close>, \<open>nav_loop\<close> of
  \<open>fpTa_entryproxy.cpp\<close>): the state machine that turns sensor events into keys, its timer, and the loop that
  feeds it. A gesture reports keys of one kind only, taps and swipes report the keys they mean, and two
  theorems exhibit gestures that report a key too many.

  \<^bold>\<open>Conventions.\<close> A record is a structure of the source and a definition keeps the name of its function;
  \<open>errno\<close> and error codes are values, and every early return is a branch. A result \<open>None\<close> is undefined behaviour or
  missing fuel, and each theorem about a result shows \<open>Some\<close>. What the sources call but do not contain
  is an argument: the system behind \<open>Sys\<close>, the devices under the journal and the directories, the
  memory that \<open>malloc\<close> does not initialise, the sensor.

  \<^bold>\<open>Not modelled.\<close> Of the modelled files: logging and dump functions, statistics, the IPv6 half of \<open>dhcp_utils.c\<close>,
  which repeats the property protocol of the IPv4 half, the little-endian CRC, the assembler and
  big-endian variants, the dispatch to the 32-bit bitmaps. Of e2fsprogs: the passes of the checker with
  their dialogue, inodes, extents and allocation, the bundled database and the tools; these are large
  and drive the modelled library. The other directories hold independent programs and libraries (an audio codec,
  a name server, firewall and routing tools, partition tools, another file system), kernel drivers that
  consist of accesses to devices, Java test code, and data.
\<close>

end
